(* ===== verification/Ufo_Prelude.thy ===== *)
theory Ufo_Prelude
  imports Main "HOL-Library.Word"
begin

unbundle bit_operations_syntax

text \<open>
  What the component theories of the UFO runtime share: the machine types of
  \<^verbatim>\<open>sanitizer_internal_defs.h\<close>, the faults an execution can end in and the
  sequencing of fallible steps, the little-endian layout of integers in memory
  (the runtime is built for x86-64), and heap blocks with bounds-checked writes.
\<close>

section \<open>Machine types\<close>

type_synonym byte = "8 word"
type_synonym u16 = "16 word"
type_synonym u32 = "32 word"
type_synonym u64 = "64 word"

text \<open>
  Sizes, capacities and indices of type \<^verbatim>\<open>u32\<close> are kept as natural numbers and every
  \<^verbatim>\<open>u32\<close> addition is written with its wrap-around.
\<close>

definition wrap32 :: "nat \<Rightarrow> nat" where
  "wrap32 n = n mod 2 ^ 32"

lemma wrap32_small [simp]: "n < 2 ^ 32 \<Longrightarrow> wrap32 n = n"
  by (simp add: wrap32_def)

lemma wrap32_less [simp]: "wrap32 n < 2 ^ 32"
  by (simp add: wrap32_def)

section \<open>Faults and sequencing\<close>

text \<open>
  How a step can fail to return normally: an access outside a heap block or outside the
  object it starts in, a null dereference, a call of \<^verbatim>\<open>Die()\<close>, a failed
  \<^verbatim>\<open>CHECK\<close>, or (not a failure, but no return either) a thread that has to wait on a
  condition variable before it can go on, or a call that never comes back.
\<close>

datatype fault = HeapOverflow | ObjectOverread | NullDeref | DieCalled | CheckFailed | MustWait | NoReturn

type_synonym 'a res = "fault + 'a"

definition rbind :: "'a res \<Rightarrow> ('a \<Rightarrow> 'b res) \<Rightarrow> 'b res" where
  "rbind m f = (case m of Inl e \<Rightarrow> Inl e | Inr x \<Rightarrow> f x)"

lemma rbind_simps [simp]:
  "rbind (Inl e) f = Inl e"
  "rbind (Inr x) f = f x"
  by (simp_all add: rbind_def)

lemma rbind_eq_Inr [simp]: "rbind m f = Inr y \<longleftrightarrow> (\<exists>x. m = Inr x \<and> f x = Inr y)"
  by (cases m) simp_all

lemma rbind_eq_Inl: "rbind m f = Inl e \<longleftrightarrow> m = Inl e \<or> (\<exists>x. m = Inr x \<and> f x = Inl e)"
  by (cases m) simp_all

lemma rbind_Inr [simp]: "rbind m Inr = m"
  by (cases m) simp_all

lemma rbind_assoc: "rbind (rbind m f) g = rbind m (\<lambda>x. rbind (f x) g)"
  by (cases m) simp_all

text \<open>A \<^verbatim>\<open>CHECK\<close> of the runtime: abort when the condition does not hold.\<close>

definition check :: "bool \<Rightarrow> unit res" where
  "check b = (if b then Inr () else Inl CheckFailed)"

lemma check_simps [simp]: "check True = Inr ()" "check False = Inl CheckFailed"
  by (simp_all add: check_def)

lemma check_eq_Inr [simp]: "check b = Inr u \<longleftrightarrow> b"
  by (simp add: check_def)

section \<open>Little-endian integers\<close>

fun le_bytes :: "nat \<Rightarrow> u64 \<Rightarrow> byte list" where
  "le_bytes 0 w = []"
| "le_bytes (Suc n) w = ucast w # le_bytes n (drop_bit 8 w)"

fun le_word :: "byte list \<Rightarrow> u64" where
  "le_word [] = 0"
| "le_word (b # bs) = ucast b OR push_bit 8 (le_word bs)"

lemma length_le_bytes [simp]: "length (le_bytes n w) = n"
  by (induction n arbitrary: w) simp_all

lemma nth_le_bytes: "j < n \<Longrightarrow> le_bytes n w ! j = ucast (drop_bit (8 * j) w)"
proof (induction n arbitrary: w j)
  case (Suc n)
  then show ?case by (cases j) (auto simp: drop_bit_drop_bit add.commute)
qed simp

lemma le_word_le_bytes [simp]: "le_word (le_bytes n w) = take_bit (8 * n) w"
proof (induction n arbitrary: w)
  case 0
  then show ?case by simp
next
  case (Suc n)
  show ?case
  proof (rule bit_word_eqI)
    fix i assume "i < LENGTH(64)"
    then show "bit (le_word (le_bytes (Suc n) w)) i = bit (take_bit (8 * Suc n) w) i"
      by (auto simp: Suc.IH bit_or_iff bit_push_bit_iff bit_take_bit_iff bit_drop_bit_eq bit_ucast_iff)
  qed
qed

lemma take_bit_64_id [simp]: "64 \<le> n \<Longrightarrow> take_bit n (w :: u64) = w"
  by (rule bit_word_eqI) (auto simp: bit_take_bit_iff)

lemma le_bytes_inject: "le_bytes n v = le_bytes n w \<Longrightarrow> take_bit (8 * n) v = take_bit (8 * n) w"
  by (metis le_word_le_bytes)

lemma take_bit_scast_len:
  assumes "8 \<le> LENGTH('a)"
  shows "take_bit 8 (scast (b :: byte) :: 'a::len word) = ucast b"
proof (rule bit_word_eqI)
  fix n assume n: "n < LENGTH('a)"
  consider "n < 7" | "n = 7" | "7 < n" by linarith
  then show "bit (take_bit 8 (scast b :: 'a word)) n = bit (ucast b :: 'a word) n"
    by cases (use n in \<open>auto simp: bit_take_bit_iff bit_signed_iff bit_ucast_iff min_def dest: bit_imp_le_length\<close>)
qed

lemma bit_le_word:
  "bit (le_word bs) n \<longleftrightarrow> n < 64 \<and> n < 8 * length bs \<and> bit (bs ! (n div 8)) (n mod 8)"
proof (induction bs arbitrary: n)
  case (Cons b bs)
  show ?case
  proof (cases "n < 8")
    case True
    then show ?thesis by (simp add: bit_or_iff bit_push_bit_iff bit_ucast_iff)
  next
    case False
    then have "n div 8 = Suc ((n - 8) div 8)" "n mod 8 = (n - 8) mod 8" "\<not> bit b n"
      by (simp_all add: le_div_geq le_mod_geq bit_word.rep_eq bit_take_bit_iff)
    with False show ?thesis by (auto simp: bit_or_iff bit_push_bit_iff bit_ucast_iff Cons.IH)
  qed
qed simp

lemma le_word_0: "length bs \<le> 8 \<Longrightarrow> le_word bs = 0 \<longleftrightarrow> (\<forall>b\<in>set bs. b = 0)"
proof
  assume len: "length bs \<le> 8" and z: "le_word bs = 0"
  have "bs ! i = 0" if i: "i < length bs" for i
  proof (rule bit_word_eqI)
    fix k assume "k < LENGTH(8)"
    then have "\<not> bit (le_word bs) (8 * i + k)" "(8 * i + k) div 8 = i" "(8 * i + k) mod 8 = k"
      using z by simp_all
    then show "bit (bs ! i) k = bit 0 k"
      using i len \<open>k < LENGTH(8)\<close> by (simp add: bit_le_word)
  qed
  then show "\<forall>b\<in>set bs. b = 0" by (auto simp: in_set_conv_nth)
next
  assume "\<forall>b\<in>set bs. b = 0"
  then show "le_word bs = 0" by (induction bs) auto
qed

section \<open>Heap blocks\<close>

text \<open>
  A block obtained from \<^verbatim>\<open>internal_alloc\<close>: its length and its contents. The allocator
  does not clear a block, so the initial contents are whatever the memory held.
\<close>

record block =
  blk_len :: nat
  blk_mem :: "nat \<Rightarrow> byte"

definition blk_bytes :: "block \<Rightarrow> nat \<Rightarrow> byte list" where
  "blk_bytes k n = map (blk_mem k) [0..<n]"

definition poke :: "block \<Rightarrow> nat \<Rightarrow> byte \<Rightarrow> block res" where
  "poke k i b = (if i < blk_len k then Inr (k\<lparr>blk_mem := (blk_mem k)(i := b)\<rparr>) else Inl HeapOverflow)"

fun poke_list :: "block \<Rightarrow> nat \<Rightarrow> byte list \<Rightarrow> block res" where
  "poke_list k i [] = Inr k"
| "poke_list k i (b # bs) = rbind (poke k i b) (\<lambda>k'. poke_list k' (Suc i) bs)"

definition blk_put :: "block \<Rightarrow> nat \<Rightarrow> byte list \<Rightarrow> block" where
  "blk_put k i bs = k\<lparr>blk_mem := (\<lambda>j. if i \<le> j \<and> j < i + length bs then bs ! (j - i) else blk_mem k j)\<rparr>"

lemma blk_put_len [simp]: "blk_len (blk_put k i bs) = blk_len k"
  by (simp add: blk_put_def)

lemma blk_put_Nil [simp]: "blk_put k i [] = k"
  by (cases k) (auto simp: blk_put_def fun_eq_iff)

lemma blk_put_Cons:
  "blk_put (k\<lparr>blk_mem := (blk_mem k)(i := b)\<rparr>) (Suc i) bs = blk_put k i (b # bs)"
  by (cases k) (auto simp: blk_put_def fun_eq_iff nth_Cons' intro: arg_cong2 [where f = nth])

lemma blk_put_one: "k\<lparr>blk_mem := (blk_mem k)(i := b)\<rparr> = blk_put k i [b]"
  using blk_put_Cons [of k i b "[]"] by simp

lemma poke_list_eq:
  "poke_list k i bs = (if i + length bs \<le> blk_len k \<or> bs = [] then Inr (blk_put k i bs) else Inl HeapOverflow)"
proof (induction bs arbitrary: k i)
  case Nil
  then show ?case by simp
next
  case (Cons b bs)
  show ?case
  proof (cases "i < blk_len k")
    case True
    then show ?thesis
      by (cases "bs = []") (simp add: Cons.IH poke_def blk_put_one, simp add: Cons.IH poke_def blk_put_Cons)
  next
    case False
    then show ?thesis by (simp add: poke_def)
  qed
qed

lemma poke_list_fits: "i + length bs \<le> blk_len k \<Longrightarrow> poke_list k i bs = Inr (blk_put k i bs)"
  by (simp add: poke_list_eq)

lemma length_blk_bytes [simp]: "length (blk_bytes k n) = n"
  by (simp add: blk_bytes_def)

lemma blk_bytes_0 [simp]: "blk_bytes k 0 = []"
  by (simp add: blk_bytes_def)

lemma blk_bytes_put [simp]: "blk_bytes (blk_put k n bs) (n + length bs) = blk_bytes k n @ bs"
  by (rule nth_equalityI) (auto simp: blk_bytes_def blk_put_def nth_append)

lemma blk_bytes_put_low: "m \<le> n \<Longrightarrow> blk_bytes (blk_put k n bs) m = blk_bytes k m"
  by (rule nth_equalityI) (auto simp: blk_bytes_def blk_put_def)

lemma take_blk_bytes: "m \<le> n \<Longrightarrow> take m (blk_bytes k n) = blk_bytes k m"
  by (simp add: blk_bytes_def take_map min_def)

lemma drop_blk_bytes: "drop m (blk_bytes k n) = map (blk_mem k) [m..<n]"
  by (simp add: blk_bytes_def drop_map)

lemma blk_put_append: "blk_put (blk_put k i xs) (i + length xs) ys = blk_put k i (xs @ ys)"
  by (cases k) (auto simp: blk_put_def fun_eq_iff nth_append)

end
