(* ===== verification/San_Printf.thy ===== *)
theory San_Printf
  imports Ufo_Prelude
begin

text \<open>
  The formatted output of the sanitizer runtime (\<^verbatim>\<open>sanitizer_printf.cc\<close>):
  \<^verbatim>\<open>AppendChar\<close>, \<^verbatim>\<open>AppendNumber\<close> and its callers, \<^verbatim>\<open>VSNPrintf\<close> and
  \<^verbatim>\<open>internal_snprintf\<close>. A destination is the list of characters written so far together
  with the number of characters requested so far; \<open>cap\<close> is the number of characters
  that fit before the terminating zero.
\<close>

section \<open>Appending\<close>

type_synonym pst = "string \<times> nat"

definition AppendChar :: "nat \<Rightarrow> pst \<Rightarrow> char \<Rightarrow> pst" where
  "AppendChar cap st c = ((if length (fst st) < cap then fst st @ [c] else fst st), Suc (snd st))"

definition AppendChars :: "nat \<Rightarrow> pst \<Rightarrow> string \<Rightarrow> pst" where
  "AppendChars cap st cs = fold (\<lambda>c st. AppendChar cap st c) cs st"

text \<open>The digits of a value, least significant first (\<^verbatim>\<open>num_buffer\<close>).\<close>

fun num_digits :: "nat \<Rightarrow> nat \<Rightarrow> nat list" where
  "num_digits b v = (if v < b \<or> b \<le> 1 then [v] else (v mod b) # num_digits b (v div b))"

declare num_digits.simps [simp del]

definition digit_char :: "bool \<Rightarrow> nat \<Rightarrow> char" where
  "digit_char uppercase d =
     char_of (if d < 10 then 48 + d else (if uppercase then 65 else 97) + d - 10)"

text \<open>The loop over the leading zeros; it stops at the first non-zero digit.\<close>

fun emit_leading :: "nat \<Rightarrow> bool \<Rightarrow> pst \<Rightarrow> nat list \<Rightarrow> pst \<times> nat list" where
  "emit_leading cap pad st [] = (st, [])"
| "emit_leading cap pad st (d # ds) =
     (if d = 0
      then emit_leading cap pad (AppendChar cap st (if pad \<or> ds = [] then CHR ''0'' else CHR '' '')) ds
      else (st, d # ds))"

definition AppendNumber ::
    "nat \<Rightarrow> pst \<Rightarrow> u64 \<Rightarrow> nat \<Rightarrow> nat \<Rightarrow> bool \<Rightarrow> bool \<Rightarrow> bool \<Rightarrow> pst res" where
  "AppendNumber cap st absolute_value base minimal_num_length pad_with_zero negative uppercase =
     rbind (check (base = 10 \<or> base = 16)) (\<lambda>_.
     rbind (check (base = 10 \<or> \<not> negative)) (\<lambda>_.
     rbind (check (absolute_value \<noteq> 0 \<or> \<not> negative)) (\<lambda>_.
     rbind (check (minimal_num_length < 30)) (\<lambda>_.
       (let minlen = (if negative \<and> minimal_num_length \<noteq> 0 then minimal_num_length - 1 else minimal_num_length);
            st = (if negative \<and> pad_with_zero then AppendChar cap st (CHR ''-'') else st);
            ds = num_digits base (unat absolute_value)
        in rbind (check (length ds \<le> 30)) (\<lambda>_.
          (let ds = ds @ replicate (minlen - length ds) 0;
               (st, ds) = emit_leading cap pad_with_zero st (rev ds);
               st = (if negative \<and> \<not> pad_with_zero then AppendChar cap st (CHR ''-'') else st)
           in Inr (AppendChars cap st (map (digit_char uppercase) ds)))))))))"

definition AppendUnsigned :: "nat \<Rightarrow> pst \<Rightarrow> u64 \<Rightarrow> nat \<Rightarrow> nat \<Rightarrow> bool \<Rightarrow> bool \<Rightarrow> pst res" where
  "AppendUnsigned cap st num base minimal_num_length pad_with_zero uppercase =
     AppendNumber cap st num base minimal_num_length pad_with_zero False uppercase"

text \<open>
  Negating the least 64-bit integer is undefined in the source. On the integers of the model it is
  defined, and the magnitude as a word is the one the wrapped negation would give.
\<close>

definition AppendSignedDecimal :: "nat \<Rightarrow> pst \<Rightarrow> int \<Rightarrow> nat \<Rightarrow> bool \<Rightarrow> pst res" where
  "AppendSignedDecimal cap st num minimal_num_length pad_with_zero =
     (let negative = num < 0
      in AppendNumber cap st (word_of_int (if negative then - num else num)) 10
           minimal_num_length pad_with_zero negative False)"

definition AppendString :: "nat \<Rightarrow> pst \<Rightarrow> int \<Rightarrow> int \<Rightarrow> string option \<Rightarrow> pst res" where
  "AppendString cap st width max_chars s =
     (let s = (case s of None \<Rightarrow> ''<null>'' | Some s \<Rightarrow> s);
          body = (if max_chars \<ge> 0 then take (nat max_chars) s else s);
          pad = nat (- width) - length body
      in Inr (AppendChars cap st (body @ replicate pad (CHR '' ''))))"

definition AppendPointer :: "nat \<Rightarrow> pst \<Rightarrow> u64 \<Rightarrow> pst res" where
  "AppendPointer cap st ptr_value =
     rbind (AppendString cap st 0 (-1) (Some ''0x''))
       (\<lambda>st. AppendUnsigned cap st ptr_value 16 12 True False)"

section \<open>VSNPrintf\<close>

datatype varg = VInt int | VStr "string option"

definition is_digit :: "char \<Rightarrow> bool" where
  "is_digit c \<longleftrightarrow> 48 \<le> (of_char c :: nat) \<and> (of_char c :: nat) \<le> 57"

fun take_width :: "nat \<Rightarrow> string \<Rightarrow> nat \<times> string" where
  "take_width w [] = (w, [])"
| "take_width w (c # cs) =
     (if is_digit c then take_width (w * 10 + (of_char c - 48)) cs else (w, c # cs))"

definition va_int :: "bool \<Rightarrow> varg list \<Rightarrow> (int \<times> varg list) res" where
  "va_int wide args =
     (case args of
        VInt i # args \<Rightarrow>
          Inr (if wide then sint (word_of_int i :: u64) else sint (word_of_int i :: u32), args)
      | _ \<Rightarrow> Inl ObjectOverread)"

definition va_unsigned :: "bool \<Rightarrow> varg list \<Rightarrow> (u64 \<times> varg list) res" where
  "va_unsigned wide args =
     (case args of
        VInt i # args \<Rightarrow>
          Inr (if wide then word_of_int i else ucast (word_of_int i :: u32), args)
      | _ \<Rightarrow> Inl ObjectOverread)"

definition va_str :: "varg list \<Rightarrow> (string option \<times> varg list) res" where
  "va_str args = (case args of VStr s # args \<Rightarrow> Inr (s, args) | _ \<Rightarrow> Inl ObjectOverread)"

text \<open>
  One directive, from the character after the percent sign: flags and width, precision,
  length modifier, then the conversion. \<open>parse_flags\<close> and \<open>parse_length\<close> return
  what they read and the format that is left.
\<close>

definition parse_flags :: "string \<Rightarrow> (bool \<times> bool \<times> bool \<times> nat) \<times> string" where
  "parse_flags cur =
     (let left_justified = (cur \<noteq> [] \<and> hd cur = CHR ''-'');
          cur = (if left_justified then tl cur else cur);
          have_width = (cur \<noteq> [] \<and> is_digit (hd cur));
          pad_with_zero = (cur \<noteq> [] \<and> hd cur = CHR ''0'');
          (width, cur) = (if have_width then take_width 0 cur else (0, cur))
      in ((left_justified, have_width, pad_with_zero, width), cur))"

definition parse_length :: "string \<Rightarrow> bool \<times> string" where
  "parse_length cur =
     (let have_z = (cur \<noteq> [] \<and> hd cur = CHR ''z'');
          cur = (if have_z then tl cur else cur);
          have_ll = (\<not> have_z \<and> take 2 cur = ''ll'');
          cur = (if have_ll then drop 2 cur else cur)
      in (have_z \<or> have_ll, cur))"

text \<open>The switch on the conversion character.\<close>

definition convert ::
    "nat \<Rightarrow> char \<Rightarrow> bool \<times> bool \<times> bool \<times> nat \<Rightarrow> int \<Rightarrow> bool \<Rightarrow> varg list \<Rightarrow> pst \<Rightarrow> (varg list \<times> pst) res" where
  "convert cap c = (\<lambda>(left_justified, have_width, pad_with_zero, width) precision have_length args st.
     (if c = CHR ''d'' then
        rbind (va_int have_length args) (\<lambda>(dval, args).
        rbind (AppendSignedDecimal cap st dval (width mod 256) pad_with_zero) (\<lambda>st. Inr (args, st)))
      else if c = CHR ''u'' \<or> c = CHR ''x'' \<or> c = CHR ''X'' then
        rbind (va_unsigned have_length args) (\<lambda>(uval, args).
        rbind (AppendUnsigned cap st uval (if c = CHR ''u'' then 10 else 16) (width mod 256) pad_with_zero
                 (c = CHR ''X'')) (\<lambda>st. Inr (args, st)))
      else if c = CHR ''p'' then
        rbind (check (\<not> (have_width \<or> have_length))) (\<lambda>_.
        rbind (va_unsigned True args) (\<lambda>(uval, args).
        rbind (AppendPointer cap st uval) (\<lambda>st. Inr (args, st))))
      else if c = CHR ''s'' then
        rbind (check (\<not> have_length)) (\<lambda>_.
        rbind (check (\<not> have_width \<or> left_justified)) (\<lambda>_.
        rbind (va_str args) (\<lambda>(s, args).
        rbind (AppendString cap st (if left_justified then - int width else int width) precision s)
          (\<lambda>st. Inr (args, st)))))
      else if c = CHR ''c'' then
        rbind (check (\<not> (have_width \<or> have_length))) (\<lambda>_.
        rbind (va_int False args) (\<lambda>(i, args). Inr (args, AppendChar cap st (char_of (nat (i mod 256))))))
      else if c = CHR ''%'' then
        rbind (check (\<not> (have_width \<or> have_length))) (\<lambda>_. Inr (args, AppendChar cap st (CHR ''%'')))
      else Inl CheckFailed))"

definition directive :: "nat \<Rightarrow> string \<Rightarrow> varg list \<Rightarrow> pst \<Rightarrow> (string \<times> varg list \<times> pst) res" where
  "directive cap cur args st =
     (let (flags, cur) = parse_flags cur;
          have_precision = (take 2 cur = ''.*'')
      in rbind (if have_precision then va_int False args else Inr (-1, args)) (\<lambda>(precision, args).
       (let (have_length, cur) = parse_length (if have_precision then drop 2 cur else cur);
            c = (if cur = [] then CHR 0x00 else hd cur)
        in rbind (check (\<not> ((precision \<ge> 0 \<or> fst flags) \<and> c \<noteq> CHR ''s''))) (\<lambda>_.
           rbind (convert cap c flags precision have_length args st) (\<lambda>(args, st).
             Inr (tl cur, args, st))))))"

lemma take_width_len: "take_width w cs = (v, cs') \<Longrightarrow> length cs' \<le> length cs"
proof (induction w cs rule: take_width.induct)
  case (2 w c cs)
  then show ?case by (cases "is_digit c") auto
qed simp

lemma parse_flags_len: "parse_flags cur = (fl, cur') \<Longrightarrow> length cur' \<le> length cur"
  by (force simp: parse_flags_def Let_def split: if_splits prod.splits dest: take_width_len)

lemma parse_length_len: "parse_length cur = (l, cur') \<Longrightarrow> length cur' \<le> length cur"
  by (auto simp: parse_length_def Let_def split: if_splits)

lemma directive_len:
  assumes "directive cap cur args st = Inr (rest, args', st')"
  shows "length rest \<le> length cur"
proof -
  obtain fl c2 where fl: "parse_flags cur = (fl, c2)" by fastforce
  obtain l c3 where l: "parse_length (if take 2 c2 = ''.*'' then drop 2 c2 else c2) = (l, c3)" by fastforce
  have "rest = tl c3"
    using assms by (auto simp: directive_def Let_def fl l split: if_splits)
  then show ?thesis
    using parse_flags_len [OF fl] parse_length_len [OF l] by (auto split: if_splits)
qed

function VSNPrintf_loop :: "nat \<Rightarrow> string \<Rightarrow> varg list \<Rightarrow> pst \<Rightarrow> pst res" where
  "VSNPrintf_loop cap [] args st = Inr st"
| "VSNPrintf_loop cap (c # cs) args st =
     (if c \<noteq> CHR ''%'' then VSNPrintf_loop cap cs args (AppendChar cap st c)
      else (case directive cap cs args st of
              Inl e \<Rightarrow> Inl e
            | Inr (rest, args, st) \<Rightarrow> VSNPrintf_loop cap rest args st))"
  by pat_completeness auto
termination
  by (relation "measure (\<lambda>(cap, fmt, args, st). length fmt)") (auto dest: directive_len)

text \<open>
  The characters written without the terminating zero, which follows them in the buffer, and the
  length the whole output would have. That length and the field widths are \<^verbatim>\<open>int\<close> in the source and numbers here:
  an output of \<open>2\<^sup>3\<^sup>1\<close> characters is outside the model.
\<close>

definition VSNPrintf :: "int \<Rightarrow> string \<Rightarrow> varg list \<Rightarrow> (string \<times> nat) res" where
  "VSNPrintf buff_length format args =
     rbind (check (buff_length > 0)) (\<lambda>_.
     rbind (VSNPrintf_loop (nat (buff_length - 1)) format args ([], 0)) (\<lambda>(out, result).
     rbind (check (int (length out) \<le> buff_length - 1)) (\<lambda>_. Inr (out, result))))"

definition internal_snprintf :: "nat \<Rightarrow> string \<Rightarrow> varg list \<Rightarrow> (string \<times> nat) res" where
  "internal_snprintf len format args = VSNPrintf (sint (of_nat len :: u32)) format args"

section \<open>The text a format denotes\<close>

text \<open>
  The reference semantics: what each conversion renders, with no buffer in sight. A
  destination of capacity \<open>cap\<close> that has received the text \<open>s\<close> is \<open>trunc cap s\<close>.
\<close>

definition trunc :: "nat \<Rightarrow> string \<Rightarrow> pst" where
  "trunc cap s = (take cap s, length s)"

fun lead_text :: "bool \<Rightarrow> nat list \<Rightarrow> string" where
  "lead_text pad [] = []"
| "lead_text pad (d # ds) =
     (if d = 0 then (if pad \<or> ds = [] then CHR ''0'' else CHR '' '') # lead_text pad ds else [])"

definition number_text :: "nat \<Rightarrow> nat \<Rightarrow> nat \<Rightarrow> bool \<Rightarrow> bool \<Rightarrow> bool \<Rightarrow> string" where
  "number_text v base minlen pad negative uppercase =
     (let ds = replicate (minlen - (if negative then 1 else 0) - length (num_digits base v)) 0
                 @ rev (num_digits base v)
      in (if negative \<and> pad then ''-'' else []) @ lead_text pad ds @
         (if negative \<and> \<not> pad then ''-'' else []) @ map (digit_char uppercase) (dropWhile ((=) 0) ds))"

definition string_text :: "int \<Rightarrow> int \<Rightarrow> string option \<Rightarrow> string" where
  "string_text width max_chars s =
     (let s = (case s of None \<Rightarrow> ''<null>'' | Some s \<Rightarrow> s);
          body = (if max_chars \<ge> 0 then take (nat max_chars) s else s)
      in body @ replicate (nat (- width) - length body) (CHR '' ''))"

lemma AppendChar_trunc [simp]: "AppendChar cap (trunc cap s) c = trunc cap (s @ [c])"
  by (auto simp: AppendChar_def trunc_def)

lemma AppendChars_trunc [simp]: "AppendChars cap (trunc cap s) cs = trunc cap (s @ cs)"
  by (induction cs arbitrary: s) (simp_all add: AppendChars_def)

lemma emit_leading_trunc:
  "emit_leading cap pad (trunc cap s) ds = (trunc cap (s @ lead_text pad ds), dropWhile ((=) 0) ds)"
  by (induction ds arbitrary: s) auto

lemma num_digits_len: "v < b ^ Suc n \<Longrightarrow> 1 < b \<Longrightarrow> length (num_digits b v) \<le> Suc n"
proof (induction n arbitrary: v)
  case 0
  then show ?case by (simp add: num_digits.simps [of b v])
next
  case (Suc n)
  have "v div b < b ^ Suc n"
    using Suc.prems by (simp add: less_mult_imp_div_less mult.commute)
  then show ?case
    using Suc.IH [of "v div b"] Suc.prems by (simp add: num_digits.simps [of b v])
qed

lemma num_digits_64: "10 \<le> b \<Longrightarrow> length (num_digits b (unat (w :: u64))) \<le> 20"
proof -
  assume b: "10 \<le> b"
  have "unat w < 2 ^ LENGTH(64)" by (rule unsigned_less)
  then have "unat w < 2 ^ 64" by simp
  also have "(2::nat) ^ 64 \<le> 10 ^ 20" by simp
  also have "(10::nat) ^ 20 \<le> b ^ 20" using b by (rule power_mono) simp
  finally show ?thesis using num_digits_len [of "unat w" b 19] b by (simp add: numeral_eq_Suc)
qed

lemma num_digits_64s [simp]:
  "length (num_digits 10 (unat (w :: u64))) \<le> 30" "length (num_digits 16 (unat (w :: u64))) \<le> 30"
  using num_digits_64 [of 10 w] num_digits_64 [of 16 w] by simp_all

lemma AppendNumber_text:
  assumes "base = 10 \<or> base = 16" "base = 10 \<or> \<not> neg" "w \<noteq> 0 \<or> \<not> neg" "minlen < 30"
  shows "AppendNumber cap (trunc cap s) w base minlen pad neg up =
         Inr (trunc cap (s @ number_text (unat w) base minlen pad neg up))"
proof -
  have "length (num_digits base (unat w)) \<le> 30" using assms(1) by auto
  then show ?thesis
    using assms
    by (cases neg; cases pad) (simp_all add: AppendNumber_def number_text_def Let_def emit_leading_trunc check_def)
qed

lemma AppendString_text: "AppendString cap (trunc cap s) w m x = Inr (trunc cap (s @ string_text w m x))"
  by (simp add: AppendString_def string_text_def Let_def)

text \<open>A conversion renders a text or fails a check; it never depends on the destination.\<close>

definition number_res :: "u64 \<Rightarrow> nat \<Rightarrow> nat \<Rightarrow> bool \<Rightarrow> bool \<Rightarrow> bool \<Rightarrow> string res" where
  "number_res w base minlen pad neg up =
     rbind (check (minlen < 30)) (\<lambda>_. Inr (number_text (unat w) base minlen pad neg up))"

definition signed_res :: "int \<Rightarrow> nat \<Rightarrow> bool \<Rightarrow> string res" where
  "signed_res i minlen pad = number_res (word_of_int \<bar>i\<bar>) 10 minlen pad (i < 0) False"

definition convert_text ::
    "char \<Rightarrow> bool \<times> bool \<times> bool \<times> nat \<Rightarrow> int \<Rightarrow> bool \<Rightarrow> varg list \<Rightarrow> (varg list \<times> string) res" where
  "convert_text c = (\<lambda>(left, have_width, pad, width) precision have_length args.
     (if c = CHR ''d'' then
        rbind (va_int have_length args) (\<lambda>(v, args).
        rbind (signed_res v (width mod 256) pad) (\<lambda>s. Inr (args, s)))
      else if c = CHR ''u'' \<or> c = CHR ''x'' \<or> c = CHR ''X'' then
        rbind (va_unsigned have_length args) (\<lambda>(v, args).
        rbind (number_res v (if c = CHR ''u'' then 10 else 16) (width mod 256) pad False (c = CHR ''X''))
          (\<lambda>s. Inr (args, s)))
      else if c = CHR ''p'' then
        rbind (check (\<not> (have_width \<or> have_length))) (\<lambda>_.
        rbind (va_unsigned True args) (\<lambda>(v, args). Inr (args, ''0x'' @ number_text (unat v) 16 12 True False False)))
      else if c = CHR ''s'' then
        rbind (check (\<not> have_length)) (\<lambda>_. rbind (check (\<not> have_width \<or> left)) (\<lambda>_.
        rbind (va_str args) (\<lambda>(s, args).
          Inr (args, string_text (if left then - int width else int width) precision s))))
      else if c = CHR ''c'' then
        rbind (check (\<not> (have_width \<or> have_length))) (\<lambda>_.
        rbind (va_int False args) (\<lambda>(i, args). Inr (args, [char_of (nat (i mod 256))])))
      else if c = CHR ''%'' then
        rbind (check (\<not> (have_width \<or> have_length))) (\<lambda>_. Inr (args, ''%''))
      else Inl CheckFailed))"

definition directive_text :: "string \<Rightarrow> varg list \<Rightarrow> (string \<times> varg list \<times> string) res" where
  "directive_text cur args =
     (let (flags, cur) = parse_flags cur;
          have_precision = (take 2 cur = ''.*'')
      in rbind (if have_precision then va_int False args else Inr (-1, args)) (\<lambda>(precision, args).
       (let (have_length, cur) = parse_length (if have_precision then drop 2 cur else cur);
            c = (if cur = [] then CHR 0x00 else hd cur)
        in rbind (check (\<not> ((precision \<ge> 0 \<or> fst flags) \<and> c \<noteq> CHR ''s''))) (\<lambda>_.
           rbind (convert_text c flags precision have_length args) (\<lambda>(args, s). Inr (tl cur, args, s))))))"

lemma AppendUnsigned_text:
  "b = 10 \<or> b = 16 \<Longrightarrow>
   AppendUnsigned cap (trunc cap s) w b m pad up =
   rbind (number_res w b m pad False up) (\<lambda>t. Inr (trunc cap (s @ t)))"
  by (cases "m < 30")
     (auto simp: AppendUnsigned_def number_res_def AppendNumber_text, auto simp: AppendNumber_def)

lemma AppendSignedDecimal_text:
  assumes "i \<in> {- (2 ^ 63)..<2 ^ 63}"
  shows "AppendSignedDecimal cap (trunc cap s) i m pad = rbind (signed_res i m pad) (\<lambda>t. Inr (trunc cap (s @ t)))"
proof -
  have nz: "(word_of_int (- i) :: u64) \<noteq> 0" if "i < 0"
  proof
    assume "(word_of_int (- i) :: u64) = 0"
    then have "2 ^ 64 dvd - i" by (simp add: word_of_int_eq_0_iff)
    then show False using that assms zdvd_imp_le [of "2 ^ 64" "- i"] by simp
  qed
  show ?thesis
  proof (cases "m < 30")
    case True
    with nz show ?thesis
      by (auto simp: AppendSignedDecimal_def signed_res_def number_res_def AppendNumber_text abs_if)
  next
    case False
    with nz show ?thesis
      by (auto simp: AppendSignedDecimal_def signed_res_def number_res_def AppendNumber_def Let_def)
  qed
qed

lemma AppendPointer_text:
  "AppendPointer cap (trunc cap s) w = Inr (trunc cap (s @ ''0x'' @ number_text (unat w) 16 12 True False False))"
  by (simp add: AppendPointer_def AppendString_text AppendUnsigned_text number_res_def string_text_def)

lemma sint_bounds_64: "sint (w :: u64) \<in> {- (2 ^ 63)..<2 ^ 63}"
  using sint_greater_eq [of w] sint_lt [of w] by simp

lemma sint_bounds_32: "sint (w :: u32) \<in> {- (2 ^ 63)..<2 ^ 63}"
  using sint_greater_eq [of w] sint_lt [of w] by simp

lemma va_int_bounds: "va_int wide args = Inr (i, args') \<Longrightarrow> i \<in> {- (2 ^ 63)..<2 ^ 63}"
  using sint_bounds_64 sint_bounds_32 unfolding va_int_def
  by (auto split: list.splits varg.splits if_splits simp del: atLeastLessThan_iff)

lemma convert_text:
  "convert cap c fl precision hl args (trunc cap s) =
   rbind (convert_text c fl precision hl args) (\<lambda>(args, t). Inr (args, trunc cap (s @ t)))"
proof (cases fl)
  case (fields left hw pad width)
  show ?thesis
  proof (cases "c = CHR ''d''")
    case True
    show ?thesis
    proof (cases "va_int hl args")
      case (Inr p)
      obtain i args' where p: "p = (i, args')" by fastforce
      show ?thesis
        using va_int_bounds [of hl args i args'] Inr True p fields
        by (simp add: convert_def convert_text_def AppendSignedDecimal_text rbind_assoc del: atLeastLessThan_iff)
    qed (simp add: convert_def convert_text_def True fields)
  next
    case False
    then show ?thesis
      by (cases "va_unsigned hl args"; cases "va_unsigned True args"; cases "va_int False args"; cases "va_str args")
         (simp_all add: fields convert_def convert_text_def AppendUnsigned_text AppendPointer_text
            AppendString_text rbind_assoc split: prod.split)
  qed
qed

lemma directive_text:
  "directive cap cur args (trunc cap s) =
   rbind (directive_text cur args) (\<lambda>(rest, args, t). Inr (rest, args, trunc cap (s @ t)))"
  by (cases "va_int False args")
     (simp_all add: directive_def directive_text_def Let_def convert_text rbind_assoc case_prod_beta)

lemma directive_text_len:
  "directive_text cur args = Inr (rest, args', t) \<Longrightarrow> length rest \<le> length cur"
  using directive_text [of 0 cur args "[]"] directive_len [of 0 cur args "trunc 0 []" rest args'] by simp

function render :: "string \<Rightarrow> varg list \<Rightarrow> string res" where
  "render [] args = Inr []"
| "render (c # cs) args =
     (if c \<noteq> CHR ''%'' then rbind (render cs args) (\<lambda>t. Inr (c # t))
      else (case directive_text cs args of
              Inl e \<Rightarrow> Inl e
            | Inr (rest, args, s) \<Rightarrow> rbind (render rest args) (\<lambda>t. Inr (s @ t))))"
  by pat_completeness auto
termination
  by (relation "measure (\<lambda>(fmt, args). length fmt)") (auto dest: directive_text_len)

lemma VSNPrintf_loop_render:
  "VSNPrintf_loop cap fmt args (trunc cap s) = rbind (render fmt args) (\<lambda>t. Inr (trunc cap (s @ t)))"
proof (induction fmt args arbitrary: s rule: render.induct)
  case (2 c cs args)
  show ?case
  proof (cases "c = CHR ''%''")
    case False
    then show ?thesis using 2(1) [OF False] by (simp add: rbind_assoc)
  next
    case True
    show ?thesis
    proof (cases "directive_text cs args")
      case (Inr r)
      then show ?thesis
        using 2(2) True by (cases r) (simp add: directive_text rbind_assoc)
    qed (simp add: True directive_text)
  qed
qed simp

lemma sint_of_nat_u32: "n < 2 ^ 31 \<Longrightarrow> sint (of_nat n :: u32) = int n"
  by (simp add: signed_of_nat signed_take_bit_int_eq_self)

lemma VSNPrintf_render:
  assumes "0 < n"
  shows "VSNPrintf (int n) fmt args = rbind (render fmt args) (\<lambda>s. Inr (take (n - 1) s, length s))"
proof -
  have "nat (int n - 1) = n - 1" using assms by linarith
  moreover have "([], 0) = trunc (n - 1) []" by (simp add: trunc_def)
  ultimately show ?thesis
    using assms VSNPrintf_loop_render [of "n - 1" fmt args "[]"]
    by (cases "render fmt args") (auto simp: VSNPrintf_def trunc_def)
qed

lemma snprintf_render:
  "0 < n \<Longrightarrow> n < 2 ^ 31 \<Longrightarrow>
   internal_snprintf n fmt args = rbind (render fmt args) (\<lambda>s. Inr (take (n - 1) s, length s))"
  by (simp add: internal_snprintf_def sint_of_nat_u32 VSNPrintf_render)

section \<open>Properties\<close>

text \<open>
  C30. \<^verbatim>\<open>internal_snprintf\<close> meets its contract for every format and argument list: it faults exactly
  when the reference rendering does (an unsupported directive fails a \<^verbatim>\<open>CHECK\<close>), otherwise it stores
  the longest prefix of the full text that leaves room for the terminator and returns the
  length of the full text. It never writes outside the buffer.
\<close>

theorem snprintf_contract:
  assumes "0 < n" "n < 2 ^ 31"
  shows "internal_snprintf n fmt args = rbind (render fmt args) (\<lambda>s. Inr (take (n - 1) s, length s))"
  using assms by (rule snprintf_render)

theorem snprintf_contract_witness:
  "internal_snprintf 6 ''%d:%s'' [VInt 42, VStr (Some ''abc'')] = Inr (''42:ab'', 6)"
proof -
  have "render ''%d:%s'' [VInt 42, VStr (Some ''abc'')] = Inr ''42:abc''" by code_simp
  then show ?thesis using snprintf_contract [of 6 "''%d:%s''" "[VInt 42, VStr (Some ''abc'')]"] by simp
qed

end
