(* ===== verification/San_Libc.thy ===== *)
theory San_Libc
  imports San_Printf
begin

text \<open>
  The string and memory functions of the sanitizer runtime (\<^verbatim>\<open>sanitizer_libc.cc\<close>).
  A pointer that is only read is the list of characters from it to the end of the object it
  points into, so reading past the object is reading past the end of the list; the fault is
  then \<open>ObjectOverread\<close>. A destination is its whole object, written at an index; a write
  outside it is \<open>HeapOverflow\<close>. A pointer returned into the argument is the offset from it.
\<close>

abbreviation NUL :: char where "NUL \<equiv> CHR 0x00"

definition cstr :: "string \<Rightarrow> string" where
  "cstr s = takeWhile (\<lambda>c. c \<noteq> NUL) s"

definition terminated :: "string \<Rightarrow> bool" where
  "terminated s \<longleftrightarrow> NUL \<in> set s"

definition rd :: "string \<Rightarrow> nat \<Rightarrow> char res" where
  "rd s i = (if i < length s then Inr (s ! i) else Inl ObjectOverread)"

definition wr :: "string \<Rightarrow> nat \<Rightarrow> char \<Rightarrow> string res" where
  "wr d i c = (if i < length d then Inr (d[i := c]) else Inl HeapOverflow)"

section \<open>Memory functions\<close>

fun internal_memchr :: "string \<Rightarrow> char \<Rightarrow> nat \<Rightarrow> nat option res" where
  "internal_memchr t c 0 = Inr None"
| "internal_memchr [] c (Suc n) = Inl ObjectOverread"
| "internal_memchr (x # t) c (Suc n) =
     (if x = c then Inr (Some 0)
      else rbind (internal_memchr t c n) (\<lambda>r. Inr (map_option Suc r)))"

fun memrchr_loop :: "string \<Rightarrow> char \<Rightarrow> nat \<Rightarrow> nat \<Rightarrow> nat option \<Rightarrow> nat option res" where
  "memrchr_loop t c i 0 res = Inr res"
| "memrchr_loop [] c i (Suc n) res = Inl ObjectOverread"
| "memrchr_loop (x # t) c i (Suc n) res = memrchr_loop t c (Suc i) n (if x = c then Some i else res)"

definition internal_memrchr :: "string \<Rightarrow> char \<Rightarrow> nat \<Rightarrow> nat option res" where
  "internal_memrchr t c n = memrchr_loop t c 0 n None"

text \<open>Plain \<^verbatim>\<open>char\<close> is signed on the target.\<close>

definition schar :: "char \<Rightarrow> int" where
  "schar c = sint (word_of_int (of_char c) :: byte)"

fun internal_memcmp :: "string \<Rightarrow> string \<Rightarrow> nat \<Rightarrow> int res" where
  "internal_memcmp s1 s2 0 = Inr 0"
| "internal_memcmp (a # s1) (b # s2) (Suc n) =
     (if a \<noteq> b then Inr (if schar a < schar b then -1 else 1) else internal_memcmp s1 s2 n)"
| "internal_memcmp _ _ (Suc n) = Inl ObjectOverread"

fun memcpy_loop :: "string \<Rightarrow> nat \<Rightarrow> string \<Rightarrow> nat \<Rightarrow> nat \<Rightarrow> string res" where
  "memcpy_loop d i s j 0 = Inr d"
| "memcpy_loop d i s j (Suc n) =
     rbind (rd s j) (\<lambda>c. rbind (wr d i c) (\<lambda>d. memcpy_loop d (Suc i) s (Suc j) n))"

definition internal_memcpy :: "string \<Rightarrow> nat \<Rightarrow> string \<Rightarrow> nat \<Rightarrow> string res" where
  "internal_memcpy d at s n = memcpy_loop d at s 0 n"

text \<open>\<^verbatim>\<open>memmove\<close> within one object \<open>m\<close>: both pointers are indices into it.\<close>

fun move_up :: "string \<Rightarrow> nat \<Rightarrow> nat \<Rightarrow> nat \<Rightarrow> nat \<Rightarrow> string res" where
  "move_up m d s i 0 = Inr m"
| "move_up m d s i (Suc n) =
     rbind (rd m (s + i)) (\<lambda>c. rbind (wr m (d + i) c) (\<lambda>m. move_up m d s (Suc i) n))"

fun move_down :: "string \<Rightarrow> nat \<Rightarrow> nat \<Rightarrow> nat \<Rightarrow> string res" where
  "move_down m d s 0 = Inr m"
| "move_down m d s (Suc i) =
     rbind (rd m (s + i)) (\<lambda>c. rbind (wr m (d + i) c) (\<lambda>m. move_down m d s i))"

definition internal_memmove :: "string \<Rightarrow> nat \<Rightarrow> nat \<Rightarrow> nat \<Rightarrow> string res" where
  "internal_memmove m d s n =
     rbind (check (n < 2 ^ 63)) (\<lambda>_.
       if d < s then move_up m d s 0 n
       else if d > s \<and> n > 0 then move_down m d s n
       else Inr m)"

fun internal_memset :: "string \<Rightarrow> nat \<Rightarrow> char \<Rightarrow> nat \<Rightarrow> string res" where
  "internal_memset t i c 0 = Inr t"
| "internal_memset t i c (Suc n) = rbind (wr t i c) (\<lambda>t. internal_memset t (Suc i) c n)"

section \<open>String functions\<close>

fun internal_strlen :: "string \<Rightarrow> nat res" where
  "internal_strlen [] = Inl ObjectOverread"
| "internal_strlen (c # s) = (if c = NUL then Inr 0 else rbind (internal_strlen s) (\<lambda>n. Inr (Suc n)))"

fun internal_strnlen :: "string \<Rightarrow> nat \<Rightarrow> nat res" where
  "internal_strnlen s 0 = Inr 0"
| "internal_strnlen [] (Suc n) = Inl ObjectOverread"
| "internal_strnlen (c # s) (Suc n) =
     (if c = NUL then Inr 0 else rbind (internal_strnlen s n) (\<lambda>k. Inr (Suc k)))"

fun internal_strchr :: "string \<Rightarrow> char \<Rightarrow> nat option res" where
  "internal_strchr [] c = Inl ObjectOverread"
| "internal_strchr (x # s) c =
     (if x = c then Inr (Some 0) else if x = NUL then Inr None
      else rbind (internal_strchr s c) (\<lambda>r. Inr (map_option Suc r)))"

definition internal_strchrnul :: "string \<Rightarrow> char \<Rightarrow> nat res" where
  "internal_strchrnul s c =
     rbind (internal_strchr s c) (\<lambda>r. case r of Some i \<Rightarrow> Inr i | None \<Rightarrow> internal_strlen s)"

fun strrchr_loop :: "string \<Rightarrow> char \<Rightarrow> nat \<Rightarrow> nat option \<Rightarrow> nat option res" where
  "strrchr_loop [] c i res = Inl ObjectOverread"
| "strrchr_loop (x # s) c i res =
     (if x = NUL then Inr res else strrchr_loop s c (Suc i) (if x = c then Some i else res))"

definition internal_strrchr :: "string \<Rightarrow> char \<Rightarrow> nat option res" where
  "internal_strrchr s c = strrchr_loop s c 0 None"

fun internal_strcspn :: "string \<Rightarrow> string \<Rightarrow> nat res" where
  "internal_strcspn [] reject = Inl ObjectOverread"
| "internal_strcspn (x # s) reject =
     (if x = NUL then Inr 0
      else rbind (internal_strchr reject x) (\<lambda>r.
        if r \<noteq> None then Inr 0 else rbind (internal_strcspn s reject) (\<lambda>n. Inr (Suc n))))"

fun internal_strcmp :: "string \<Rightarrow> string \<Rightarrow> int res" where
  "internal_strcmp (a # s1) (b # s2) =
     (if a \<noteq> b then Inr (if (of_char a :: nat) < of_char b then -1 else 1)
      else if a = NUL then Inr 0 else internal_strcmp s1 s2)"
| "internal_strcmp _ _ = Inl ObjectOverread"

fun internal_strncmp :: "string \<Rightarrow> string \<Rightarrow> nat \<Rightarrow> int res" where
  "internal_strncmp s1 s2 0 = Inr 0"
| "internal_strncmp (a # s1) (b # s2) (Suc n) =
     (if a \<noteq> b then Inr (if (of_char a :: nat) < of_char b then -1 else 1)
      else if a = NUL then Inr 0 else internal_strncmp s1 s2 n)"
| "internal_strncmp _ _ (Suc n) = Inl ObjectOverread"

definition internal_strdup :: "string \<Rightarrow> string \<Rightarrow> string res" where
  "internal_strdup junk s =
     rbind (internal_strlen s) (\<lambda>len.
     rbind (internal_memcpy (take (len + 1) junk) 0 s len) (\<lambda>s2. wr s2 len NUL))"

fun copy_while :: "string \<Rightarrow> nat \<Rightarrow> string \<Rightarrow> nat \<Rightarrow> (string \<times> nat) res" where
  "copy_while d i src 0 = Inr (d, i)"
| "copy_while d i [] (Suc n) = Inl ObjectOverread"
| "copy_while d i (c # src) (Suc n) =
     (if c = NUL then Inr (d, i) else rbind (wr d i c) (\<lambda>d. copy_while d (Suc i) src n))"

definition internal_strncat :: "string \<Rightarrow> string \<Rightarrow> nat \<Rightarrow> string res" where
  "internal_strncat dst src n =
     rbind (internal_strlen dst) (\<lambda>len.
     rbind (copy_while dst len src n) (\<lambda>(dst, i). wr dst i NUL))"

definition internal_strncpy :: "string \<Rightarrow> string \<Rightarrow> nat \<Rightarrow> string res" where
  "internal_strncpy dst src n =
     rbind (copy_while dst 0 src n) (\<lambda>(dst, i). internal_memset dst i NUL (n - i))"

text \<open>
  \<^verbatim>\<open>internal_strlcpy\<close> and \<^verbatim>\<open>internal_strlcat\<close> call \<^verbatim>\<open>internal_memmove\<close>. Here destination and source are two objects, so
  neither direction of its loop overwrites what it still has to read, and the upward loop stands for
  both.
\<close>

definition internal_strlcpy :: "string \<Rightarrow> string \<Rightarrow> nat \<Rightarrow> (string \<times> nat) res" where
  "internal_strlcpy dst src maxlen =
     rbind (internal_strlen src) (\<lambda>srclen.
     rbind (if srclen < maxlen then internal_memcpy dst 0 src (srclen + 1)
            else if maxlen \<noteq> 0 then
              rbind (internal_memcpy dst 0 src (maxlen - 1)) (\<lambda>dst. wr dst (maxlen - 1) NUL)
            else Inr dst)
       (\<lambda>dst. Inr (dst, srclen)))"

definition internal_strlcat :: "string \<Rightarrow> string \<Rightarrow> nat \<Rightarrow> (string \<times> nat) res" where
  "internal_strlcat dst src maxlen =
     rbind (internal_strlen src) (\<lambda>srclen.
     rbind (internal_strnlen dst maxlen) (\<lambda>dstlen.
       if dstlen = maxlen then Inr (dst, maxlen + srclen)
       else
         rbind (if srclen < maxlen - dstlen then internal_memcpy dst dstlen src (srclen + 1)
                else rbind (internal_memcpy dst dstlen src (maxlen - dstlen - 1))
                       (\<lambda>dst. wr dst (maxlen - 1) NUL))
           (\<lambda>dst. Inr (dst, dstlen + srclen))))"

fun strstr_loop :: "string \<Rightarrow> string \<Rightarrow> nat \<Rightarrow> nat \<Rightarrow> nat \<Rightarrow> nat option res" where
  "strstr_loop hay needle len2 pos 0 = Inr None"
| "strstr_loop hay needle len2 pos (Suc k) =
     rbind (internal_memcmp (drop pos hay) needle len2) (\<lambda>r.
       if r = 0 then Inr (Some pos) else strstr_loop hay needle len2 (Suc pos) k)"

definition internal_strstr :: "string \<Rightarrow> string \<Rightarrow> nat option res" where
  "internal_strstr haystack needle =
     rbind (internal_strlen haystack) (\<lambda>len1.
     rbind (internal_strlen needle) (\<lambda>len2.
       if len1 < len2 then Inr None
       else strstr_loop haystack needle len2 0 (len1 - len2 + 1)))"

section \<open>Numbers\<close>

definition IsSpace :: "char \<Rightarrow> bool" where
  "IsSpace c \<longleftrightarrow> c \<in> {CHR '' '', CHR 0x0A, CHR 0x09, CHR 0x0C, CHR 0x0D, CHR 0x0B}"

definition IsDigit :: "char \<Rightarrow> bool" where
  "IsDigit c \<longleftrightarrow> 48 \<le> (of_char c :: nat) \<and> (of_char c :: nat) \<le> 57"

definition UINT64_MAX :: nat where "UINT64_MAX = 2 ^ 64 - 1"
definition INT64_MAX :: nat where "INT64_MAX = 2 ^ 63 - 1"

fun skip_space :: "string \<Rightarrow> string res" where
  "skip_space [] = Inl ObjectOverread"
| "skip_space (c # s) = (if IsSpace c then skip_space s else Inr (c # s))"

fun strtoll_digits :: "nat \<Rightarrow> bool \<Rightarrow> string \<Rightarrow> (nat \<times> bool \<times> string) res" where
  "strtoll_digits res have_digits [] = Inl ObjectOverread"
| "strtoll_digits res have_digits (c # s) =
     (if IsDigit c then
        (let res = (if res \<le> UINT64_MAX div 10 then res * 10 else UINT64_MAX);
             digit = of_char c - 48;
             res = (if res \<le> UINT64_MAX - digit then res + digit else UINT64_MAX)
         in strtoll_digits res True s)
      else Inr (res, have_digits, c # s))"

text \<open>The value and what \<^verbatim>\<open>endptr\<close> is set to.\<close>

definition internal_simple_strtoll :: "string \<Rightarrow> int \<Rightarrow> (int \<times> string) res" where
  "internal_simple_strtoll nptr base =
     rbind (check (base = 10)) (\<lambda>_.
     rbind (skip_space nptr) (\<lambda>old_nptr.
       (let sgn = (if hd old_nptr = CHR ''-'' then - 1 else 1 :: int);
            nptr = (if hd old_nptr = CHR ''+'' \<or> hd old_nptr = CHR ''-'' then tl old_nptr else old_nptr)
        in rbind (strtoll_digits 0 False nptr) (\<lambda>(res, have_digits, nptr).
          Inr (if sgn > 0 then int (min INT64_MAX res)
               else if res > INT64_MAX then - (2 ^ 63) else - int res,
               if have_digits then nptr else old_nptr)))))"

definition internal_atoll :: "string \<Rightarrow> int res" where
  "internal_atoll nptr = rbind (internal_simple_strtoll nptr 10) (\<lambda>(v, _). Inr v)"

section \<open>Zero test\<close>

text \<open>
  \<^verbatim>\<open>mem_is_zero\<close> on the address range \<open>[beg, beg + n)\<close> of a byte memory: bytes up to the
  first aligned word, whole words, then the remaining bytes.
\<close>

definition IsPowerOfTwo :: "u64 \<Rightarrow> bool" where
  "IsPowerOfTwo x \<longleftrightarrow> x AND (x - 1) = 0"

definition RoundUpTo :: "u64 \<Rightarrow> u64 \<Rightarrow> u64 res" where
  "RoundUpTo n boundary =
     rbind (check (IsPowerOfTwo boundary)) (\<lambda>_. Inr ((n + boundary - 1) AND NOT (boundary - 1)))"

definition RoundDownTo :: "u64 \<Rightarrow> u64 \<Rightarrow> u64" where
  "RoundDownTo x boundary = x AND NOT (boundary - 1)"

definition or_bytes :: "(nat \<Rightarrow> byte) \<Rightarrow> nat \<Rightarrow> nat \<Rightarrow> u64 \<Rightarrow> u64" where
  "or_bytes m a b acc = fold (\<lambda>i all. all OR scast (m i)) [a..<b] acc"

definition or_words :: "(nat \<Rightarrow> byte) \<Rightarrow> nat \<Rightarrow> nat \<Rightarrow> u64 \<Rightarrow> u64" where
  "or_words m a b acc =
     fold (\<lambda>k all. all OR le_word (map (\<lambda>j. m (a + 8 * k + j)) [0..<8])) [0..<(b - a) div 8] acc"

definition mem_is_zero :: "(nat \<Rightarrow> byte) \<Rightarrow> u64 \<Rightarrow> u64 \<Rightarrow> bool res" where
  "mem_is_zero m beg n =
     rbind (check (n \<le> 2 ^ 40)) (\<lambda>_.
     rbind (RoundUpTo beg 8) (\<lambda>aligned_beg.
       (let e = beg + n;
            aligned_end = RoundDownTo e 8;
            all = or_bytes m (unat beg) (unat (min aligned_beg e)) 0;
            all = or_words m (unat aligned_beg) (unat aligned_end) all;
            all = (if aligned_end \<ge> beg then or_bytes m (unat aligned_end) (unat e) all else all)
        in Inr (all = 0))))"

section \<open>What the string functions compute\<close>

lemma cstr_simps [simp]: "cstr [] = []" "cstr (c # s) = (if c = NUL then [] else c # cstr s)"
  by (simp_all add: cstr_def)

lemma terminated_simps [simp]: "\<not> terminated []" "terminated (c # s) \<longleftrightarrow> c = NUL \<or> terminated s"
  by (auto simp: terminated_def)

lemma cstr_append [simp]: "NUL \<notin> set s \<Longrightarrow> cstr (s @ r) = s @ cstr r"
  by (induction s) auto

lemma terminated_append [simp]: "terminated (s @ r) \<longleftrightarrow> terminated s \<or> terminated r"
  by (auto simp: terminated_def)

lemma NUL_cstr [simp]: "NUL \<notin> set (cstr s)"
  by (auto simp: cstr_def dest: set_takeWhileD)

lemma terminated_split: "terminated s \<Longrightarrow> s = cstr s @ NUL # drop (Suc (length (cstr s))) s"
  by (induction s) auto

lemma length_cstr_less: "terminated s \<Longrightarrow> length (cstr s) < length s"
  by (induction s) auto

lemma length_cstr_le: "length (cstr s) \<le> length s"
  by (simp add: cstr_def length_takeWhile_le)

lemma strlen_eq: "internal_strlen s = (if terminated s then Inr (length (cstr s)) else Inl ObjectOverread)"
  by (induction s) auto

lemma strnlen_eq:
  "internal_strnlen s n =
     (if terminated s \<or> n \<le> length s then Inr (min n (length (cstr s))) else Inl ObjectOverread)"
  by (induction s n rule: internal_strnlen.induct) auto

lemma strcmp_0: "terminated a \<Longrightarrow> terminated b \<Longrightarrow> internal_strcmp a b = Inr 0 \<longleftrightarrow> cstr a = cstr b"
  by (induction a b rule: internal_strcmp.induct) auto

lemma strcmp_total: "terminated a \<Longrightarrow> terminated b \<Longrightarrow> \<exists>r\<in>{-1, 0, 1}. internal_strcmp a b = Inr r"
  by (induction a b rule: internal_strcmp.induct) auto

lemma strncmp_0:
  "terminated a \<Longrightarrow> terminated b \<Longrightarrow> internal_strncmp a b n = Inr 0 \<longleftrightarrow> take n (cstr a) = take n (cstr b)"
  by (induction a b n rule: internal_strncmp.induct) auto

lemma memcmp_0:
  "n \<le> length a \<Longrightarrow> n \<le> length b \<Longrightarrow> internal_memcmp a b n = Inr 0 \<longleftrightarrow> take n a = take n b"
  by (induction a b n rule: internal_memcmp.induct) auto

lemma memcmp_total:
  "n \<le> length a \<Longrightarrow> n \<le> length b \<Longrightarrow> \<exists>r. internal_memcmp a b n = Inr r"
  by (induction a b n rule: internal_memcmp.induct) auto

text \<open>The copying functions write one segment of the destination.\<close>

definition overlay :: "'a list \<Rightarrow> nat \<Rightarrow> 'a list \<Rightarrow> 'a list" where
  "overlay d i s = take i d @ s @ drop (i + length s) d"

lemma length_overlay [simp]: "i + length s \<le> length d \<Longrightarrow> length (overlay d i s) = length d"
  by (simp add: overlay_def)

lemma overlay_Nil [simp]: "overlay d i [] = d"
  by (simp add: overlay_def)

lemma overlay_Cons: "i < length d \<Longrightarrow> overlay (d[i := c]) (Suc i) s = overlay d i (c # s)"
  by (simp add: overlay_def take_Suc_conv_app_nth)

lemma overlay_overlay: "i + length s \<le> length d \<Longrightarrow> overlay (overlay d i s) (i + length s) t = overlay d i (s @ t)"
  by (simp add: overlay_def ac_simps)

lemma memcpy_loop_eq:
  "i + n \<le> length d \<Longrightarrow> j + n \<le> length s \<Longrightarrow> memcpy_loop d i s j n = Inr (overlay d i (take n (drop j s)))"
proof (induction n arbitrary: d i j)
  case (Suc n)
  then have "take (Suc n) (drop j s) = s ! j # take n (drop (Suc j) s)"
    by (simp add: take_Suc_conv_app_nth Cons_nth_drop_Suc [symmetric])
  with Suc show ?case by (simp add: rd_def wr_def overlay_Cons)
qed simp

lemma memset_eq: "i + n \<le> length d \<Longrightarrow> internal_memset d i c n = Inr (overlay d i (replicate n c))"
  by (induction d i c n rule: internal_memset.induct) (auto simp: wr_def overlay_Cons)

lemma copy_while_eq:
  assumes "i + n \<le> length d" "terminated s \<or> n \<le> length s"
  shows "copy_while d i s n = Inr (overlay d i (take n (cstr s)), i + length (take n (cstr s)))"
  using assms by (induction d i s n rule: copy_while.induct) (auto simp: wr_def overlay_Cons)

lemma strncpy_eq:
  assumes "n \<le> length d" "terminated s \<or> n \<le> length s"
  shows "internal_strncpy d s n =
         Inr (take n (cstr s) @ replicate (n - length (cstr s)) NUL @ drop n d)"
proof -
  let ?s = "take n (cstr s)"
  have "internal_strncpy d s n = internal_memset (overlay d 0 ?s) (length ?s) NUL (n - length ?s)"
    using assms copy_while_eq [of 0 n d s] by (simp add: internal_strncpy_def)
  also have "\<dots> = Inr (overlay d 0 (?s @ replicate (n - length ?s) NUL))"
    using assms memset_eq [of "length ?s" "n - length ?s" "overlay d 0 ?s" NUL] overlay_overlay [of 0 ?s d]
    by simp
  finally show ?thesis
    by (cases "n \<le> length (cstr s)") (simp_all add: overlay_def)
qed

lemma strncat_eq:
  assumes "terminated d" "terminated s \<or> n \<le> length s"
    and "length (cstr d) + min n (length (cstr s)) < length d"
    and "length (cstr d) + n \<le> length d"
  shows "internal_strncat d s n =
         Inr (cstr d @ take n (cstr s) @ NUL # drop (Suc (length (cstr d) + min n (length (cstr s)))) d)"
proof -
  let ?l = "length (cstr d)" and ?s = "take n (cstr s)"
  have d: "take ?l d = cstr d"
    using terminated_split [OF assms(1)] by (metis append_eq_conv_conj)
  have "internal_strncat d s n = wr (overlay d ?l ?s) (?l + length ?s) NUL"
    using assms copy_while_eq [of ?l n d s] by (simp add: internal_strncat_def strlen_eq)
  also have "\<dots> = Inr (overlay d ?l (?s @ [NUL]))"
    using assms overlay_overlay [of ?l ?s d "[NUL]"] overlay_Cons [of "?l + length ?s" "overlay d ?l ?s" NUL "[]"]
    by (simp add: wr_def min.commute)
  finally show ?thesis by (simp add: overlay_def d min.commute)
qed

lemma take_cstr: "terminated s \<Longrightarrow> take (Suc (length (cstr s))) s = cstr s @ [NUL]"
  by (induction s) auto

lemma take_cstr_less: "n \<le> length (cstr s) \<Longrightarrow> take n s = take n (cstr s)"
  by (induction s arbitrary: n) (auto simp: take_Cons' split: if_splits)

lemma strlcpy_eq:
  assumes "maxlen \<le> length d" "terminated s"
  shows "internal_strlcpy d s maxlen =
         Inr (if maxlen = 0 then d
              else take (maxlen - 1) (cstr s) @ NUL # drop (Suc (min (maxlen - 1) (length (cstr s)))) d,
              length (cstr s))"
proof (cases "length (cstr s) < maxlen")
  case True
  then have "min (maxlen - 1) (length (cstr s)) = length (cstr s)" by simp
  with True show ?thesis
    using assms memcpy_loop_eq [of 0 "Suc (length (cstr s))" d 0 s] length_cstr_less [OF assms(2)]
    by (auto simp: internal_strlcpy_def strlen_eq internal_memcpy_def take_cstr overlay_def simp del: memcpy_loop.simps)
next
  case False
  show ?thesis
  proof (cases "maxlen = 0")
    case False
    then obtain k where k: "maxlen = Suc k" by (cases maxlen) auto
    let ?d = "overlay d 0 (take k (cstr s))"
    have le: "k < length (cstr s)" "k < length d" "k < length s" "length ?d = length d"
      using \<open>\<not> length (cstr s) < maxlen\<close> assms length_cstr_le [of s] k by auto
    have "internal_memcpy d 0 s k = Inr ?d"
      using le memcpy_loop_eq [of 0 k d 0 s] by (simp add: internal_memcpy_def take_cstr_less)
    moreover have "wr ?d k NUL = Inr (take k (cstr s) @ NUL # drop (Suc k) d)"
      using le by (simp add: wr_def) (simp add: overlay_def list_update_append Cons_nth_drop_Suc [symmetric])
    ultimately show ?thesis
      using le assms by (simp add: internal_strlcpy_def strlen_eq k)
  qed (use False assms in \<open>simp add: internal_strlcpy_def strlen_eq\<close>)
qed

text \<open>\<^verbatim>\<open>memmove\<close> copies the original source segment, however the two segments overlap.\<close>

lemma move_up_eq:
  assumes "d < s" "s + i + n \<le> length m"
  shows "move_up m d s i n = Inr (overlay m (d + i) (take n (drop (s + i) m)))"
  using assms
proof (induction n arbitrary: m i)
  case (Suc n)
  then have "take (Suc n) (drop (s + i) m) = m ! (s + i) # take n (drop (Suc (s + i)) m)"
    by (simp add: take_Suc_conv_app_nth Cons_nth_drop_Suc [symmetric])
  moreover have "drop (Suc (s + i)) (m[d + i := m ! (s + i)]) = drop (Suc (s + i)) m"
    using Suc.prems by simp
  ultimately show ?case
    using Suc by (simp add: rd_def wr_def overlay_Cons)
qed simp

lemma move_down_eq:
  assumes "s < d" "d + n \<le> length m"
  shows "move_down m d s n = Inr (overlay m d (take n (drop s m)))"
  using assms
proof (induction n arbitrary: m)
  case (Suc n)
  let ?m = "m[d + n := m ! (s + n)]"
  have "take n (drop s ?m) = take n (drop s m)"
    using Suc.prems by (intro nth_equalityI) auto
  moreover have "overlay ?m d (take n (drop s m)) = overlay m d (take n (drop s m) @ [m ! (s + n)])"
    using Suc.prems by (intro nth_equalityI) (auto simp: overlay_def nth_append nth_Cons' nth_list_update)
  moreover have "take (Suc n) (drop s m) = take n (drop s m) @ [m ! (s + n)]"
    using Suc.prems by (simp add: take_Suc_conv_app_nth)
  ultimately show ?case
    using Suc by (simp add: rd_def wr_def)
qed simp

lemma memmove_eq:
  assumes "s + n \<le> length m" "d + n \<le> length m" "n < 2 ^ 63"
  shows "internal_memmove m d s n = Inr (overlay m d (take n (drop s m)))"
proof (cases "d = s")
  case True
  have "overlay m s (take n (drop s m)) = m"
    using assms by (intro nth_equalityI) (auto simp: overlay_def nth_append)
  with True assms show ?thesis by (simp add: internal_memmove_def)
next
  case False
  then show ?thesis
    using assms move_up_eq [of d s 0 n m] move_down_eq [of s d n m]
    by (cases "n = 0") (auto simp: internal_memmove_def)
qed

text \<open>\<^verbatim>\<open>strstr\<close> finds the first occurrence.\<close>

lemma strstr_loop_eq:
  assumes "pos + k + len2 \<le> Suc (length hay)" "len2 \<le> length needle"
  shows "strstr_loop hay needle len2 pos k =
         Inr (find (\<lambda>p. take len2 (drop p hay) = take len2 needle) [pos..<pos + k])"
  using assms
proof (induction k arbitrary: pos)
  case (Suc k)
  have le: "len2 \<le> length (drop pos hay)" using Suc.prems by simp
  obtain r where r: "internal_memcmp (drop pos hay) needle len2 = Inr r"
    using memcmp_total [OF le Suc.prems(2)] by auto
  have "r = 0 \<longleftrightarrow> take len2 (drop pos hay) = take len2 needle"
    using memcmp_0 [OF le Suc.prems(2)] r by simp
  moreover have "[pos..<pos + Suc k] = pos # [Suc pos..<Suc pos + k]"
    by (simp add: upt_conv_Cons)
  ultimately show ?case
    using Suc.IH [of "Suc pos"] Suc.prems r by simp
qed simp

section \<open>Printing and reading decimal numbers\<close>

fun dec_value :: "nat \<Rightarrow> nat list \<Rightarrow> nat" where
  "dec_value acc [] = acc"
| "dec_value acc (d # ds) = dec_value (acc * 10 + d) ds"

lemma dec_value_append [simp]: "dec_value acc (xs @ ys) = dec_value (dec_value acc xs) ys"
  by (induction acc xs rule: dec_value.induct) auto

lemma dec_value_ge: "acc \<le> dec_value acc ds"
  by (induction acc ds rule: dec_value.induct) auto

lemma dec_value_digits: "dec_value 0 (rev (num_digits 10 v)) = v"
proof (induction v rule: less_induct)
  case (less v)
  then show ?case by (simp add: num_digits.simps [of 10 v])
qed

lemma num_digits_less: "d \<in> set (num_digits 10 v) \<Longrightarrow> d < 10"
proof (induction v rule: less_induct)
  case (less v)
  show ?case
    using less.prems less.IH [of "v div 10"] by (auto simp: num_digits.simps [of 10 v] split: if_splits)
qed

lemma num_digits_last: "0 < v \<Longrightarrow> last (num_digits 10 v) \<noteq> 0"
proof (induction v rule: less_induct)
  case (less v)
  have "num_digits 10 (v div 10) \<noteq> []" by (simp add: num_digits.simps [of 10 "v div 10"])
  with less show ?case by (auto simp: num_digits.simps [of 10 v])
qed

lemma num_digits_not_Nil [simp]: "num_digits b v \<noteq> []"
  by (simp add: num_digits.simps [of b v])

lemma digit_char_of: "d < 10 \<Longrightarrow> (of_char (digit_char up d) :: nat) = 48 + d"
  by (simp add: digit_char_def)

lemma strtoll_digits_eq:
  assumes "\<forall>d\<in>set ds. d < 10" "dec_value acc ds \<le> UINT64_MAX" "\<not> IsDigit c"
  shows "strtoll_digits acc h (map (digit_char up) ds @ c # r) = Inr (dec_value acc ds, h \<or> ds \<noteq> [], c # r)"
  using assms
proof (induction ds arbitrary: acc h)
  case (Cons d ds)
  have "acc * 10 + d \<le> UINT64_MAX"
    using dec_value_ge [of "acc * 10 + d" ds] Cons.prems by simp
  then have "acc \<le> UINT64_MAX div 10" "acc * 10 \<le> UINT64_MAX - d" by linarith+
  then show ?case
    using Cons by (simp add: IsDigit_def digit_char_of)
qed simp

lemma number_text_plain:
  assumes "0 < v \<or> \<not> neg"
  shows "number_text v 10 0 False neg up = (if neg then ''-'' else []) @ map (digit_char up) (rev (num_digits 10 v))"
proof (cases "v = 0")
  case True
  with assms show ?thesis
    by (simp add: number_text_def num_digits.simps [of 10 0] digit_char_def char_of_def bit_Suc_0_iff)
next
  case False
  obtain d ds where ds: "rev (num_digits 10 v) = d # ds" by (cases "rev (num_digits 10 v)") auto
  then have "d \<noteq> 0" using num_digits_last [of v] False by (metis hd_rev list.sel(1) neq0_conv)
  with ds show ?thesis by (simp add: number_text_def)
qed

lemma render_lld:
  assumes "i \<in> {- (2 ^ 63)<..<2 ^ 63}"
  shows "render ''%lld'' [VInt i] =
         Inr ((if i < 0 then ''-'' else []) @ map (digit_char False) (rev (num_digits 10 (nat \<bar>i\<bar>))))"
proof -
  have s: "sint (word_of_int i :: u64) = i"
    using assms by (simp add: signed_of_int signed_take_bit_int_eq_self)
  have u: "unat (word_of_int \<bar>i\<bar> :: u64) = nat \<bar>i\<bar>"
    using assms take_bit_int_eq_self [of "\<bar>i\<bar>" 64] by (simp add: unsigned_of_int abs_less_iff)
  have d: "directive_text ''lld'' [VInt i] = Inr ([], [], number_text (nat \<bar>i\<bar>) 10 0 False (i < 0) False)"
    by (simp add: directive_text_def parse_flags_def parse_length_def is_digit_def convert_text_def
        va_int_def s signed_res_def number_res_def u)
  then show ?thesis
    by (simp add: d number_text_plain)
qed

lemma IsSpace_IsDigit [simp]:
  "IsDigit c \<Longrightarrow> \<not> IsSpace c" "\<not> IsSpace (CHR ''-'')" "\<not> IsDigit (CHR ''-'')" "\<not> IsDigit NUL"
  by (auto simp: IsSpace_def IsDigit_def)

lemma atoll_decimal:
  assumes "v \<le> INT64_MAX"
  shows "internal_atoll ((if neg then ''-'' else []) @ map (digit_char False) (rev (num_digits 10 v)) @ NUL # r) =
         Inr (if neg then - int v else int v)"
proof -
  let ?ds = "rev (num_digits 10 v)"
  have dig: "\<forall>d\<in>set ?ds. d < 10" using num_digits_less by auto
  obtain d ds where ds: "?ds = d # ds" by (cases ?ds) auto
  have c: "IsDigit (digit_char False d)" "digit_char False d \<noteq> CHR ''-''" "digit_char False d \<noteq> CHR ''+''"
    using dig ds digit_char_of [of d False] by (auto simp: IsDigit_def)
  have "v \<le> UINT64_MAX" using assms by (simp add: UINT64_MAX_def INT64_MAX_def)
  then have res: "strtoll_digits 0 False (map (digit_char False) ?ds @ NUL # r) = Inr (v, True, NUL # r)"
    using strtoll_digits_eq [OF dig, of 0 NUL False False r] by (simp add: dec_value_digits)
  show ?thesis
    using res c assms
    by (cases neg) (simp_all add: internal_atoll_def internal_simple_strtoll_def ds min_def)
qed

section \<open>The zero test\<close>

lemma or_bytes_0: "or_bytes m a b acc = 0 \<longleftrightarrow> acc = 0 \<and> (\<forall>i\<in>{a..<b}. m i = 0)"
proof -
  have s: "(scast x :: u64) = 0 \<longleftrightarrow> x = 0" for x :: byte
  proof
    assume "(scast x :: u64) = 0"
    then have "(ucast x :: u64) = 0" using take_bit_scast_len [of x, where 'a = 64] by simp
    then show "x = 0" by transfer simp
  qed simp
  have "fold (\<lambda>i all. all OR scast (m i)) xs acc = (0 :: u64) \<longleftrightarrow> acc = 0 \<and> (\<forall>i\<in>set xs. m i = 0)" for xs
    by (induction xs arbitrary: acc) (auto simp: or_eq_0_iff s)
  then show ?thesis by (simp add: or_bytes_def)
qed

lemma or_words_0:
  "or_words m a b acc = 0 \<longleftrightarrow> acc = 0 \<and> (\<forall>i\<in>{a..<a + 8 * ((b - a) div 8)}. m i = 0)"
proof -
  let ?w = "\<lambda>k. le_word (map (\<lambda>j. m (a + 8 * k + j)) [0..<8])"
  have w: "?w k = 0 \<longleftrightarrow> (\<forall>j<8. m (a + 8 * k + j) = 0)" for k
    by (subst le_word_0) (auto simp del: upt_rec_numeral)
  have "fold (\<lambda>k all. all OR ?w k) xs acc = (0 :: u64) \<longleftrightarrow> acc = 0 \<and> (\<forall>k\<in>set xs. ?w k = 0)" for xs
    by (induction xs arbitrary: acc) (auto simp: or_eq_0_iff)
  then have "or_words m a b acc = 0 \<longleftrightarrow> acc = 0 \<and> (\<forall>k<(b - a) div 8. \<forall>j<8. m (a + 8 * k + j) = 0)"
    unfolding or_words_def w [symmetric] by auto
  also have "(\<forall>k<(b - a) div 8. \<forall>j<8. m (a + 8 * k + j) = 0) \<longleftrightarrow> (\<forall>i<8 * ((b - a) div 8). m (a + i) = 0)"
  proof (intro iffI allI impI)
    fix i assume "\<forall>k<(b - a) div 8. \<forall>j<8. m (a + 8 * k + j) = 0" and "i < 8 * ((b - a) div 8)"
    moreover have "i = 8 * (i div 8) + i mod 8" by simp
    moreover have "i div 8 < (b - a) div 8" using \<open>i < 8 * ((b - a) div 8)\<close> by linarith
    ultimately show "m (a + i) = 0" by (metis add.assoc mod_less_divisor zero_less_numeral)
  qed (auto simp: add.assoc)
  also have "\<dots> \<longleftrightarrow> (\<forall>i\<in>{a..<a + 8 * ((b - a) div 8)}. m i = 0)"
    by (metis atLeastLessThan_iff le_add1 le_add_diff_inverse nat_add_left_cancel_less)
  finally show ?thesis .
qed

lemma unat_and_not_7: "unat (x AND - 8 :: u64) = unat x div 8 * 8"
proof -
  have m: "(- 8 :: u64) = NOT (mask 3)" by (simp add: mask_eq_exp_minus_1)
  have "x AND - 8 = push_bit 3 (drop_bit 3 x)"
    unfolding m by (auto intro!: bit_word_eqI simp: bit_and_iff bit_not_iff bit_push_bit_iff bit_drop_bit_eq bit_mask_iff)
  moreover have "unat x < 2 ^ 64"
    using unsigned_less [of x] by simp
  ultimately show ?thesis
    using div_times_less_eq_dividend [of "unat x" 8]
    by (simp add: push_bit_eq_mult drop_bit_eq_div unat_word_ariths unat_div_distrib)
qed

lemma mem_is_zero_eq:
  assumes "unat n \<le> 2 ^ 40" "unat beg + unat n + 7 < 2 ^ 64"
  shows "mem_is_zero m beg n = Inr (\<forall>i\<in>{unat beg..<unat beg + unat n}. m i = 0)"
proof -
  define B E where "B = unat beg" and "E = unat beg + unat n"
  have e: "unat (beg + n) = E" using assms(2) by (simp add: E_def unat_word_ariths)
  have b7: "unat (beg + 7) = B + 7" using assms(2) by (simp add: B_def unat_word_ariths)
  have ab: "RoundUpTo beg 8 = Inr ((beg + 7) AND - 8)"
    by (simp add: RoundUpTo_def IsPowerOfTwo_def add.commute)
  have u: "unat ((beg + 7) AND - 8) = (B + 7) div 8 * 8" "unat (RoundDownTo (beg + n) 8) = E div 8 * 8"
    by (simp_all add: RoundDownTo_def unat_and_not_7 b7 e)
  have mn: "unat (min x y) = min (unat x) (unat y)" for x y :: u64
    by (simp add: min_def word_le_nat_alt)
  have n40: "n \<le> 2 ^ 40" using assms(1) by (simp add: word_le_nat_alt)
  define a c where "a = (B + 7) div 8" and "c = E div 8"
  have le: "B \<le> 8 * a" "8 * a < B + 8" "8 * c \<le> E" "E < 8 * c + 8" "B \<le> E"
    by (auto simp: a_def c_def E_def B_def)
  have dv: "(c * 8 - a * 8) div 8 = c - a" by (simp add: diff_mult_distrib [symmetric])
  have "mem_is_zero m beg n = Inr ((\<forall>i\<in>{B..<min (8 * a) E}. m i = 0) \<and>
      (\<forall>i\<in>{8 * a..<8 * a + 8 * (c - a)}. m i = 0) \<and> (B \<le> 8 * c \<longrightarrow> (\<forall>i\<in>{8 * c..<E}. m i = 0)))"
    using n40 by (simp add: mem_is_zero_def Let_def ab u mn e or_bytes_0 or_words_0 B_def [symmetric]
        a_def [symmetric] c_def [symmetric] dv word_le_nat_alt mult.commute)
  also have "\<dots> = Inr (\<forall>i\<in>{B..<E}. m i = 0)"
  proof -
    have "i \<in> {B..<E} \<longleftrightarrow> i \<in> {B..<min (8 * a) E} \<or> i \<in> {8 * a..<8 * a + 8 * (c - a)} \<or>
        B \<le> 8 * c \<and> i \<in> {8 * c..<E}" for i
      unfolding atLeastLessThan_iff using le by linarith
    then show ?thesis by blast
  qed
  finally show ?thesis by (simp add: B_def E_def)
qed

text \<open>The first position at which a needle occurs.\<close>

lemma first_unique:
  assumes "case r of None \<Rightarrow> (\<forall>p :: nat. \<not> P p) | Some p \<Rightarrow> P p \<and> (\<forall>q<p. \<not> P q)" "P k" "\<And>q. q < k \<Longrightarrow> \<not> P q"
  shows "r = Some k"
  using assms by (cases r) (auto dest: linorder_neqE_nat)

lemma find_upt: "case find P [0..<k] of None \<Rightarrow> (\<forall>p<k. \<not> P p) | Some p \<Rightarrow> P p \<and> (\<forall>q<p. \<not> P q)"
proof (cases "find P [0..<k]")
  case None
  then have "\<forall>p<k. \<not> P p" by (auto simp: find_None_iff)
  with None show ?thesis by simp
next
  case (Some p)
  then obtain i where "i < k" "P ([0..<k] ! i)" "p = [0..<k] ! i" "\<forall>j<i. \<not> P ([0..<k] ! j)"
    by (auto simp: find_Some_iff)
  with Some show ?thesis by auto
qed

lemma strstr_eq:
  assumes "terminated hay" "terminated needle"
  defines "occ \<equiv> \<lambda>p. take (length (cstr needle)) (drop p (cstr hay)) = cstr needle"
  shows "\<exists>r. internal_strstr hay needle = Inr r \<and>
    (case r of None \<Rightarrow> (\<forall>p. \<not> occ p) | Some p \<Rightarrow> occ p \<and> (\<forall>q<p. \<not> occ q))"
proof -
  let ?h = "cstr hay" and ?n = "cstr needle"
  let ?l1 = "length ?h" and ?l2 = "length ?n"
  have tn: "take ?l2 needle = ?n" by (simp add: take_cstr_less)
  have short: "?l2 \<le> ?l1 - p" if "occ p" for p
  proof -
    have "length (take ?l2 (drop p ?h)) = ?l2" using that unfolding occ_def by (rule arg_cong)
    then show ?thesis by simp
  qed
  show ?thesis
  proof (cases "?l1 < ?l2")
    case True
    then have "\<not> occ p" for p using short [of p] by linarith
    with True show ?thesis using assms(1,2) by (simp add: internal_strstr_def strlen_eq)
  next
    case False
    let ?k = "?l1 - ?l2 + 1"
    have hs: "take ?l2 (drop p hay) = take ?l2 (drop p ?h)" if "p < ?k" for p
    proof -
      have "take (p + ?l2) hay = take (p + ?l2) ?h" using that False by (intro take_cstr_less) simp
      then show ?thesis by (simp add: take_drop add.commute)
    qed
    have "internal_strstr hay needle = Inr (find occ [0..<?k])"
    proof -
      have "internal_strstr hay needle = strstr_loop hay needle ?l2 0 ?k"
        using False assms(1,2) by (simp add: internal_strstr_def strlen_eq)
      also have "\<dots> = Inr (find (\<lambda>p. take ?l2 (drop p hay) = ?n) [0..<?k])"
        using False length_cstr_less [OF assms(1)] length_cstr_le [of needle]
        by (subst strstr_loop_eq) (simp_all add: tn)
      also have "find (\<lambda>p. take ?l2 (drop p hay) = ?n) [0..<?k] = find occ [0..<?k]"
        using hs by (intro find_cong) (auto simp: occ_def)
      finally show ?thesis .
    qed
    moreover have lt: "p < ?k" if "occ p" "\<forall>q<p. \<not> occ q" for p
    proof (cases "?l2 = 0")
      case True
      then have "occ 0" by (simp add: occ_def)
      then show ?thesis using that by (cases "p = 0") auto
    next
      case False
      then have "0 < ?l2" by blast
      then show ?thesis using short [OF that(1)] by linarith
    qed
    have all: "\<forall>p. \<not> occ p" if "\<forall>p<?k. \<not> occ p"
      using that lt exists_least_iff [of occ] by blast
    have "case find occ [0..<?k] of None \<Rightarrow> (\<forall>p. \<not> occ p) | Some p \<Rightarrow> occ p \<and> (\<forall>q<p. \<not> occ q)"
      using find_upt [where P = occ and k = "?k"] all by (cases "find occ [0..<?k]") (simp_all del: upt_Suc)
    ultimately show ?thesis by blast
  qed
qed

section \<open>Properties\<close>

text \<open>
  C33. Printing a 64-bit integer with \<^verbatim>\<open>internal_snprintf("%lld")\<close> and reading it back with
  \<^verbatim>\<open>internal_atoll\<close> gives the integer again; 21 bytes are enough for the text.
\<close>

theorem atoll_snprintf_roundtrip:
  assumes "- (2 ^ 63) < i" "i < 2 ^ 63" "21 \<le> n" "n < 2 ^ 31"
  shows "\<exists>s. internal_snprintf n ''%lld'' [VInt i] = Inr (s, length s) \<and> internal_atoll (s @ [NUL]) = Inr i"
proof -
  let ?v = "nat \<bar>i\<bar>"
  let ?s = "(if i < 0 then ''-'' else []) @ map (digit_char False) (rev (num_digits 10 ?v))"
  have v: "?v < 2 ^ 63" using assms(1,2) by auto
  have "length (num_digits 10 ?v) \<le> Suc 18" by (rule num_digits_len) (use v in simp_all)
  then have "length ?s \<le> 20" by (auto simp: abs_if split: if_splits)
  moreover have "render ''%lld'' [VInt i] = Inr ?s" using render_lld [of i] assms(1,2) by simp
  ultimately have "internal_snprintf n ''%lld'' [VInt i] = Inr (?s, length ?s)"
    using snprintf_render [of n "''%lld''" "[VInt i]"] assms(3,4) by simp
  moreover have "internal_atoll (?s @ [NUL]) = Inr i"
    using atoll_decimal [of ?v "i < 0" "[]"] v by (simp add: INT64_MAX_def)
  ultimately show ?thesis by blast
qed

theorem atoll_snprintf_roundtrip_witness:
  "\<exists>s. internal_snprintf 21 ''%lld'' [VInt (-9223372036854775807)] = Inr (s, length s)
     \<and> internal_atoll (s @ [NUL]) = Inr (-9223372036854775807)"
  using atoll_snprintf_roundtrip [of "-9223372036854775807" 21] by simp

text \<open>
  C34. \<^verbatim>\<open>internal_memmove\<close> on overlapping or disjoint segments of one memory moves the original source
  segment: afterwards the destination holds what the source held before and every byte outside
  the destination is unchanged.
\<close>

theorem memmove_overlap:
  assumes "s + n \<le> length m" "d + n \<le> length m" "n < 2 ^ 63"
  shows "\<exists>m'. internal_memmove m d s n = Inr m' \<and> length m' = length m
    \<and> (\<forall>i<length m. m' ! i = (if d \<le> i \<and> i < d + n then m ! (s + (i - d)) else m ! i))"
  using memmove_eq [OF assms] assms by (auto simp: overlay_def nth_append)

theorem memmove_overlap_witness:
  "\<exists>m'. internal_memmove ''abcdef'' 2 0 4 = Inr m' \<and> m' ! 5 = CHR ''d'' \<and> m' ! 1 = CHR ''b''"
proof -
  obtain m' where m': "internal_memmove ''abcdef'' 2 0 4 = Inr m'"
    "\<forall>i<6. m' ! i = (if 2 \<le> i \<and> i < 6 then ''abcdef'' ! (0 + (i - 2)) else ''abcdef'' ! i)"
    using memmove_overlap [of 0 4 "''abcdef''" 2] by auto
  have "m' ! 5 = CHR ''d''" "m' ! 1 = CHR ''b''" using m'(2) [rule_format, of 5] m'(2) [rule_format, of 1] by simp_all
  with m'(1) show ?thesis by blast
qed

text \<open>
  \<^verbatim>\<open>internal_strlcpy\<close> into a buffer of \<open>maxlen\<close> bytes copies the string truncated to
  \<open>maxlen - 1\<close> characters, always terminates it, writes nothing behind \<open>maxlen\<close> bytes and returns
  the length of the source.
\<close>

theorem strlcpy_truncates:
  assumes "0 < maxlen" "maxlen \<le> length d" "terminated s"
  shows "\<exists>d'. internal_strlcpy d s maxlen = Inr (d', length (cstr s)) \<and> length d' = length d
    \<and> cstr d' = take (maxlen - 1) (cstr s) \<and> terminated d' \<and> drop maxlen d' = drop maxlen d"
proof -
  let ?t = "take (maxlen - 1) (cstr s)"
  have "NUL \<notin> set ?t" using NUL_cstr [of s] by (auto dest: in_set_takeD)
  moreover have "drop maxlen (?t @ NUL # drop (Suc (min (maxlen - 1) (length (cstr s)))) d) = drop maxlen d"
  proof -
    let ?k = "min (maxlen - 1) (length (cstr s))"
    obtain j where j: "maxlen = Suc (?k + j)" using assms(1) less_iff_Suc_add [of ?k maxlen] by auto
    have "length ?t = ?k" by (simp add: min.commute)
    then have "drop (Suc (?k + j)) (?t @ NUL # drop (Suc ?k) d) = drop (Suc (?k + j)) d" by (simp add: add.commute)
    then show ?thesis unfolding j [symmetric] .
  qed
  ultimately show ?thesis using strlcpy_eq [OF assms(2,3)] assms(1,2) by auto
qed

theorem strlcpy_truncates_witness:
  "\<exists>d'. internal_strlcpy ''xxxxxx'' (''hello'' @ [NUL]) 4 = Inr (d', 5) \<and> cstr d' = ''hel''"
  using strlcpy_truncates [of 4 "''xxxxxx''" "''hello'' @ [NUL]"] by auto

text \<open>
  \<^verbatim>\<open>internal_strstr\<close> returns the first position at which the needle occurs in the haystack, and
  null exactly when it occurs nowhere; it reads neither string past its terminator.
\<close>

theorem strstr_first:
  assumes "terminated hay" "terminated needle"
  shows "\<exists>r. internal_strstr hay needle = Inr r \<and>
    (case r of
       None \<Rightarrow> (\<forall>p. take (length (cstr needle)) (drop p (cstr hay)) \<noteq> cstr needle)
     | Some p \<Rightarrow> take (length (cstr needle)) (drop p (cstr hay)) = cstr needle
         \<and> (\<forall>q<p. take (length (cstr needle)) (drop q (cstr hay)) \<noteq> cstr needle))"
  using strstr_eq [OF assms] .

theorem strstr_first_witness:
  "internal_strstr (''banana'' @ [NUL]) (''na'' @ [NUL]) = Inr (Some 2)"
proof -
  have t: "terminated (''banana'' @ [NUL])" "terminated (''na'' @ [NUL])" by simp_all
  show ?thesis
  proof (rule exE [OF strstr_first [OF t]], elim conjE)
    fix r
    assume r: "internal_strstr (''banana'' @ [NUL]) (''na'' @ [NUL]) = Inr r"
      "case r of
         None \<Rightarrow> (\<forall>p. take (length (cstr (''na'' @ [NUL]))) (drop p (cstr (''banana'' @ [NUL]))) \<noteq> cstr (''na'' @ [NUL]))
       | Some p \<Rightarrow> take (length (cstr (''na'' @ [NUL]))) (drop p (cstr (''banana'' @ [NUL]))) = cstr (''na'' @ [NUL])
           \<and> (\<forall>q<p. take (length (cstr (''na'' @ [NUL]))) (drop q (cstr (''banana'' @ [NUL]))) \<noteq> cstr (''na'' @ [NUL]))"
    have "r = Some 2" by (rule first_unique [OF r(2)]) (auto simp: numeral_2_eq_2 less_Suc_eq)
    then show ?thesis using r(1) by (simp only:)
  qed
qed

text \<open>
  \<^verbatim>\<open>mem_is_zero\<close> tests a region of up to \<open>2\<^sup>4\<^sup>0\<close> bytes, byte-wise at the unaligned ends and word-wise
  between them, and answers exactly whether every byte of the region is zero.
\<close>

theorem mem_is_zero_correct:
  assumes "unat n \<le> 2 ^ 40" "unat beg + unat n + 7 < 2 ^ 64"
  shows "mem_is_zero m beg n = Inr (\<forall>i\<in>{unat beg..<unat beg + unat n}. m i = 0)"
  using assms by (rule mem_is_zero_eq)

theorem mem_is_zero_correct_witness:
  "mem_is_zero (\<lambda>i. if i = 20 then 1 else 0) 3 17 = Inr True \<and> mem_is_zero (\<lambda>i. if i = 20 then 1 else 0) 3 18 = Inr False"
  using mem_is_zero_correct [of 17 3 "\<lambda>i. if i = 20 then 1 else 0"]
    mem_is_zero_correct [of 18 3 "\<lambda>i. if i = 20 then 1 else 0"] by auto

end
