(* ===== verification/Ufo_Platform.thy ===== *)
theory Ufo_Platform
  imports San_Libc
begin

text \<open>
  What the UFO runtime asks of the operating system: the environment variables, process
  ids, clock and thread areas it reads, and the files it creates, appends to and closes.
  The descriptor table is a list indexed by descriptor; an entry holds the path that is
  open. The functions follow the documented behaviour of the system calls the source uses
  (\<^verbatim>\<open>internal_open\<close> with \<^verbatim>\<open>O_CREAT | O_APPEND | O_WRONLY\<close>, \<^verbatim>\<open>internal_write\<close>,
  \<^verbatim>\<open>fcntl(F_GETFL)\<close>, \<^verbatim>\<open>internal_close\<close>); whether an open is refused and how many bytes a
  write accepts is up to the system, so both are fields.
\<close>

record LoadedModule =
  full_name :: string
  base_address :: u64
  max_executable_address :: u64

record os =
  os_env :: "string \<Rightarrow> string option"
  os_pid :: u32
  os_ppid :: u32
  os_tv_sec :: nat
  os_tv_usec :: nat
  os_stack_tls :: "bool \<Rightarrow> u64 \<times> u64 \<times> u64 \<times> u64"
  os_open_err :: "string \<Rightarrow> int"
  os_mkdir_ok :: "string \<Rightarrow> bool"
  os_dirs :: "string list"
  os_listing :: "string \<Rightarrow> string list"
  os_accept :: "nat \<Rightarrow> nat"
  os_junk :: "nat \<Rightarrow> byte"
  os_files :: "string \<Rightarrow> byte list option"
  os_fds :: "string option list"
  os_modules :: "LoadedModule list"

section \<open>Descriptors\<close>

definition fd_path :: "os \<Rightarrow> int \<Rightarrow> string option" where
  "fd_path s fd = (if 0 \<le> fd \<and> nat fd < length (os_fds s) then os_fds s ! nat fd else None)"

fun lowest_free :: "string option list \<Rightarrow> nat" where
  "lowest_free [] = 0"
| "lowest_free (None # fs) = 0"
| "lowest_free (Some p # fs) = Suc (lowest_free fs)"

definition put_fd :: "string option list \<Rightarrow> nat \<Rightarrow> string option \<Rightarrow> string option list" where
  "put_fd fs n p = (if n < length fs then fs[n := p] else fs @ [p])"

definition file_bytes :: "os \<Rightarrow> string \<Rightarrow> byte list" where
  "file_bytes s p = (case os_files s p of None \<Rightarrow> [] | Some bs \<Rightarrow> bs)"

definition sys_open :: "string \<Rightarrow> os \<Rightarrow> int \<times> os" where
  "sys_open p s =
     (if os_open_err s p \<noteq> 0 then (- \<bar>os_open_err s p\<bar>, s)
      else (int (lowest_free (os_fds s)),
            s\<lparr>os_fds := put_fd (os_fds s) (lowest_free (os_fds s)) (Some p),
              os_files := (os_files s)(p := Some (file_bytes s p))\<rparr>))"

definition sys_write :: "int \<Rightarrow> byte list \<Rightarrow> os \<Rightarrow> int \<times> os" where
  "sys_write fd data s =
     (case fd_path s fd of
        None \<Rightarrow> (- 9, s)
      | Some p \<Rightarrow>
          (let n = min (length data) (os_accept s (length data))
           in (int n, s\<lparr>os_files := (os_files s)(p := Some (file_bytes s p @ take n data))\<rparr>)))"

definition sys_fd_valid :: "int \<Rightarrow> os \<Rightarrow> bool" where
  "sys_fd_valid fd s \<longleftrightarrow> fd_path s fd \<noteq> None"

definition sys_close :: "int \<Rightarrow> os \<Rightarrow> os" where
  "sys_close fd s = (if fd_path s fd = None then s else s\<lparr>os_fds := (os_fds s)[nat fd := None]\<rparr>)"

text \<open>\<^verbatim>\<open>fopen(path, "w+")\<close>: create or truncate; \<open>sys_fclose\<close> leaves what was printed.\<close>

definition sys_fopen_w :: "string \<Rightarrow> os \<Rightarrow> bool \<times> os" where
  "sys_fopen_w p s =
     (if os_open_err s p \<noteq> 0 then (False, s) else (True, s\<lparr>os_files := (os_files s)(p := Some [])\<rparr>))"

definition text_bytes :: "string \<Rightarrow> byte list" where
  "text_bytes t = map (\<lambda>c. of_nat (of_char c)) t"

definition sys_fprintf :: "string \<Rightarrow> string \<Rightarrow> os \<Rightarrow> os" where
  "sys_fprintf p t s = s\<lparr>os_files := (os_files s)(p := Some (file_bytes s p @ text_bytes t))\<rparr>"

definition alloc_block :: "os \<Rightarrow> nat \<Rightarrow> block" where
  "alloc_block s n = \<lparr>blk_len = n, blk_mem = os_junk s\<rparr>"

text \<open>The system accepts every write in full.\<close>

definition full_writes :: "os \<Rightarrow> bool" where
  "full_writes s \<longleftrightarrow> (\<forall>n. n \<le> os_accept s n)"

section \<open>Laws\<close>

lemma fd_path_neg [simp]: "fd < 0 \<Longrightarrow> fd_path s fd = None"
  by (simp add: fd_path_def)

lemma lowest_free_le: "lowest_free fs \<le> length fs"
  by (induction fs rule: lowest_free.induct) auto

lemma lowest_free_None: "lowest_free fs < length fs \<Longrightarrow> fs ! lowest_free fs = None"
  by (induction fs rule: lowest_free.induct) auto

lemma put_fd_nth:
  "n \<le> length fs \<Longrightarrow> k < length (put_fd fs n p) \<Longrightarrow>
   put_fd fs n p ! k = (if k = n then p else fs ! k)"
  by (auto simp: put_fd_def nth_append)

lemma length_put_fd: "n \<le> length fs \<Longrightarrow> length (put_fd fs n p) = max (Suc n) (length fs)"
  by (auto simp: put_fd_def)

lemma fd_path_open:
  assumes "sys_open p s = (fd, s')" "0 \<le> fd"
  shows "fd_path s' k = (if k = fd then Some p else fd_path s k)" "fd_path s fd = None"
proof -
  let ?n = "lowest_free (os_fds s)"
  have fd: "fd = int ?n" "os_fds s' = put_fd (os_fds s) ?n (Some p)"
    using assms by (auto simp: sys_open_def split: if_splits)
  show "fd_path s fd = None"
    using lowest_free_None [of "os_fds s"] by (simp add: fd_path_def fd)
  show "fd_path s' k = (if k = fd then Some p else fd_path s k)"
  proof (cases "k = fd")
    case True
    then show ?thesis
      using lowest_free_le [of "os_fds s"] by (simp add: fd_path_def fd length_put_fd put_fd_nth)
  next
    case False
    have le: "?n \<le> length (os_fds s)" by (rule lowest_free_le)
    show ?thesis
    proof (cases k)
      case (nonneg m)
      then have "m \<noteq> ?n" using False fd(1) by simp
      then have "m < length (put_fd (os_fds s) ?n (Some p)) \<longleftrightarrow> m < length (os_fds s)"
        using le by (simp add: length_put_fd) linarith
      then show ?thesis
        using nonneg \<open>m \<noteq> ?n\<close> False put_fd_nth [OF le, of m "Some p"] by (simp add: fd_path_def fd(2))
    qed (use False in simp)
  qed
qed

lemma sys_open_neg: "sys_open p s = (fd, s') \<Longrightarrow> fd < 0 \<Longrightarrow> s' = s"
  by (auto simp: sys_open_def split: if_splits)

lemma file_bytes_open: "sys_open p s = (fd, s') \<Longrightarrow> file_bytes s' q = file_bytes s q"
  by (auto simp: sys_open_def file_bytes_def split: if_splits)

lemma sys_write_None [simp]: "fd_path s fd = None \<Longrightarrow> sys_write fd data s = (- 9, s)"
  by (simp add: sys_write_def)

lemma sys_write_full:
  "full_writes s \<Longrightarrow> fd_path s fd = Some p \<Longrightarrow>
   sys_write fd data s =
     (int (length data), s\<lparr>os_files := (os_files s)(p := Some (file_bytes s p @ data))\<rparr>)"
  by (simp add: sys_write_def full_writes_def Let_def min_absorb1)

lemma fd_path_write [simp]: "fd_path (snd (sys_write fd data s)) k = fd_path s k"
  by (auto simp: sys_write_def fd_path_def Let_def split: option.splits)

lemma full_writes_write [simp]: "full_writes (snd (sys_write fd data s)) = full_writes s"
  by (auto simp: sys_write_def full_writes_def Let_def split: option.splits)

lemma full_writes_open: "sys_open p s = (fd, s') \<Longrightarrow> full_writes s' = full_writes s"
  by (auto simp: sys_open_def full_writes_def split: if_splits)

lemma file_bytes_write:
  "full_writes s \<Longrightarrow>
   file_bytes (snd (sys_write fd data s)) q =
     file_bytes s q @ (if fd_path s fd = Some q then data else [])"
  by (cases "fd_path s fd") (auto simp: sys_write_full file_bytes_def)

lemma fd_path_close:
  "fd_path (sys_close fd s) k = (if k = fd then None else fd_path s k)"
proof (cases "fd_path s fd")
  case (Some p)
  then have "0 \<le> fd" "nat fd < length (os_fds s)" by (auto simp: fd_path_def split: if_splits)
  with Some show ?thesis
    by (auto simp: sys_close_def fd_path_def nth_list_update eq_nat_nat_iff)
qed (auto simp: sys_close_def)

lemma file_bytes_close [simp]: "file_bytes (sys_close fd s) q = file_bytes s q"
  by (simp add: sys_close_def file_bytes_def)

lemma full_writes_close [simp]: "full_writes (sys_close fd s) = full_writes s"
  by (simp add: sys_close_def full_writes_def)

end
