(* ===== verification/Ufo_Events.thy ===== *)
theory Ufo_Events
  imports Ufo_Prelude
begin

text \<open>
  The trace events of \<^verbatim>\<open>ufo_interface.h\<close>: the event type codes, the packed structs with
  their 48-bit address and program-counter fields, and the bytes each struct occupies.
  The sizes are those the source's static assertions state; that each size is odd is what
  the copy loop of \<^verbatim>\<open>TLBuffer::put_event\<close> relies on.
\<close>

section \<open>Event type codes\<close>

datatype EventType =
    ThreadBegin | ThreadEnd | ThreadCreate | ThreadJoin | ThreadAcqLock | ThreadRelLock
  | MemAlloc | MemDealloc | MemRead | MemWrite | MemRangeRead | MemRangeWrite
  | PtrAssignment | TLHeader | InfoPacket | EnterFunc | ExitFunc
  | ThrCondWait | ThrCondSignal | ThrCondBC | PtrDeRef

fun type_code :: "EventType \<Rightarrow> byte" where
  "type_code ThreadBegin = 0"
| "type_code ThreadEnd = 1"
| "type_code ThreadCreate = 2"
| "type_code ThreadJoin = 3"
| "type_code ThreadAcqLock = 4"
| "type_code ThreadRelLock = 5"
| "type_code MemAlloc = 6"
| "type_code MemDealloc = 7"
| "type_code MemRead = 8"
| "type_code MemWrite = 9"
| "type_code MemRangeRead = 10"
| "type_code MemRangeWrite = 11"
| "type_code PtrAssignment = 12"
| "type_code TLHeader = 13"
| "type_code InfoPacket = 14"
| "type_code EnterFunc = 15"
| "type_code ExitFunc = 16"
| "type_code ThrCondWait = 17"
| "type_code ThrCondSignal = 18"
| "type_code ThrCondBC = 19"
| "type_code PtrDeRef = 20"

section \<open>Packed structs\<close>

text \<open>
  A packed struct is a sequence of fields, each a number of bytes and a value; a
  \<^verbatim>\<open>u64 f : 48\<close> bit field takes six bytes and drops the upper sixteen bits.
\<close>

definition layout :: "(nat \<times> u64) list \<Rightarrow> byte list" where
  "layout fs = concat (map (\<lambda>(n, v). le_bytes n v) fs)"

lemma layout_simps [simp]:
  "layout [] = []"
  "layout ((n, v) # fs) = le_bytes n v @ layout fs"
  by (simp_all add: layout_def)

definition UFO_VERSION :: u64 where
  "UFO_VERSION = 20161001"

definition AllocEvent_bytes :: "u64 \<Rightarrow> u64 \<Rightarrow> u32 \<Rightarrow> byte list" where
  "AllocEvent_bytes ad p d =
     type_code MemAlloc # layout [(6, ad), (6, p), (4, ucast d)]"

definition DeallocEvent_bytes :: "u64 \<Rightarrow> u64 \<Rightarrow> u32 \<Rightarrow> byte list" where
  "DeallocEvent_bytes h ip d =
     type_code MemDealloc # layout [(6, h), (6, ip), (4, ucast d)]"

definition LockEvent_bytes :: "u64 \<Rightarrow> u64 \<Rightarrow> byte list" where
  "LockEvent_bytes h p = type_code ThreadAcqLock # layout [(6, h), (6, p)]"

definition UnlockEvent_bytes :: "u64 \<Rightarrow> u64 \<Rightarrow> byte list" where
  "UnlockEvent_bytes h ip = type_code ThreadRelLock # layout [(6, h), (6, ip)]"

definition ThrCondWaitEvent_bytes :: "u64 \<Rightarrow> u64 \<Rightarrow> u64 \<Rightarrow> u64 \<Rightarrow> byte list" where
  "ThrCondWaitEvent_bytes i c m p =
     type_code ThrCondWait # layout [(6, i), (6, c), (6, m), (6, p)]"

definition ThrCondSignalEvent_bytes :: "u64 \<Rightarrow> u64 \<Rightarrow> u64 \<Rightarrow> byte list" where
  "ThrCondSignalEvent_bytes i c p =
     type_code ThrCondSignal # layout [(6, i), (6, c), (6, p)]"

text \<open>The broadcast struct declares the type index of the signal struct.\<close>

definition ThrCondBCEvent_bytes :: "u64 \<Rightarrow> u64 \<Rightarrow> u64 \<Rightarrow> byte list" where
  "ThrCondBCEvent_bytes i c p =
     type_code ThrCondSignal # layout [(6, i), (6, c), (6, p)]"

definition MemRangeAccEvent_bytes :: "byte \<Rightarrow> u64 \<Rightarrow> u64 \<Rightarrow> u32 \<Rightarrow> byte list" where
  "MemRangeAccEvent_bytes ty_idx adr ip sz =
     ty_idx # layout [(6, adr), (6, ip), (4, ucast sz)]"

definition MemAccEvent_bytes :: "byte \<Rightarrow> u64 \<Rightarrow> u64 \<Rightarrow> byte list" where
  "MemAccEvent_bytes ty_idx h ip = ty_idx # layout [(6, h), (6, ip)]"

definition CreateThreadEvent_bytes :: "u64 \<Rightarrow> u16 \<Rightarrow> u32 \<Rightarrow> u64 \<Rightarrow> byte list" where
  "CreateThreadEvent_bytes i tk t ip =
     type_code ThreadCreate # layout [(6, i), (2, ucast tk), (4, ucast t), (6, ip)]"

definition ThreadBeginEvent_bytes ::
    "u16 \<Rightarrow> u64 \<Rightarrow> u32 \<Rightarrow> u64 \<Rightarrow> u32 \<Rightarrow> u64 \<Rightarrow> u32 \<Rightarrow> byte list" where
  "ThreadBeginEvent_bytes tp p t stk_addr stk_size tls_addr tls_size =
     type_code ThreadBegin #
       layout [(2, ucast tp), (6, p), (4, ucast t), (6, stk_addr), (4, ucast stk_size),
               (6, tls_addr), (4, ucast tls_size)]"

definition JoinThreadEvent_bytes :: "u64 \<Rightarrow> u16 \<Rightarrow> u32 \<Rightarrow> u64 \<Rightarrow> byte list" where
  "JoinThreadEvent_bytes i tk t ip =
     type_code ThreadJoin # layout [(6, i), (2, ucast tk), (4, ucast t), (6, ip)]"

definition ThreadEndEvent_bytes :: "u16 \<Rightarrow> u32 \<Rightarrow> byte list" where
  "ThreadEndEvent_bytes tp t = type_code ThreadEnd # layout [(2, ucast tp), (4, ucast t)]"

definition PtrAssignEvent_bytes :: "u64 \<Rightarrow> u64 \<Rightarrow> byte list" where
  "PtrAssignEvent_bytes pl pr = type_code PtrAssignment # layout [(6, pl), (6, pr)]"

definition PtrDeRefEvent_bytes :: "u64 \<Rightarrow> byte list" where
  "PtrDeRefEvent_bytes pa = type_code PtrDeRef # layout [(6, pa)]"

definition UFOHeader_bytes :: "u16 \<Rightarrow> u64 \<Rightarrow> u32 \<Rightarrow> byte list" where
  "UFOHeader_bytes curT time len =
     type_code TLHeader #
       layout [(8, UFO_VERSION), (2, ucast curT), (8, time), (4, ucast len)]"

definition FuncEntryEvent_bytes :: "u64 \<Rightarrow> byte list" where
  "FuncEntryEvent_bytes p = type_code EnterFunc # layout [(6, p)]"

definition FuncExitEvent_bytes :: "byte list" where
  "FuncExitEvent_bytes = [type_code ExitFunc]"

definition UFOPkt_bytes :: "u64 \<Rightarrow> u64 \<Rightarrow> byte list" where
  "UFOPkt_bytes time len = type_code InfoPacket # layout [(8, time), (8, len)]"

lemmas event_bytes_defs =
  AllocEvent_bytes_def DeallocEvent_bytes_def LockEvent_bytes_def UnlockEvent_bytes_def
  ThrCondWaitEvent_bytes_def ThrCondSignalEvent_bytes_def ThrCondBCEvent_bytes_def
  MemRangeAccEvent_bytes_def MemAccEvent_bytes_def CreateThreadEvent_bytes_def
  ThreadBeginEvent_bytes_def JoinThreadEvent_bytes_def ThreadEndEvent_bytes_def
  PtrAssignEvent_bytes_def PtrDeRefEvent_bytes_def FuncEntryEvent_bytes_def
  FuncExitEvent_bytes_def UFOPkt_bytes_def UFOHeader_bytes_def

text \<open>The static assertions of the source.\<close>

lemma event_sizes [simp]:
  "length (AllocEvent_bytes a p d) = 17"
  "length (DeallocEvent_bytes a p d) = 17"
  "length (LockEvent_bytes a p) = 13"
  "length (UnlockEvent_bytes a p) = 13"
  "length (ThrCondWaitEvent_bytes i c m p) = 25"
  "length (ThrCondSignalEvent_bytes i c p) = 19"
  "length (ThrCondBCEvent_bytes i c p) = 19"
  "length (MemRangeAccEvent_bytes ty a p d) = 17"
  "length (MemAccEvent_bytes ty a p) = 13"
  "length (CreateThreadEvent_bytes i k t p) = 19"
  "length (ThreadBeginEvent_bytes k p t sa ss ta ts) = 33"
  "length (JoinThreadEvent_bytes i k t p) = 19"
  "length (ThreadEndEvent_bytes k t) = 7"
  "length (PtrAssignEvent_bytes a b) = 13"
  "length (PtrDeRefEvent_bytes a) = 7"
  "length (UFOHeader_bytes k tm n) = 23"
  "length (FuncEntryEvent_bytes p) = 7"
  "length FuncExitEvent_bytes = 1"
  "length (UFOPkt_bytes tm len) = 17"
  by (simp_all add: event_bytes_defs)

section \<open>Events as values\<close>

text \<open>
  One constructor per struct the runtime stores in a trace. The memory access event is
  followed in the trace by the bytes that were read or written.
\<close>

datatype event =
    AllocEvent u64 u64 u32
  | DeallocEvent u64 u64 u32
  | LockEvent u64 u64
  | UnlockEvent u64 u64
  | ThrCondWaitEvent u64 u64 u64 u64
  | ThrCondSignalEvent u64 u64 u64
  | ThrCondBCEvent u64 u64 u64
  | MemRangeAccEvent bool u64 u64 u32
  | MemAccEvent bool nat u64 u64
  | CreateThreadEvent u64 u16 u32 u64
  | ThreadBeginEvent u16 u64 u32 u64 u32 u64 u32
  | JoinThreadEvent u64 u16 u32 u64
  | ThreadEndEvent u16 u32
  | PtrAssignEvent u64 u64
  | PtrDeRefEvent u64
  | FuncEntryEvent u64
  | FuncExitEvent

text \<open>
  \<^verbatim>\<open>type_idx |= sz << 6\<close>: the size logarithm goes into the upper two bits of the byte.
\<close>

definition mem_acc_type :: "bool \<Rightarrow> nat \<Rightarrow> byte" where
  "mem_acc_type is_write kAccessSizeLog =
     (if is_write then type_code MemWrite else type_code MemRead)
       OR push_bit 6 (of_nat kAccessSizeLog)"

definition range_acc_type :: "bool \<Rightarrow> byte" where
  "range_acc_type is_write =
     (if is_write then type_code MemRangeWrite else type_code MemRangeRead)"

fun encode :: "event \<Rightarrow> byte list" where
  "encode (AllocEvent a p d) = AllocEvent_bytes a p d"
| "encode (DeallocEvent a p d) = DeallocEvent_bytes a p d"
| "encode (LockEvent m p) = LockEvent_bytes m p"
| "encode (UnlockEvent m p) = UnlockEvent_bytes m p"
| "encode (ThrCondWaitEvent i c m p) = ThrCondWaitEvent_bytes i c m p"
| "encode (ThrCondSignalEvent i c p) = ThrCondSignalEvent_bytes i c p"
| "encode (ThrCondBCEvent i c p) = ThrCondBCEvent_bytes i c p"
| "encode (MemRangeAccEvent w a p d) = MemRangeAccEvent_bytes (range_acc_type w) a p d"
| "encode (MemAccEvent w lg a p) = MemAccEvent_bytes (mem_acc_type w lg) a p"
| "encode (CreateThreadEvent i k t p) = CreateThreadEvent_bytes i k t p"
| "encode (ThreadBeginEvent k p t sa ss ta ts) = ThreadBeginEvent_bytes k p t sa ss ta ts"
| "encode (JoinThreadEvent i k t p) = JoinThreadEvent_bytes i k t p"
| "encode (ThreadEndEvent k t) = ThreadEndEvent_bytes k t"
| "encode (PtrAssignEvent a b) = PtrAssignEvent_bytes a b"
| "encode (PtrDeRefEvent a) = PtrDeRefEvent_bytes a"
| "encode (FuncEntryEvent p) = FuncEntryEvent_bytes p"
| "encode FuncExitEvent = FuncExitEvent_bytes"

lemma encode_odd [simp]: "odd (length (encode e))"
  by (cases e) simp_all

lemma encode_bounds: "0 < length (encode e)" "length (encode e) \<le> 33"
  by (cases e; simp)+

lemma encode_not_Nil [simp]: "encode e \<noteq> []"
  using encode_bounds(1) [of e] by auto

end
