(* ===== verification/Ufo_Stat.thy ===== *)
theory Ufo_Stat
  imports Ufo_Events San_Libc
begin

text \<open>
  The per-thread statistics (\<^verbatim>\<open>ufo_stat.h\<close>, \<^verbatim>\<open>ufo_stat.cc\<close>): the counters the event handlers
  advance, the event and byte totals computed from them, and the text and CSV reports.
\<close>

section \<open>Counters\<close>

record TLStatistic =
  c_start :: u64
  c_join :: u64
  c_alloc :: u64
  c_dealloc :: u64
  c_lock :: u64
  c_rd_lock :: u64
  c_unlock :: u64
  c_rd_unlock :: u64
  c_rw_unlock :: u64
  c_cond_wait :: u64
  c_cond_signal :: u64
  c_cond_bc :: u64
  c_read :: "nat \<Rightarrow> u64"
  c_write :: "nat \<Rightarrow> u64"
  c_range_w :: u64
  c_range_r :: u64
  cs_acc :: u64
  cs_range_acc :: u64
  c_func_call :: u64
  c_ptr_prop :: u64

definition stat_init :: TLStatistic where
  "stat_init =
     \<lparr>c_start = 0, c_join = 0, c_alloc = 0, c_dealloc = 0, c_lock = 0, c_rd_lock = 0, c_unlock = 0,
      c_rd_unlock = 0, c_rw_unlock = 0, c_cond_wait = 0, c_cond_signal = 0, c_cond_bc = 0,
      c_read = (\<lambda>_. 0), c_write = (\<lambda>_. 0), c_range_w = 0, c_range_r = 0, cs_acc = 0,
      cs_range_acc = 0, c_func_call = 0, c_ptr_prop = 0\<rparr>"

definition stat_count :: "TLStatistic \<Rightarrow> u64" where
  "stat_count s =
     c_start s + c_join s + c_alloc s + c_dealloc s + c_lock s + c_rd_lock s + c_unlock s
     + c_rd_unlock s + c_rw_unlock s + c_cond_wait s + c_cond_signal s + c_cond_bc s
     + c_range_w s + c_range_r s
     + c_read s 0 + c_read s 1 + c_read s 2 + c_read s 3
     + c_write s 0 + c_write s 1 + c_write s 2 + c_write s 3
     + c_func_call s + c_ptr_prop s"

text \<open>
  \<^verbatim>\<open>sizeof(MemRangeWrite)\<close> and \<^verbatim>\<open>sizeof(MemRangeRead)\<close> name enumerators, so they are the size
  of the enumeration type, four bytes, and not that of \<^verbatim>\<open>MemRangeAccEvent\<close>.
\<close>

definition sizeof_enum :: nat where "sizeof_enum = 4"

definition stat_size :: "TLStatistic \<Rightarrow> u64" where
  "stat_size s =
     c_start s * of_nat (length (CreateThreadEvent_bytes 0 0 0 0))
     + c_join s * of_nat (length (JoinThreadEvent_bytes 0 0 0 0))
     + c_alloc s * of_nat (length (AllocEvent_bytes 0 0 0))
     + c_dealloc s * of_nat (length (DeallocEvent_bytes 0 0 0))
     + c_lock s * of_nat (length (LockEvent_bytes 0 0))
     + c_unlock s * of_nat (length (UnlockEvent_bytes 0 0))
     + c_cond_wait s * of_nat (length (ThrCondWaitEvent_bytes 0 0 0 0))
     + c_cond_signal s * of_nat (length (ThrCondSignalEvent_bytes 0 0 0))
     + c_cond_bc s * of_nat (length (ThrCondBCEvent_bytes 0 0 0))
     + c_range_w s * of_nat sizeof_enum
     + c_range_r s * of_nat sizeof_enum
     + c_read s 0 * of_nat (length (MemAccEvent_bytes 0 0 0) + 1)
     + c_read s 1 * of_nat (length (MemAccEvent_bytes 0 0 0) + 2)
     + c_read s 2 * of_nat (length (MemAccEvent_bytes 0 0 0) + 4)
     + c_read s 3 * of_nat (length (MemAccEvent_bytes 0 0 0) + 8)
     + c_write s 0 * of_nat (length (MemAccEvent_bytes 0 0 0) + 1)
     + c_write s 1 * of_nat (length (MemAccEvent_bytes 0 0 0) + 2)
     + c_write s 2 * of_nat (length (MemAccEvent_bytes 0 0 0) + 4)
     + c_write s 3 * of_nat (length (MemAccEvent_bytes 0 0 0) + 8)
     + c_func_call s * of_nat (length (FuncEntryEvent_bytes 0) + length FuncExitEvent_bytes)
     + c_ptr_prop s * of_nat (length (PtrAssignEvent_bytes 0 0))"

definition stat_used :: "TLStatistic \<Rightarrow> bool" where
  "stat_used s \<longleftrightarrow> stat_size s \<noteq> 0"

section \<open>Reports\<close>

definition total_add :: "TLStatistic \<Rightarrow> TLStatistic \<Rightarrow> TLStatistic" where
  "total_add a t = t\<lparr>
     c_start := c_start t + c_start a, c_join := c_join t + c_join a,
     c_dealloc := c_dealloc t + c_dealloc a, c_alloc := c_alloc t + c_alloc a,
     c_unlock := c_unlock t + c_unlock a, c_lock := c_lock t + c_lock a,
     c_cond_wait := c_cond_wait t + c_cond_wait a, c_cond_signal := c_cond_signal t + c_cond_signal a,
     c_cond_bc := c_cond_bc t + c_cond_bc a,
     c_range_r := c_range_r t + c_range_r a, c_range_w := c_range_w t + c_range_w a,
     c_read := (\<lambda>k. c_read t k + c_read a k), c_write := (\<lambda>k. c_write t k + c_write a k),
     cs_acc := cs_acc t + cs_acc a, cs_range_acc := cs_range_acc t + cs_range_acc a,
     c_func_call := c_func_call t + c_func_call a, c_ptr_prop := c_ptr_prop t + c_ptr_prop a\<rparr>"

text \<open>The columns both reports print, in order, without the thread id.\<close>

definition stat_columns :: "TLStatistic \<Rightarrow> u64 list" where
  "stat_columns s =
     [c_start s, c_join s, c_alloc s, c_dealloc s, c_lock s, c_unlock s,
      c_cond_wait s, c_cond_signal s, c_cond_bc s,
      c_read s 0, c_read s 1, c_read s 2, c_read s 3,
      c_write s 0, c_write s 1, c_write s 2, c_write s 3,
      c_range_w s, c_range_r s, cs_acc s, cs_range_acc s, c_func_call s, c_ptr_prop s,
      stat_count s, stat_size s]"

definition column_args :: "int \<Rightarrow> TLStatistic \<Rightarrow> varg list" where
  "column_args tid s = VInt tid # map (\<lambda>w. VInt (uint w)) (stat_columns s)"

definition CRLF :: string where "CRLF = [CHR 0x0D, CHR 0x0A]"

definition print_state_text :: "int \<Rightarrow> TLStatistic \<Rightarrow> string res" where
  "print_state_text tid s = render
     (''#%d |Start %llu |Join %llu |Alloc %llu |Dealloc %llu '' @
      ''|Lock %llu |Unlock %llu |Cond Wait %llu |Cond Signal %llu | Cond BC %llu'' @
      CRLF @ ''R1 %llu |R2 %llu |R4 %llu |R8 %llu '' @
      ''|W1 %llu |W2 %llu |W4 %llu |W8 %llu'' @
      CRLF @ ''RW %llu |RR %llu |Stack ACC %llu |Stack Range ACC %llu |Func Call %llu | Ptr Prop %llu'' @
      CRLF @ ''Total stored events: %llu, size: %llu'' @ CRLF)
     (column_args tid s)"

fun summary_rows :: "(nat \<Rightarrow> TLStatistic) \<Rightarrow> nat list \<Rightarrow> TLStatistic \<Rightarrow> (TLStatistic \<times> string) res" where
  "summary_rows arr [] tot = Inr (tot, [])"
| "summary_rows arr (i # is) tot =
     (if \<not> stat_used (arr i) then summary_rows arr is tot
      else rbind (print_state_text (int i) (arr i)) (\<lambda>row.
           rbind (summary_rows arr is (total_add (arr i) tot)) (\<lambda>(tot, rows).
             Inr (tot, row @ rows))))"

definition summary_stat :: "(nat \<Rightarrow> TLStatistic) \<Rightarrow> nat \<Rightarrow> u32 \<Rightarrow> u32 \<Rightarrow> (TLStatistic \<times> string) res" where
  "summary_stat arr len this_pid p_pid =
     rbind (render
       (CRLF @ '' >>>>>>>>>>>>>>>>>> Statistic (pid:%u from:%u) >>>>>>>>>>>>>>>>>>>>>>>>>>>>'' @ CRLF)
       [VInt (uint this_pid), VInt (uint p_pid)]) (\<lambda>head.
     rbind (summary_rows arr [0..<len] stat_init) (\<lambda>(tot, rows). Inr (tot, head @ rows)))"

definition csv_header :: string where
  "csv_header =
     ''TID,Start,Join,Alloc,Dealloc,Lock,Unlock,Cond Wait,Cond Signal,Cond BC,'' @
     ''R1,R2,R4,R8,W1,W2,W4,W8,'' @
     ''RW,RR,Stack ACC,Stack Range ACC,Func Call, Ptr Prop'' @
     ''Total,size'' @ CRLF"

definition csv_row :: "nat \<Rightarrow> TLStatistic \<Rightarrow> string res" where
  "csv_row i s = render
     (''%d,%llu,%llu,%llu,%llu,%llu,%llu,%llu,%llu,%llu,'' @
      ''%llu,%llu,%llu,%llu,%llu,%llu,%llu,%llu,'' @
      ''%llu,%llu,%llu,%llu,%llu,%llu,%llu, %llu'' @ CRLF)
     (column_args (int i) s)"

fun csv_rows :: "(nat \<Rightarrow> TLStatistic) \<Rightarrow> nat list \<Rightarrow> string res" where
  "csv_rows arr [] = Inr []"
| "csv_rows arr (i # is) =
     (if stat_size (arr i) < 1 then csv_rows arr is
      else rbind (csv_row i (arr i)) (\<lambda>row. rbind (csv_rows arr is) (\<lambda>rows. Inr (row @ rows))))"

definition print_csv :: "(nat \<Rightarrow> TLStatistic) \<Rightarrow> nat \<Rightarrow> u32 \<Rightarrow> u32 \<Rightarrow> string res" where
  "print_csv arr len this_pid p_pid =
     rbind (render (''%u -> %u'' @ CRLF) [VInt (uint p_pid), VInt (uint this_pid)]) (\<lambda>l1.
     rbind (csv_rows arr [0..<len]) (\<lambda>rows. Inr (l1 @ csv_header @ rows)))"

section \<open>Totals\<close>

lemma sizes_of_structs [simp]:
  "stat_size s =
     c_start s * 19 + c_join s * 19 + c_alloc s * 17 + c_dealloc s * 17 + c_lock s * 13 + c_unlock s * 13
     + c_cond_wait s * 25 + c_cond_signal s * 19 + c_cond_bc s * 19 + c_range_w s * 4 + c_range_r s * 4
     + c_read s 0 * 14 + c_read s 1 * 15 + c_read s 2 * 17 + c_read s 3 * 21
     + c_write s 0 * 14 + c_write s 1 * 15 + c_write s 2 * 17 + c_write s 3 * 21
     + c_func_call s * 8 + c_ptr_prop s * 13"
  by (simp add: stat_size_def sizeof_enum_def)

lemma total_add_size: "stat_size (total_add a t) = stat_size t + stat_size a"
  by (simp add: total_add_def algebra_simps)

lemma stat_init_size: "stat_size stat_init = 0"
  by (simp add: stat_init_def)

lemma summary_rows_size:
  "summary_rows arr ks t = Inr (t', rows) \<Longrightarrow> stat_size t' = stat_size t + (\<Sum>i\<leftarrow>ks. stat_size (arr i))"
proof (induction ks arbitrary: t t' rows)
  case (Cons k ks)
  show ?case
  proof (cases "stat_used (arr k)")
    case True
    then obtain rows' where "summary_rows arr ks (total_add (arr k) t) = Inr (t', rows')"
      using Cons.prems by auto
    from Cons.IH [OF this] show ?thesis
      by (simp only: total_add_size) (simp add: add.assoc)
  next
    case False
    then show ?thesis
      using Cons.prems Cons.IH [of t t' rows] by (simp add: stat_used_def del: sizes_of_structs)
  qed
qed simp

section \<open>The printed rows\<close>

definition dec :: "nat \<Rightarrow> string" where
  "dec v = map (digit_char False) (rev (num_digits 10 v))"

lemma dec_chars: "c \<in> set (dec v) \<Longrightarrow> IsDigit c"
  using num_digits_less [of _ v] by (fastforce simp: dec_def IsDigit_def digit_char_of)

lemma render_llu:
  "render (CHR ''%'' # CHR ''l'' # CHR ''l'' # CHR ''u'' # rest) (VInt (uint (w :: u64)) # args) =
   rbind (render rest args) (\<lambda>t. Inr (dec (unat w) @ t))"
proof -
  have "directive_text (CHR ''l'' # CHR ''l'' # CHR ''u'' # rest) (VInt (uint w) # args) =
      Inr (rest, args, dec (unat w))"
    by (simp add: directive_text_def parse_flags_def parse_length_def is_digit_def convert_text_def
        va_unsigned_def number_res_def number_text_plain dec_def)
  then show ?thesis by simp
qed

lemma render_d:
  assumes "i < 2 ^ 31"
  shows "render (CHR ''%'' # CHR ''d'' # rest) (VInt (int i) # args) =
         rbind (render rest args) (\<lambda>t. Inr (dec i @ t))"
proof -
  have "sint (word_of_int (int i) :: u32) = int i"
    using assms by (simp add: signed_of_nat signed_take_bit_int_eq_self)
  moreover have "unat (word_of_int (int i) :: u64) = i"
    using assms by (simp add: unsigned_of_nat take_bit_nat_eq_self)
  ultimately have "directive_text (CHR ''d'' # rest) (VInt (int i) # args) = Inr (rest, args, dec i)"
    by (simp add: directive_text_def parse_flags_def parse_length_def is_digit_def convert_text_def
        va_int_def signed_res_def number_res_def number_text_plain dec_def)
  then show ?thesis by simp
qed

lemma render_plain: "render [] args = Inr []"
  "c \<noteq> CHR ''%'' \<Longrightarrow> render (c # cs) args = rbind (render cs args) (\<lambda>t. Inr (c # t))"
  by simp_all

lemma render_u:
  "render (CHR ''%'' # CHR ''u'' # rest) (VInt (uint (w :: u32)) # args) =
   rbind (render rest args) (\<lambda>t. Inr (dec (unat w) @ t))"
proof -
  have "unat w < 2 ^ LENGTH(32)" by (rule unsigned_less)
  then have "take_bit 64 (unat w) = unat w" by (simp add: take_bit_nat_eq_self)
  then have "directive_text (CHR ''u'' # rest) (VInt (uint w) # args) = Inr (rest, args, dec (unat w))"
    by (simp add: directive_text_def parse_flags_def parse_length_def is_digit_def convert_text_def
        va_unsigned_def number_res_def number_text_plain dec_def unsigned_ucast_eq)
  then show ?thesis by simp
qed

lemma print_state_total:
  assumes "i < 2 ^ 31"
  shows "\<exists>row. print_state_text (int i) s = Inr row"
  using assms by (simp add: print_state_text_def column_args_def stat_columns_def CRLF_def render_llu render_d render_plain
      del: sizes_of_structs render.simps(2))

lemma summary_rows_total:
  "\<forall>i\<in>set ks. i < 2 ^ 31 \<Longrightarrow> \<exists>t' rows. summary_rows arr ks t = Inr (t', rows)"
proof (induction ks arbitrary: t)
  case (Cons k ks)
  obtain row where "print_state_text (int k) (arr k) = Inr row" using print_state_total Cons.prems by fastforce
  moreover obtain t' rows where "summary_rows arr ks (total_add (arr k) t) = Inr (t', rows)" using Cons by fastforce
  moreover obtain t'' rows' where "summary_rows arr ks t = Inr (t'', rows')" using Cons by fastforce
  ultimately show ?case by simp
qed simp

definition commas :: "string \<Rightarrow> nat" where
  "commas s = length (filter (\<lambda>c. c = CHR '','') s)"

lemma commas_simps [simp]:
  "commas [] = 0" "commas (c # s) = (if c = CHR '','' then Suc (commas s) else commas s)"
  "commas (s @ t) = commas s + commas t"
  by (simp_all add: commas_def)

lemma commas_dec [simp]: "commas (dec v) = 0"
proof -
  have "CHR '','' \<notin> set (dec v)" using dec_chars [of "CHR '',''" v] by (auto simp: IsDigit_def)
  then show ?thesis by (auto simp: commas_def filter_empty_conv)
qed

lemma csv_row_commas:
  assumes "i < 2 ^ 31"
  shows "\<exists>row. csv_row i s = Inr row \<and> commas row = 25"
  using assms by (simp add: csv_row_def column_args_def stat_columns_def CRLF_def render_llu render_d render_plain
      del: sizes_of_structs render.simps(2))

lemma csv_header_commas: "commas csv_header = 24"
  by (simp add: csv_header_def CRLF_def)

section \<open>Properties\<close>

text \<open>
  The totals of \<^verbatim>\<open>summary_stat\<close> account for every byte: the size of the total is the sum (modulo
  \<open>2\<^sup>6\<^sup>4\<close>) of the sizes of all threads, although threads without events are skipped.
\<close>

theorem summary_accounts_for_all:
  assumes "len \<le> 2 ^ 31"
  shows "\<exists>tot txt. summary_stat arr len this_pid ppid = Inr (tot, txt)
    \<and> stat_size tot = (\<Sum>i\<leftarrow>[0..<len]. stat_size (arr i))"
proof -
  obtain head where h: "render
      (CRLF @ '' >>>>>>>>>>>>>>>>>> Statistic (pid:%u from:%u) >>>>>>>>>>>>>>>>>>>>>>>>>>>>'' @ CRLF)
      [VInt (uint this_pid), VInt (uint ppid)] = Inr head"
    by (simp add: CRLF_def render_u render_plain del: render.simps(2))
  have "\<forall>i\<in>set [0..<len]. i < 2 ^ 31" using assms by auto
  then obtain tot rows where r: "summary_rows arr [0..<len] stat_init = Inr (tot, rows)"
    using summary_rows_total by blast
  from summary_rows_size [OF r] show ?thesis
    using h r by (simp only: summary_stat_def rbind_simps prod.case stat_init_size add_0_left) blast
qed

theorem summary_accounts_for_all_witness:
  "\<exists>tot txt. summary_stat (\<lambda>i. stat_init\<lparr>c_lock := of_nat i\<rparr>) 3 7 1 = Inr (tot, txt) \<and> stat_size tot = 39"
proof -
  let ?arr = "\<lambda>i. stat_init\<lparr>c_lock := of_nat i\<rparr>"
  have "[0..<3] = [0, 1, 2]" by (simp add: upt_rec)
  then have "(\<Sum>i\<leftarrow>[0..<3]. stat_size (?arr i)) = 39" by (simp add: stat_init_def)
  then show ?thesis using summary_accounts_for_all [of 3 ?arr 7 1] by (simp del: sizes_of_structs)
qed

text \<open>
  A row of the CSV report has 26 columns whatever the counters are, while the header line
  names 25: the separator between the last two event columns is missing from it.
\<close>

theorem csv_header_misses_column:
  assumes "i < 2 ^ 31"
  shows "\<exists>row. csv_row i s = Inr row \<and> commas row = Suc (commas csv_header)"
  using csv_row_commas [OF assms, of s] by (simp add: csv_header_commas)

theorem csv_header_misses_column_witness:
  "\<exists>row. csv_row 3 stat_init = Inr row \<and> commas row = Suc (commas csv_header)"
  using csv_header_misses_column [of 3 stat_init] by simp

end
