(* ===== verification/Ufo_Loop.thy ===== *)
theory Ufo_Loop
  imports Ufo_Prelude
begin

text \<open>
  Loops whose end is not evident from their text. A run is \<^term>\<open>None\<close> when the program does
  not come back, and otherwise the result of the last step or the fault it ended in. The
  combinator \<open>loop\<close> repeats a step that either asks for another round or yields a result; the
  rule \<open>loop_rule\<close> proves from an invariant and a measure that it does come back.
\<close>

type_synonym 'a run = "'a res option"

definition lift :: "'a res \<Rightarrow> 'a run" where
  "lift r = Some r"

definition obind :: "'a run \<Rightarrow> ('a \<Rightarrow> 'b run) \<Rightarrow> 'b run" where
  "obind m f = (case m of None \<Rightarrow> None | Some (Inl e) \<Rightarrow> Some (Inl e) | Some (Inr x) \<Rightarrow> f x)"

lemma obind_simps [simp]:
  "obind None f = None" "obind (Some (Inl e)) f = Some (Inl e)" "obind (Some (Inr x)) f = f x"
  "obind (lift (Inl e)) f = Some (Inl e)" "obind (lift (Inr x)) f = f x"
  by (simp_all add: obind_def lift_def)

datatype ('s, 'r) round = Again 's | Done 'r

partial_function (option) loop :: "('s \<Rightarrow> ('s, 'r) round run) \<Rightarrow> 's \<Rightarrow> 'r run" where
  "loop step s =
     (case step s of
        None \<Rightarrow> None
      | Some (Inl e) \<Rightarrow> Some (Inl e)
      | Some (Inr (Again s')) \<Rightarrow> loop step s'
      | Some (Inr (Done r)) \<Rightarrow> Some (Inr r))"

declare loop.simps [code]

lemma loop_Again: "step s = Some (Inr (Again s')) \<Longrightarrow> loop step s = loop step s'"
  by (subst loop.simps) simp

lemma loop_Done: "step s = Some (Inr (Done r)) \<Longrightarrow> loop step s = Some (Inr r)"
  by (subst loop.simps) simp

lemma loop_rule:
  fixes m :: "'s \<Rightarrow> nat"
  assumes "I s"
    and "\<And>s. I s \<Longrightarrow> (\<exists>s'. step s = Some (Inr (Again s')) \<and> I s' \<and> m s' < m s)
                    \<or> (\<exists>r. step s = Some (Inr (Done r)) \<and> Q r)"
  shows "\<exists>r. loop step s = Some (Inr r) \<and> Q r"
  using assms(1)
proof (induction "m s" arbitrary: s rule: less_induct)
  case less
  from assms(2) [OF less.prems] show ?case
  proof (elim disjE exE conjE)
    fix s' assume "step s = Some (Inr (Again s'))" "I s'" "m s' < m s"
    then show ?thesis using less.hyps [of s'] by (simp add: loop_Again)
  next
    fix r assume "step s = Some (Inr (Done r))" "Q r"
    then show ?thesis by (simp add: loop_Done)
  qed
qed

end
