(* ===== verification/Snappy_Format.thy ===== *)
theory Snappy_Format
  imports Ufo_Loop
begin

text \<open>
  What the compressor and the decompressor of \<^verbatim>\<open>snappy/\<close> share: loads from memory, the bit
  scans and variable-length integers of \<^verbatim>\<open>snappy-stubs-internal.h\<close> (the build defines neither
  \<^verbatim>\<open>HAVE_CONFIG_H\<close> nor SSSE3, so the portable versions), the tag table of
  \<^verbatim>\<open>snappy-internal.h\<close>, the byte sources of \<^verbatim>\<open>snappy-sinksource.h\<close>, and a reference decoder of
  the format on plain lists. Pointers into an array are indices; \<open>loadn\<close> and \<open>read_at\<close> fail on
  a read outside the array.
\<close>

section \<open>Memory\<close>

definition read_at :: "byte list \<Rightarrow> nat \<Rightarrow> nat \<Rightarrow> byte list res" where
  "read_at xs i n = (if i + n \<le> length xs then Inr (take n (drop i xs)) else Inl ObjectOverread)"

definition Load32 :: "byte list \<Rightarrow> nat \<Rightarrow> u32 res" where
  "Load32 xs i = rbind (read_at xs i 4) (\<lambda>bs. Inr (ucast (le_word bs)))"

definition Load64 :: "byte list \<Rightarrow> nat \<Rightarrow> u64 res" where
  "Load64 xs i = rbind (read_at xs i 8) (\<lambda>bs. Inr (le_word bs))"

section \<open>Bit scans\<close>

fun log2_loop :: "nat list \<Rightarrow> u32 \<Rightarrow> nat \<Rightarrow> u32 \<times> nat" where
  "log2_loop [] value log = (value, log)"
| "log2_loop (i # is) value log =
     (let shift = 2 ^ i; x = drop_bit shift value
      in if x \<noteq> 0 then log2_loop is x (log + shift) else log2_loop is value log)"

definition Log2Floor :: "u32 \<Rightarrow> int res" where
  "Log2Floor n =
     (if n = 0 then Inr (- 1)
      else (let (value, log) = log2_loop [4, 3, 2, 1, 0] n 0
            in rbind (check (value = 1)) (\<lambda>_. Inr (int log))))"

fun lsb_loop :: "nat list \<Rightarrow> u32 \<Rightarrow> nat \<Rightarrow> nat" where
  "lsb_loop [] n rc = rc"
| "lsb_loop (shift # ss) n rc =
     (let x = push_bit shift n in if x \<noteq> 0 then lsb_loop ss x (rc - shift) else lsb_loop ss n rc)"

definition FindLSBSetNonZero :: "u32 \<Rightarrow> nat" where
  "FindLSBSetNonZero n = lsb_loop [16, 8, 4, 2, 1] n 31"

definition FindLSBSetNonZero64 :: "u64 \<Rightarrow> nat" where
  "FindLSBSetNonZero64 n =
     (let bottombits = (ucast n :: u32)
      in if bottombits = 0 then 32 + FindLSBSetNonZero (ucast (drop_bit 32 n))
         else FindLSBSetNonZero bottombits)"

section \<open>Variable-length integers\<close>

definition Encode32 :: "u32 \<Rightarrow> byte list" where
  "Encode32 v =
     (if v < 2 ^ 7 then [ucast v]
      else if v < 2 ^ 14 then [ucast (v OR 128), ucast (drop_bit 7 v)]
      else if v < 2 ^ 21 then [ucast (v OR 128), ucast (drop_bit 7 v OR 128), ucast (drop_bit 14 v)]
      else if v < 2 ^ 28 then
        [ucast (v OR 128), ucast (drop_bit 7 v OR 128), ucast (drop_bit 14 v OR 128), ucast (drop_bit 21 v)]
      else [ucast (v OR 128), ucast (drop_bit 7 v OR 128), ucast (drop_bit 14 v OR 128),
            ucast (drop_bit 21 v OR 128), ucast (drop_bit 28 v)])"

text \<open>\<open>next_byte\<close> is the test \<^verbatim>\<open>ptr >= limit\<close> with the load that follows it.\<close>

definition next_byte :: "byte list \<Rightarrow> (byte \<Rightarrow> byte list \<Rightarrow> 'a option) \<Rightarrow> 'a option" where
  "next_byte p f = (case p of [] \<Rightarrow> None | b # p \<Rightarrow> f b p)"

definition Parse32WithLimit :: "byte list \<Rightarrow> (u32 \<times> byte list) option" where
  "Parse32WithLimit p =
     next_byte p (\<lambda>b p. let result = ucast b AND 127 in if b < 128 then Some (result, p) else
     next_byte p (\<lambda>b p. let result = result OR push_bit 7 (ucast b AND 127) in if b < 128 then Some (result, p) else
     next_byte p (\<lambda>b p. let result = result OR push_bit 14 (ucast b AND 127) in if b < 128 then Some (result, p) else
     next_byte p (\<lambda>b p. let result = result OR push_bit 21 (ucast b AND 127) in if b < 128 then Some (result, p) else
     next_byte p (\<lambda>b p. let result = result OR push_bit 28 (ucast b AND 127) in if b < 16 then Some (result, p)
       else None)))))"

section \<open>Tags\<close>

definition LITERAL :: u32 where "LITERAL = 0"
definition COPY_1_BYTE_OFFSET :: u64 where "COPY_1_BYTE_OFFSET = 1"
definition COPY_2_BYTE_OFFSET :: u32 where "COPY_2_BYTE_OFFSET = 2"
definition kMaximumTagLength :: nat where "kMaximumTagLength = 5"

definition char_table :: "nat list" where
  "char_table =
  [0x0001, 0x0804, 0x1001, 0x2001, 0x0002, 0x0805, 0x1002, 0x2002,
   0x0003, 0x0806, 0x1003, 0x2003, 0x0004, 0x0807, 0x1004, 0x2004,
   0x0005, 0x0808, 0x1005, 0x2005, 0x0006, 0x0809, 0x1006, 0x2006,
   0x0007, 0x080a, 0x1007, 0x2007, 0x0008, 0x080b, 0x1008, 0x2008,
   0x0009, 0x0904, 0x1009, 0x2009, 0x000a, 0x0905, 0x100a, 0x200a,
   0x000b, 0x0906, 0x100b, 0x200b, 0x000c, 0x0907, 0x100c, 0x200c,
   0x000d, 0x0908, 0x100d, 0x200d, 0x000e, 0x0909, 0x100e, 0x200e,
   0x000f, 0x090a, 0x100f, 0x200f, 0x0010, 0x090b, 0x1010, 0x2010,
   0x0011, 0x0a04, 0x1011, 0x2011, 0x0012, 0x0a05, 0x1012, 0x2012,
   0x0013, 0x0a06, 0x1013, 0x2013, 0x0014, 0x0a07, 0x1014, 0x2014,
   0x0015, 0x0a08, 0x1015, 0x2015, 0x0016, 0x0a09, 0x1016, 0x2016,
   0x0017, 0x0a0a, 0x1017, 0x2017, 0x0018, 0x0a0b, 0x1018, 0x2018,
   0x0019, 0x0b04, 0x1019, 0x2019, 0x001a, 0x0b05, 0x101a, 0x201a,
   0x001b, 0x0b06, 0x101b, 0x201b, 0x001c, 0x0b07, 0x101c, 0x201c,
   0x001d, 0x0b08, 0x101d, 0x201d, 0x001e, 0x0b09, 0x101e, 0x201e,
   0x001f, 0x0b0a, 0x101f, 0x201f, 0x0020, 0x0b0b, 0x1020, 0x2020,
   0x0021, 0x0c04, 0x1021, 0x2021, 0x0022, 0x0c05, 0x1022, 0x2022,
   0x0023, 0x0c06, 0x1023, 0x2023, 0x0024, 0x0c07, 0x1024, 0x2024,
   0x0025, 0x0c08, 0x1025, 0x2025, 0x0026, 0x0c09, 0x1026, 0x2026,
   0x0027, 0x0c0a, 0x1027, 0x2027, 0x0028, 0x0c0b, 0x1028, 0x2028,
   0x0029, 0x0d04, 0x1029, 0x2029, 0x002a, 0x0d05, 0x102a, 0x202a,
   0x002b, 0x0d06, 0x102b, 0x202b, 0x002c, 0x0d07, 0x102c, 0x202c,
   0x002d, 0x0d08, 0x102d, 0x202d, 0x002e, 0x0d09, 0x102e, 0x202e,
   0x002f, 0x0d0a, 0x102f, 0x202f, 0x0030, 0x0d0b, 0x1030, 0x2030,
   0x0031, 0x0e04, 0x1031, 0x2031, 0x0032, 0x0e05, 0x1032, 0x2032,
   0x0033, 0x0e06, 0x1033, 0x2033, 0x0034, 0x0e07, 0x1034, 0x2034,
   0x0035, 0x0e08, 0x1035, 0x2035, 0x0036, 0x0e09, 0x1036, 0x2036,
   0x0037, 0x0e0a, 0x1037, 0x2037, 0x0038, 0x0e0b, 0x1038, 0x2038,
   0x0039, 0x0f04, 0x1039, 0x2039, 0x003a, 0x0f05, 0x103a, 0x203a,
   0x003b, 0x0f06, 0x103b, 0x203b, 0x003c, 0x0f07, 0x103c, 0x203c,
   0x0801, 0x0f08, 0x103d, 0x203d, 0x1001, 0x0f09, 0x103e, 0x203e,
   0x1801, 0x0f0a, 0x103f, 0x203f, 0x2001, 0x0f0b, 0x1040, 0x2040]"

definition wordmask :: "u32 list" where
  "wordmask = [0, 0xff, 0xffff, 0xffffff, 0xffffffff]"

definition MaxCompressedLength :: "nat \<Rightarrow> nat" where
  "MaxCompressedLength source_len = 32 + source_len + source_len div 6"

section \<open>Byte sources\<close>

text \<open>
  The virtual functions of \<^verbatim>\<open>class Source\<close> as a record, and the one implementation of it,
  \<^verbatim>\<open>ByteArraySource\<close>, whose state is the list of the bytes that are left.
\<close>

record 's source =
  Available :: "'s \<Rightarrow> nat"
  Peek :: "'s \<Rightarrow> byte list"
  Skip :: "nat \<Rightarrow> 's \<Rightarrow> 's"

definition ByteArraySource :: "byte list source" where
  "ByteArraySource = \<lparr>Available = length, Peek = (\<lambda>s. s), Skip = drop\<rparr>"

text \<open>
  What \<^verbatim>\<open>Source\<close> promises: \<open>content\<close> is what is left to read, \<^verbatim>\<open>Peek\<close> shows a prefix of it that
  is not empty unless the source is, and \<^verbatim>\<open>Skip\<close> may drop what \<^verbatim>\<open>Peek\<close> shows.
\<close>

locale byte_source =
  fixes S :: "'s source" and content :: "'s \<Rightarrow> byte list"
  assumes available: "Available S r = length (content r)"
    and peek_prefix: "take (length (Peek S r)) (content r) = Peek S r"
    and peek_some: "content r \<noteq> [] \<Longrightarrow> Peek S r \<noteq> []"
    and skip: "n \<le> length (Peek S r) \<Longrightarrow> content (Skip S n r) = drop n (content r)"
begin

lemma peek_take: "n \<le> length (Peek S r) \<Longrightarrow> take n (Peek S r) = take n (content r)"
  by (metis peek_prefix take_take min.absorb1)

lemma peek_le: "length (Peek S r) \<le> length (content r)"
  by (metis peek_prefix length_take min.cobounded1)

end

interpretation array_source: byte_source ByteArraySource "\<lambda>s. s"
  by unfold_locales (simp_all add: ByteArraySource_def)

section \<open>A reference decoder\<close>

text \<open>
  Copying within the output: one byte at a time from \<open>off\<close> bytes back, so that a copy may
  overlap what it produces.
\<close>

fun copy_back :: "nat \<Rightarrow> nat \<Rightarrow> byte list \<Rightarrow> byte list" where
  "copy_back off 0 out = out"
| "copy_back off (Suc n) out = copy_back off n (out @ [out ! (length out - off)])"

text \<open>
  What the format means: \<open>decode lim s out\<close> appends to \<open>out\<close> what the elements of \<open>s\<close> stand
  for, and is undefined on a malformed stream or when more than \<open>lim\<close> bytes would be produced.
  A literal length is stored in 32 bits minus one, so its increment wraps.
\<close>

definition extra :: "byte \<Rightarrow> nat" where
  "extra c = char_table ! unat c div 2048"

definition literal_length :: "byte \<Rightarrow> byte list \<Rightarrow> nat" where
  "literal_length c ext = (if ext = [] then unat c div 4 + 1 else unat (ucast (le_word ext) + 1 :: u32))"

definition copy_offset :: "byte \<Rightarrow> byte list \<Rightarrow> nat" where
  "copy_offset c ext = (char_table ! unat c AND 0x700) + unat (le_word ext)"

definition copy_length :: "byte \<Rightarrow> nat" where
  "copy_length c = char_table ! unat c mod 256"

function decode :: "nat \<Rightarrow> byte list \<Rightarrow> byte list \<Rightarrow> byte list option" where
  "decode lim [] out = Some out"
| "decode lim (c # s) out =
     (let ext = take (extra c) s; s = drop (extra c) s
      in if length ext < extra c then None
         else if c AND 3 = 0 then
           (let n = literal_length c ext
            in if length s < n \<or> lim < length out + n then None
               else decode lim (drop n s) (out @ take n s))
         else
           (let off = copy_offset c ext; n = copy_length c
            in if off = 0 \<or> length out < off \<or> lim < length out + n then None
               else decode lim s (copy_back off n out)))"
  by pat_completeness auto
termination by (relation "measure (\<lambda>(lim, s, out). length s)") auto

text \<open>What a compressed buffer means, by the reference decoder.\<close>

definition uncompressed :: "byte list \<Rightarrow> byte list option" where
  "uncompressed c =
     (case Parse32WithLimit c of
        None \<Rightarrow> None
      | Some (n, s) \<Rightarrow>
          (case decode (unat n) s [] of
             None \<Rightarrow> None
           | Some out \<Rightarrow> if length out = unat n then Some out else None))"

section \<open>The tag table\<close>

text \<open>What the comment above the table says its entries are.\<close>

definition table_entry :: "nat \<Rightarrow> nat" where
  "table_entry c =
     (if c mod 4 = 0 then (if c div 4 < 60 then c div 4 + 1 else (c div 4 - 59) * 2048 + 1)
      else if c mod 4 = 1 then 2048 + (c div 32) * 256 + (c div 4 mod 8 + 4)
      else if c mod 4 = 2 then 2 * 2048 + (c div 4 + 1)
      else 4 * 2048 + (c div 4 + 1))"

lemma char_table_eq: "char_table = map table_entry [0..<256]"
proof -
  have "[0..<256] = 0 # 1 # [2..<256]" by (simp add: upt_conv_Cons)
  then show ?thesis by (simp add: char_table_def table_entry_def)
qed

lemma unat_byte_less [simp]: "unat (c :: byte) < 256"
  using unsigned_less [of c] by simp

lemma char_table_nth: "char_table ! unat (c :: byte) = table_entry (unat c)"
  by (simp add: char_table_eq)

lemma and_3_mod_4: "(c :: byte) AND 3 = 0 \<longleftrightarrow> unat c mod 4 = 0"
proof -
  have "unat (take_bit 2 c) = unat c mod 4" unfolding unsigned_take_bit_eq by (simp add: take_bit_eq_mod)
  moreover have "c AND 3 = take_bit 2 c" by (simp add: take_bit_eq_mask mask_eq_exp_minus_1)
  ultimately show ?thesis by (metis unat_eq_zero)
qed

lemma extra_le: "extra c \<le> 4"
proof -
  have "list_all (\<lambda>e. e div 2048 \<le> 4) char_table" by (simp add: char_table_def)
  then show ?thesis by (simp add: extra_def list_all_length char_table_eq)
qed

section \<open>Variable-length integers, correct\<close>

lemma and_127: "(x :: u32) AND 127 = take_bit 7 x"
  by (simp add: take_bit_eq_mask mask_eq_exp_minus_1)


lemma take_bit_unat_self: "unat (w :: 'a::len word) < 2 ^ k \<Longrightarrow> take_bit k w = w"
  by (rule unsigned_word_eqI [where ?'a = nat]) (simp add: unsigned_take_bit_eq take_bit_nat_eq_self)

lemma unat_2p: "k < LENGTH('a::len) \<Longrightarrow> unat (2 ^ k :: 'a word) = 2 ^ k"
proof -
  assume "k < LENGTH('a)"
  then have "(2 :: nat) ^ k < 2 ^ LENGTH('a)" by simp
  then have "unat (of_nat (2 ^ k) :: 'a word) = 2 ^ k" by (simp only: unsigned_of_nat take_bit_nat_eq_self of_nat_id)
  then show ?thesis by simp
qed

lemma bit_128: "bit (128 :: u32) n \<longleftrightarrow> n = 7" "bit (128 :: byte) n \<longleftrightarrow> n = 7"
proof -
  have "(128 :: u32) = 2 ^ 7" "(128 :: byte) = 2 ^ 7" by simp_all
  then show "bit (128 :: u32) n \<longleftrightarrow> n = 7" "bit (128 :: byte) n \<longleftrightarrow> n = 7" by (simp_all only: bit_exp_iff) auto
qed

lemma group_more:
  "(ucast (ucast (w OR 128 :: u32) :: byte) AND 127 :: u32) = take_bit 7 w" "\<not> (ucast (w OR 128 :: u32) :: byte) < 128"
proof -
  have "take_bit 7 (ucast (ucast (w OR k :: u32) :: byte) :: u32) = take_bit 7 w" if "\<And>n. bit k n \<longleftrightarrow> n = 7" for k :: u32
    by (rule bit_word_eqI) (auto simp: bit_or_iff bit_ucast_iff bit_take_bit_iff that)
  then show "(ucast (ucast (w OR 128 :: u32) :: byte) AND 127 :: u32) = take_bit 7 w"
    unfolding and_127 using bit_128 by blast
  have b: "bit (ucast (w OR 128 :: u32) :: byte) 7" by (simp add: bit_or_iff bit_ucast_iff bit_128)
  show "\<not> (ucast (w OR 128 :: u32) :: byte) < 128"
  proof
    assume "(ucast (w OR 128 :: u32) :: byte) < 128"
    then have "unat (ucast (w OR 128 :: u32) :: byte) < 2 ^ 7" unfolding word_less_nat_alt by simp
    from take_bit_unat_self [OF this] b show False by (metis bit_take_bit_iff less_irrefl)
  qed
qed

lemma group_last:
  assumes "w < 2 ^ k" "k \<le> 7"
  shows "(ucast (ucast (w :: u32) :: byte) AND 127 :: u32) = w" "(ucast w :: byte) < 2 ^ k"
proof -
  have u: "unat w < 2 ^ k" using assms by (simp add: word_less_nat_alt unat_2p)
  then have t: "take_bit k w = w" by (rule take_bit_unat_self)
  have "bit w n \<Longrightarrow> n < k" for n using t by (metis bit_take_bit_iff)
  then show "(ucast (ucast (w :: u32) :: byte) AND 127 :: u32) = w"
    unfolding and_127 using assms(2) 
    by (intro bit_word_eqI) (fastforce simp: bit_ucast_iff bit_take_bit_iff)
  have "(2 :: nat) ^ k \<le> 2 ^ 7" using assms(2) by (intro power_increasing) simp_all
  then have "unat (ucast w :: byte) = unat w" using u by (simp add: unsigned_ucast_eq take_bit_nat_eq_self)
  then show "(ucast w :: byte) < 2 ^ k" using u assms(2) by (simp add: word_less_nat_alt unat_2p)
qed

lemma drop_bit_less:
  assumes "(v :: u32) < 2 ^ (n + k)" "n + k < 32"
  shows "drop_bit n v < 2 ^ k"
proof -
  have "unat v < 2 ^ (n + k)" using assms by (simp add: word_less_nat_alt unat_2p)
  then have "unat v < 2 ^ k * 2 ^ n" by (simp add: power_add mult.commute)
  then have "unat v div 2 ^ n < 2 ^ k" by (simp add: less_mult_imp_div_less)
  moreover have "take_bit LENGTH(32) (unat v) = unat v" by (rule take_bit_nat_eq_self) (rule unsigned_less)
  ultimately show ?thesis using assms(2) unfolding word_less_nat_alt unsigned_drop_bit_eq by (simp add: unat_2p drop_bit_eq_div [where ?'a = nat] take_bit_nat_eq_self)
qed

lemma take_bit_or_drop_bit: "take_bit n v OR push_bit n (drop_bit n v) = (v :: u32)"
proof (rule bit_word_eqI)
  fix i assume "i < LENGTH(32)"
  then show "bit (take_bit n v OR push_bit n (drop_bit n v)) i = bit v i"
    by (cases "i < n") (auto simp: bit_or_iff bit_push_bit_iff bit_take_bit_iff bit_drop_bit_eq)
qed

lemma take_bit_or_push_bit:
  "take_bit n v OR push_bit n (take_bit m (drop_bit n v)) = take_bit (n + m) (v :: u32)"
  by (rule bit_word_eqI) (auto simp: bit_or_iff bit_push_bit_iff bit_take_bit_iff bit_drop_bit_eq)

lemma next_byte_Cons [simp]: "next_byte (b # p) f = f b p"
  by (simp add: next_byte_def)

lemma drop_bit_28: "drop_bit 28 (v :: u32) < 2 ^ 4"
proof -
  have "unat v < 2 ^ LENGTH(32)" by (rule unsigned_less)
  then have "unat v div 2 ^ 28 < 2 ^ 4" by simp
  then show ?thesis unfolding word_less_nat_alt unsigned_drop_bit_eq by (simp add: unat_2p drop_bit_eq_div [where ?'a = nat] take_bit_nat_eq_self)
qed

lemmas groups = group_more [unfolded and_127] take_bit_or_push_bit [where n = 7 and m = 7, simplified] 
   take_bit_or_push_bit [where n = 14 and m = 7, simplified] take_bit_or_push_bit [where n = 21 and m = 7, simplified]
   take_bit_or_drop_bit
lemma Parse_Encode: "Parse32WithLimit (Encode32 v @ rest) = Some (v, rest)"
proof -
  consider "v < 2 ^ 7" | "\<not> v < 2 ^ 7" "v < 2 ^ 14" | "\<not> v < 2 ^ 7" "\<not> v < 2 ^ 14" "v < 2 ^ 21"
    | "\<not> v < 2 ^ 7" "\<not> v < 2 ^ 14" "\<not> v < 2 ^ 21" "v < 2 ^ 28" | "\<not> v < 2 ^ 7" "\<not> v < 2 ^ 14" "\<not> v < 2 ^ 21" "\<not> v < 2 ^ 28"
    by blast
  then show ?thesis
  proof cases
    case 1
    then show ?thesis using group_last [of v 7] by (simp add: Encode32_def Parse32WithLimit_def)
  next
    case 2
    then have "drop_bit 7 v < 2 ^ 7" using drop_bit_less [of v 7 7] by simp
    from group_last [OF this, unfolded and_127] 2 show ?thesis
      unfolding Encode32_def Parse32WithLimit_def and_127 by (simp add: groups Let_def)
  next
    case 3
    then have "drop_bit 14 v < 2 ^ 7" using drop_bit_less [of v 14 7] by simp
    from group_last [OF this, unfolded and_127] 3 show ?thesis
      unfolding Encode32_def Parse32WithLimit_def and_127 by (simp add: groups Let_def)
  next
    case 4
    then have "drop_bit 21 v < 2 ^ 7" using drop_bit_less [of v 21 7] by simp
    from group_last [OF this, unfolded and_127] 4 show ?thesis
      unfolding Encode32_def Parse32WithLimit_def and_127 by (simp add: groups Let_def)
  next
    case 5
    from group_last [OF drop_bit_28, unfolded and_127] 5 show ?thesis
      unfolding Encode32_def Parse32WithLimit_def and_127 by (simp add: groups Let_def)
  qed
qed

section \<open>Bit scans, correct\<close>

text \<open>No bit below \<open>k\<close> is set.\<close>

definition clear_below :: "nat \<Rightarrow> 'a::len word \<Rightarrow> bool" where
  "clear_below k w \<longleftrightarrow> (\<forall>i<k. \<not> bit w i)"

lemma clear_below_push_0:
  assumes "push_bit s (n :: u32) = 0" "s \<le> 32"
  shows "clear_below (32 - s) n"
  unfolding clear_below_def
proof (intro allI impI)
  fix i assume "i < 32 - s"
  then have "\<not> bit (push_bit s n) (i + s)" "i + s < 32" using assms by simp_all
  then show "\<not> bit n i" by (simp add: bit_push_bit_iff)
qed

lemma lsb_stage:
  assumes "n \<noteq> 0" "clear_below (32 - 2 * s) n" "0 < s" "s \<le> 16" "s \<le> rc" "n = push_bit (31 - rc) v" "rc \<le> 31"
  obtains n' rc' where "lsb_loop (s # ss) n rc = lsb_loop ss n' rc'" "n' \<noteq> 0" "clear_below (32 - s) n'"
    "n' = push_bit (31 - rc') v" "rc' \<le> 31" "rc \<le> rc' + s"
proof (cases "push_bit s n = 0")
  case True
  then have "clear_below (32 - s) n" using clear_below_push_0 [of s n] assms by simp
  with True assms show ?thesis by (intro that [of n rc]) simp_all
next
  case False
  have "clear_below (32 - s) (push_bit s n)"
    using assms(2-4) by (auto simp: clear_below_def bit_push_bit_iff)
  with False assms show ?thesis by (intro that [of "push_bit s n" "rc - s"]) (simp_all add: add.commute)
qed

lemma FindLSB_correct:
  assumes "v \<noteq> 0"
  shows "bit v (FindLSBSetNonZero v)" "clear_below (FindLSBSetNonZero v) v" "FindLSBSetNonZero v < 32"
proof -
  have "clear_below (32 - 2 * 16) v" by (simp add: clear_below_def)
  from lsb_stage [OF assms this, of 31 v "[8, 4, 2, 1]"] obtain n1 r1 where
    1: "FindLSBSetNonZero v = lsb_loop [8, 4, 2, 1] n1 r1" "n1 \<noteq> 0" "clear_below (32 - 2 * 8) n1" "n1 = push_bit (31 - r1) v" "r1 \<le> 31" "31 \<le> r1 + 16"
    unfolding FindLSBSetNonZero_def by auto
  from lsb_stage [OF 1(2,3), of r1 v "[4, 2, 1]"] 1 obtain n2 r2 where
    2: "FindLSBSetNonZero v = lsb_loop [4, 2, 1] n2 r2" "n2 \<noteq> 0" "clear_below (32 - 2 * 4) n2" "n2 = push_bit (31 - r2) v" "r2 \<le> 31" "r1 \<le> r2 + 8"
    by auto
  from lsb_stage [OF 2(2,3), of r2 v "[2, 1]"] 1 2 obtain n3 r3 where
    3: "FindLSBSetNonZero v = lsb_loop [2, 1] n3 r3" "n3 \<noteq> 0" "clear_below (32 - 2 * 2) n3" "n3 = push_bit (31 - r3) v" "r3 \<le> 31" "r2 \<le> r3 + 4"
    by auto
  from lsb_stage [OF 3(2,3), of r3 v "[1]"] 1 2 3 obtain n4 r4 where
    4: "FindLSBSetNonZero v = lsb_loop [1] n4 r4" "n4 \<noteq> 0" "clear_below (32 - 2 * 1) n4" "n4 = push_bit (31 - r4) v" "r4 \<le> 31" "r3 \<le> r4 + 2"
    by auto
  from lsb_stage [OF 4(2,3), of r4 v "[]"] 1 2 3 4 obtain n5 r5 where
    5: "FindLSBSetNonZero v = r5" "n5 \<noteq> 0" "clear_below 31 n5" "n5 = push_bit (31 - r5) v" "r5 \<le> 31"
    by auto
  have "bit n5 31"
  proof (rule ccontr)
    assume "\<not> bit n5 31"
    then have "\<not> bit n5 i" for i
      using 5(3) bit_imp_le_length [of n5 i] by (cases "i < 31"; cases "i = 31") (auto simp: clear_below_def)
    with 5(2) show False by (simp add: bit_eq_iff)
  qed
  then show "bit v (FindLSBSetNonZero v)" using 5 by (simp add: bit_push_bit_iff)
  show "clear_below (FindLSBSetNonZero v) v"
    unfolding clear_below_def
  proof (intro allI impI)
    fix i assume "i < FindLSBSetNonZero v"
    then have "\<not> bit n5 (i + (31 - r5))" using 5 by (simp add: clear_below_def)
    then show "\<not> bit v i" using 5 \<open>i < _\<close> by (simp add: bit_push_bit_iff)
  qed
  show "FindLSBSetNonZero v < 32" using 5 by simp
qed

lemma FindLSB64_correct:
  assumes "v \<noteq> 0"
  shows "bit v (FindLSBSetNonZero64 v)" "clear_below (FindLSBSetNonZero64 v) v"
proof -
  let ?lo = "ucast v :: u32" and ?hi = "ucast (drop_bit 32 v) :: u32"
  have "bit v (FindLSBSetNonZero64 v) \<and> clear_below (FindLSBSetNonZero64 v) v"
  proof (cases "?lo = 0")
    case False
    from FindLSB_correct [OF this] show ?thesis
      by (auto simp: FindLSBSetNonZero64_def Let_def False clear_below_def bit_ucast_iff)
  next
    case True
    have low: "\<not> bit v i" if "i < 32" for i using arg_cong [OF True, of "\<lambda>w. bit w i"] that by (simp add: bit_ucast_iff)
    have "?hi \<noteq> 0"
    proof
      assume hi: "?hi = 0"
      have "\<not> bit v i" for i
      proof (cases "i < 32")
        case False
        then show ?thesis using arg_cong [OF hi, of "\<lambda>w. bit w (i - 32)"] bit_imp_le_length [of v i]
          by (auto simp: bit_ucast_iff bit_drop_bit_eq)
      qed (rule low)
      with assms show False by (simp add: bit_eq_iff)
    qed
    from FindLSB_correct [OF this] low show ?thesis
      by (auto simp: FindLSBSetNonZero64_def Let_def True clear_below_def bit_ucast_iff bit_drop_bit_eq)
        (metis add_diff_inverse_nat nat_add_left_cancel_less)
  qed
  then show "bit v (FindLSBSetNonZero64 v)" "clear_below (FindLSBSetNonZero64 v) v" by simp_all
qed

lemma first_difference:
  assumes "length xs = 8" "length ys = 8" "le_word xs \<noteq> le_word ys"
  defines "m \<equiv> FindLSBSetNonZero64 (le_word xs XOR le_word ys) div 8"
  shows "m < 8" "\<forall>i<m. xs ! i = ys ! i" "xs ! m \<noteq> ys ! m"
proof -
  let ?x = "le_word xs XOR le_word ys" let ?l = "FindLSBSetNonZero64 ?x"
  have "?x \<noteq> 0" using assms(3) by (auto simp: bit_eq_iff bit_xor_iff)
  note l = FindLSB64_correct [OF this]
  have lt: "?l < 64" using bit_imp_le_length [OF l(1)] by simp
  then show m: "m < 8" by (simp add: m_def)
  show "\<forall>i<m. xs ! i = ys ! i"
  proof (intro allI impI bit_word_eqI)
    fix i k assume i: "i < m" and k: "k < LENGTH(8)"
    have "8 * i + k < ?l" using i k unfolding m_def by simp
    then have "\<not> bit ?x (8 * i + k)" using l(2) by (simp add: clear_below_def)
    moreover have "(8 * i + k) div 8 = i" "(8 * i + k) mod 8 = k" using k by simp_all
    ultimately show "bit (xs ! i) k = bit (ys ! i) k"
      using i m k by (simp add: bit_xor_iff bit_le_word assms(1,2))
  qed
  show "xs ! m \<noteq> ys ! m" using l(1) lt by (auto simp: bit_xor_iff bit_le_word assms(1,2) m_def)
qed

section \<open>Elements, encoded and decoded\<close>

lemma upt_256: "[0..<256] = 0 # 1 # [2..<256]"
  by (simp add: upt_conv_Cons)

lemma copy_bits_table: "map (\<lambda>e. e AND 0x700) char_table = map (\<lambda>c. if c mod 4 = 1 then c div 32 * 256 else 0) [0..<256]"
  by (simp add: char_table_def upt_256)

lemma extra_table: "map (\<lambda>e. e div 2048) char_table =
    map (\<lambda>c. if c mod 4 = 0 then c div 4 - 59 else if c mod 4 = 1 then 1 else if c mod 4 = 2 then 2 else 4) [0..<256]"
  by (simp add: char_table_def upt_256)

lemma length_table: "map (\<lambda>e. e mod 256) char_table =
    map (\<lambda>c. if c mod 4 = 0 then (if c div 4 < 60 then c div 4 + 1 else 1)
             else if c mod 4 = 1 then c div 4 mod 8 + 4 else c div 4 + 1) [0..<256]"
  by (simp add: char_table_def upt_256)

lemma nth_table:
  assumes "map f char_table = map g [0..<256]"
  shows "f (char_table ! unat (c :: byte)) = g (unat c)"
proof -
  have "map f char_table ! unat c = f (char_table ! unat c)" by (rule nth_map) (simp add: char_table_eq)
  then show ?thesis by (simp add: assms)
qed

lemmas tag_fields = nth_table [OF copy_bits_table] nth_table [OF extra_table, folded extra_def] nth_table [OF length_table, folded copy_length_def]

fun len_bytes :: "nat \<Rightarrow> byte list" where
  "len_bytes n = (if n = 0 then [] else of_nat (n mod 256) # len_bytes (n div 256))"

declare len_bytes.simps [simp del]

definition literal_tag :: "nat \<Rightarrow> byte list" where
  "literal_tag len =
     (let n = len - 1
      in if n < 60 then [of_nat (4 * n)] else of_nat (4 * (59 + length (len_bytes n))) # len_bytes n)"

definition copy_tag :: "nat \<Rightarrow> nat \<Rightarrow> byte list" where
  "copy_tag off len =
     (if len < 12 \<and> off < 2048
      then [of_nat (1 + 4 * (len - 4) + 32 * (off div 256)), of_nat (off mod 256)]
      else [of_nat (2 + 4 * (len - 1)), of_nat (off mod 256), of_nat (off div 256)])"

lemma length_len_bytes: "n < 256 ^ k \<Longrightarrow> length (len_bytes n) \<le> k"
proof (induction k arbitrary: n)
  case 0
  then show ?case by (simp add: len_bytes.simps)
next
  case (Suc k)
  then have "n div 256 < 256 ^ k" by (simp add: less_mult_imp_div_less mult.commute)
  then show ?case using Suc.IH [of "n div 256"] by (subst len_bytes.simps) simp
qed

lemma le_word_Cons_add: "le_word (b # bs) = ucast b + 256 * le_word bs"
proof -
  have "ucast b OR push_bit 8 (le_word bs) = ucast b + push_bit 8 (le_word bs)"
    by (rule disjunctive_add_eq_or [symmetric]) (rule bit_word_eqI, auto simp: bit_and_iff bit_push_bit_iff bit_ucast_iff dest: bit_imp_le_length)
  then show ?thesis by (simp add: push_bit_eq_mult mult.commute)
qed

lemma ucast_of_nat_byte: "n < 256 \<Longrightarrow> ucast (of_nat n :: byte) = (of_nat n :: 'a::len word)"
  by (simp add: unsigned_of_nat take_bit_nat_eq_self)

lemma le_word_len_bytes: "le_word (len_bytes n) = of_nat n"
proof (induction n rule: len_bytes.induct)
  case (1 n)
  show ?case
  proof (cases "n = 0")
    case False
    have "le_word (len_bytes n) = of_nat (n mod 256) + 256 * of_nat (n div 256)"
      using False 1 by (subst len_bytes.simps) (simp add: le_word_Cons_add ucast_of_nat_byte del: le_word.simps)
    also have "\<dots> = of_nat (n mod 256 + 256 * (n div 256))" by (simp only: of_nat_add of_nat_mult of_nat_numeral)
    finally show ?thesis by simp
  qed (simp add: len_bytes.simps)
qed

lemma len_bytes_Nil [simp]: "len_bytes n = [] \<longleftrightarrow> n = 0"
  by (subst len_bytes.simps) simp

lemma unat_of_nat_byte: "n < 256 \<Longrightarrow> unat (of_nat n :: byte) = n"
  by (simp add: unsigned_of_nat take_bit_nat_eq_self)

lemma ucast_of_nat_32: "(ucast (of_nat n :: u64) :: u32) = of_nat n"
  by (simp add: unsigned_of_nat word_of_nat_eq_iff)

lemma decode_literal_tag:
  assumes "extra c = length ext" "c AND 3 = 0" "literal_length c ext = length xs" "length out + length xs \<le> lim"
  shows "decode lim (c # ext @ xs @ rest) out = decode lim rest (out @ xs)"
  using assms by simp

lemma decode_copy_tag:
  assumes "extra c = length ext" "c AND 3 \<noteq> 0" "copy_length c = len" "copy_offset c ext = off"
    "0 < off" "off \<le> length out" "length out + len \<le> lim"
  shows "decode lim (c # ext @ rest) out = decode lim rest (copy_back off len out)"
  using assms by simp

lemma decode_literal:
  assumes "0 < length xs" "length xs < 2 ^ 32" "length out + length xs \<le> lim"
  shows "decode lim (literal_tag (length xs) @ xs @ rest) out = decode lim rest (out @ xs)"
proof (cases "length xs - 1 < 60")
  case True
  define c where "c = (of_nat (4 * (length xs - 1)) :: byte)"
  have u: "unat c = 4 * (length xs - 1)" unfolding c_def using True by (intro unat_of_nat_byte) linarith
  have "extra c = length ([] :: byte list)" "c AND 3 = 0" using u True by (simp_all add: tag_fields and_3_mod_4)
  moreover have "literal_length c [] = length xs" using u assms(1) by (simp add: literal_length_def)
  moreover have "literal_tag (length xs) = [c]" using True by (simp add: literal_tag_def c_def)
  ultimately show ?thesis using decode_literal_tag [of c "[]"] assms(3) by simp
next
  case False
  define n where "n = length xs - 1"
  define e where "e = len_bytes n"
  define c where "c = (of_nat (4 * (59 + length e)) :: byte)"
  have n: "Suc n = length xs" "n < 256 ^ 4" using assms(1,2) by (simp_all add: n_def)
  have k: "0 < length e" "length e \<le> 4" using False length_len_bytes [OF n(2)] by (auto simp: e_def n_def)
  then have u: "unat c = 4 * (59 + length e)" unfolding c_def by (intro unat_of_nat_byte) simp
  then have x: "extra c = length e" "c AND 3 = 0" by (simp_all add: tag_fields and_3_mod_4)
  have "literal_length c e = unat (of_nat n + 1 :: u32)"
    using k by (simp add: literal_length_def e_def le_word_len_bytes ucast_of_nat_32)
  also have "\<dots> = unat (of_nat (length xs) :: u32)" by (simp add: n(1) [symmetric] add.commute)
  also have "\<dots> = length xs" using assms(2) by (simp add: unsigned_of_nat take_bit_nat_eq_self)
  finally have "literal_length c e = length xs" .
  moreover have "literal_tag (length xs) = c # e" using False by (simp add: literal_tag_def c_def e_def n_def Let_def)
  ultimately show ?thesis using decode_literal_tag [OF x] assms(3) by simp
qed

lemma decode_copy:
  assumes "4 \<le> len" "len \<le> 64" "0 < off" "off < 65536" "off \<le> length out" "length out + len \<le> lim"
  shows "decode lim (copy_tag off len @ rest) out = decode lim rest (copy_back off len out)"
proof (cases "len < 12 \<and> off < 2048")
  case True
  define c where "c = (of_nat (1 + 4 * (len - 4) + 32 * (off div 256)) :: byte)"
  define e where "e = [of_nat (off mod 256) :: byte]"
  have q: "off div 256 < 8" using True by (simp add: less_mult_imp_div_less)
  have u: "unat c = 1 + 4 * (len - 4) + 32 * (off div 256)"
    unfolding c_def using True q by (intro unat_of_nat_byte) linarith
  define x where "x = (len - 4) + 8 * (off div 256)"
  have "unat c = 4 * x + 1" "unat c = 32 * (off div 256) + (4 * (len - 4) + 1)" unfolding u x_def by simp_all
  moreover have "4 * (len - 4) + 1 < 32" using True by linarith
  ultimately have m: "unat c mod 4 = 1" "unat c div 4 = x" "unat c div 32 = off div 256"
    by (metis mod_mult_self4 mod_less one_less_numeral_iff semiring_norm(76), simp, simp)
  have "x mod 8 = (len - 4) mod 8" unfolding x_def by (rule mod_mult_self2)
  moreover have "len - 4 < 8" using True by linarith
  ultimately have x8: "x mod 8 = len - 4" by simp
  have x: "extra c = length e" "c AND 3 \<noteq> 0" "copy_length c = len"
    using m x8 assms(1) by (simp_all add: tag_fields and_3_mod_4 e_def)
  have "unat (le_word e) = off mod 256"
    by (simp add: e_def ucast_of_nat_byte) (simp add: unsigned_of_nat take_bit_nat_eq_self)
  then have "copy_offset c e = off div 256 * 256 + off mod 256"
    using m by (simp add: copy_offset_def tag_fields)
  then have "copy_offset c e = off" by simp
  from decode_copy_tag [OF x this assms(3,5,6)] show ?thesis
    using True by (simp add: copy_tag_def c_def e_def)
next
  case False
  define c where "c = (of_nat (2 + 4 * (len - 1)) :: byte)"
  define e where "e = [of_nat (off mod 256), of_nat (off div 256) :: byte]"
  have u: "unat c = 2 + 4 * (len - 1)" unfolding c_def using assms(2) by (intro unat_of_nat_byte) linarith
  have "(4 * y + 2) mod 4 = 2 \<and> (4 * y + 2) div 4 = y" for y :: nat by presburger
  from this [of "len - 1"] have m: "unat c mod 4 = 2" "unat c div 4 = len - 1" unfolding u by (simp_all only: add.commute)
  have x: "extra c = length e" "c AND 3 \<noteq> 0" "copy_length c = len"
    using m assms(1) by (simp_all add: tag_fields and_3_mod_4 e_def)
  have "off div 256 < 256" using assms(4) by (simp add: less_mult_imp_div_less)
  then have "le_word e = of_nat (off mod 256) + 256 * of_nat (off div 256)"
    by (simp add: e_def le_word_Cons_add ucast_of_nat_byte del: le_word.simps(2))
  also have "\<dots> = of_nat (off mod 256 + 256 * (off div 256))" by (simp only: of_nat_add of_nat_mult of_nat_numeral)
  also have "\<dots> = of_nat off" by simp
  finally have "unat (le_word e) = off" using assms(4) by (simp add: unsigned_of_nat take_bit_nat_eq_self)
  then have "copy_offset c e = off" using m by (simp add: copy_offset_def tag_fields)
  from decode_copy_tag [OF x this assms(3,5,6)] show ?thesis
    using False by (auto simp: copy_tag_def c_def e_def)
qed

lemma length_copy_back [simp]: "length (copy_back off n out) = length out + n"
  by (induction n arbitrary: out) simp_all

lemma copy_back_add: "copy_back off (m + n) out = copy_back off n (copy_back off m out)"
  by (induction m arbitrary: out) simp_all

text \<open>A copy reproduces the input it was made from.\<close>

lemma copy_back_snoc:
  "copy_back off (Suc n) out = copy_back off n out @ [copy_back off n out ! (length out + n - off)]"
  using copy_back_add [of off n 1 out] by simp

lemma copy_back_input:
  assumes "cand < ip" "ip + n \<le> length inp" "\<forall>i<n. inp ! (cand + i) = inp ! (ip + i)"
  shows "copy_back (ip - cand) n (out @ take ip inp) = out @ take (ip + n) inp"
  using assms(2,3)
proof (induction n)
  case (Suc n)
  have "copy_back (ip - cand) n (out @ take ip inp) = out @ take (ip + n) inp" using Suc by simp
  then have "copy_back (ip - cand) (Suc n) (out @ take ip inp) = out @ take (ip + n) inp @ [inp ! (cand + n)]"
    using Suc.prems(1) assms(1) unfolding copy_back_snoc by (simp add: nth_append min_absorb2 add.commute)
  also have "inp ! (cand + n) = inp ! (ip + n)" using Suc.prems by simp
  finally show ?case using Suc.prems by (simp add: take_Suc_conv_app_nth)
qed simp

end
