(* ===== verification/Snappy_Copy.thy ===== *)
theory Snappy_Copy
  imports Snappy_Format
begin

text \<open>
  The copies of \<^verbatim>\<open>snappy.cc\<close> within the output of the decompressor: \<^verbatim>\<open>IncrementalCopySlow\<close>, one
  byte at a time, and \<^verbatim>\<open>IncrementalCopy\<close> (the branch without SSSE3), which copies blocks of eight
  bytes, widens a short pattern first and may scribble beyond the end of the copy, but not beyond
  the end of the buffer. Pointers are indices into the block of the output. The fast routine is
  proved to give what \<open>copy_back\<close> gives.
\<close>

section \<open>Copies within the output\<close>

definition read_blk :: "block \<Rightarrow> nat \<Rightarrow> nat \<Rightarrow> byte list res" where
  "read_blk k i n = (if i + n \<le> blk_len k then Inr (map (blk_mem k) [i..<i + n]) else Inl ObjectOverread)"

definition UnalignedCopy64 :: "block \<Rightarrow> nat \<Rightarrow> nat \<Rightarrow> block res" where
  "UnalignedCopy64 k src dst = rbind (read_blk k src 8) (\<lambda>tmp. poke_list k dst tmp)"

definition UnalignedCopy128 :: "byte list \<Rightarrow> block \<Rightarrow> nat \<Rightarrow> block res" where
  "UnalignedCopy128 src dst op = rbind (read_at src 0 16) (\<lambda>tmp. poke_list dst op tmp)"

function IncrementalCopySlow :: "block \<Rightarrow> nat \<Rightarrow> nat \<Rightarrow> nat \<Rightarrow> (block \<times> nat) res" where
  "IncrementalCopySlow k src op op_limit =
     (if op < op_limit then
        rbind (read_blk k src 1) (\<lambda>b. rbind (poke_list k op b) (\<lambda>k. IncrementalCopySlow k (src + 1) (op + 1) op_limit))
      else Inr (k, op_limit))"
  by pat_completeness auto
termination by (relation "measure (\<lambda>(k, src, op, op_limit). op_limit - op)") auto

definition pattern_step :: "nat \<Rightarrow> block \<times> nat \<times> nat \<Rightarrow> (block \<times> nat \<times> nat, block \<times> nat \<times> nat) round run" where
  "pattern_step src = (\<lambda>(k, op, pattern_size).
     lift (if pattern_size < 8 then
             rbind (UnalignedCopy64 k src op) (\<lambda>k. Inr (Again (k, op + pattern_size, pattern_size * 2)))
           else Inr (Done (k, op, pattern_size))))"

text \<open>The loop of two copies a round, until \<open>op\<close> reaches the limit.\<close>

function copy_sixteens :: "block \<Rightarrow> nat \<Rightarrow> nat \<Rightarrow> nat \<Rightarrow> block res" where
  "copy_sixteens k src op op_limit =
     rbind (UnalignedCopy64 k src op) (\<lambda>k.
     rbind (UnalignedCopy64 k (src + 8) (op + 8)) (\<lambda>k.
     if op + 16 < op_limit then copy_sixteens k (src + 16) (op + 16) op_limit else Inr k))"
  by pat_completeness auto
termination by (relation "measure (\<lambda>(k, src, op, op_limit). op_limit - op)") auto

function copy_slop :: "block \<Rightarrow> nat \<Rightarrow> nat \<Rightarrow> nat \<Rightarrow> (block \<times> nat \<times> nat) res" where
  "copy_slop k src op buf_limit =
     (if op + 16 < buf_limit then
        rbind (UnalignedCopy64 k src op) (\<lambda>k.
        rbind (UnalignedCopy64 k (src + 8) (op + 8)) (\<lambda>k.
        copy_slop k (src + 16) (op + 16) buf_limit))
      else Inr (k, src, op))"
  by pat_completeness auto
termination by (relation "measure (\<lambda>(k, src, op, buf_limit). buf_limit - op)") auto

definition copy_blocks :: "block \<Rightarrow> nat \<Rightarrow> nat \<Rightarrow> nat \<Rightarrow> nat \<Rightarrow> (block \<times> nat) res" where
  "copy_blocks k src op op_limit buf_limit =
     (if op_limit + 16 \<le> buf_limit then rbind (copy_sixteens k src op op_limit) (\<lambda>k. Inr (k, op_limit))
      else rbind (copy_slop k src op buf_limit) (\<lambda>(k, src, op).
        if op \<ge> op_limit then Inr (k, op_limit)
        else if op + 8 \<le> buf_limit then
          rbind (UnalignedCopy64 k src op) (\<lambda>k. IncrementalCopySlow k (src + 8) (op + 8) op_limit)
        else IncrementalCopySlow k src op op_limit))"

definition IncrementalCopy :: "block \<Rightarrow> nat \<Rightarrow> nat \<Rightarrow> nat \<Rightarrow> nat \<Rightarrow> (block \<times> nat) run" where
  "IncrementalCopy k src op op_limit buf_limit =
     obind (lift (check (src < op \<and> op \<le> op_limit \<and> op_limit \<le> buf_limit))) (\<lambda>_.
     let pattern_size = op - src
     in if pattern_size < 8 then
          (if op + 11 \<le> buf_limit then
             obind (loop (pattern_step src) (k, op, pattern_size)) (\<lambda>(k, op, pattern_size).
               if op \<ge> op_limit then lift (Inr (k, op_limit)) else
               obind (lift (check (pattern_size \<ge> 8))) (\<lambda>_. lift (copy_blocks k src op op_limit buf_limit)))
           else lift (IncrementalCopySlow k src op op_limit))
        else lift (copy_blocks k src op op_limit buf_limit))"

declare IncrementalCopySlow.simps [simp del] copy_sixteens.simps [simp del] copy_slop.simps [simp del]

section \<open>Copies within the output, correct\<close>

text \<open>
  After a copy from \<open>off\<close> bytes back that started at \<open>op0\<close> and has reached \<open>op\<close>, nothing below
  \<open>op0\<close> has changed and the rest repeats with period \<open>off\<close>.
\<close>

definition repeats :: "nat \<Rightarrow> nat \<Rightarrow> block \<Rightarrow> nat \<Rightarrow> block \<Rightarrow> bool" where
  "repeats off op0 k0 op k \<longleftrightarrow> blk_len k = blk_len k0 \<and> (\<forall>i < op0. blk_mem k i = blk_mem k0 i)
     \<and> (\<forall>i. op0 \<le> i \<and> i < op \<longrightarrow> blk_mem k i = blk_mem k (i - off))"

lemma repeats_start: "repeats off op k op k"
  by (auto simp: repeats_def)

lemma repeats_le: "repeats off op0 k0 op k \<Longrightarrow> op' \<le> op \<Longrightarrow> repeats off op0 k0 op' k"
  by (auto simp: repeats_def)

lemma repeats_copy_back:
  assumes "repeats off op0 k0 (op0 + n) k" "0 < off" "off \<le> op0"
  shows "blk_bytes k (op0 + n) = copy_back off n (blk_bytes k0 op0)"
  using assms
proof (induction n)
  case 0
  then show ?case by (auto simp: repeats_def blk_bytes_def)
next
  case (Suc n)
  have r: "repeats off op0 k0 (op0 + n) k" using Suc.prems(1) by (rule repeats_le) simp
  have "blk_bytes k (op0 + Suc n) = blk_bytes k (op0 + n) @ [blk_mem k (op0 + n)]" by (simp add: blk_bytes_def)
  moreover have "blk_mem k (op0 + n) = blk_bytes k (op0 + n) ! (op0 + n - off)"
    using Suc.prems by (auto simp: repeats_def blk_bytes_def)
  moreover have "copy_back off (Suc n) (blk_bytes k0 op0) = copy_back off n (blk_bytes k0 op0) @ [copy_back off n (blk_bytes k0 op0) ! (op0 + n - off)]"
    using copy_back_snoc [of off n "blk_bytes k0 op0"] by simp
  ultimately show ?case using Suc.IH [OF r Suc.prems(2,3)] by simp
qed

lemma repeats_multiple:
  assumes "repeats off op0 k0 op k" "i < op" "op0 + m * off \<le> i + off" 
  shows "blk_mem k (i - m * off) = blk_mem k i"
  using assms(3)
proof (induction m)
  case (Suc m)
  then have "op0 \<le> i - m * off" by simp
  then have "blk_mem k (i - m * off) = blk_mem k (i - m * off - off)" using assms(1,2) unfolding repeats_def by (meson le_less_trans diff_le_self)
  then show ?case using Suc by (simp add: add.commute diff_diff_left)
qed simp

text \<open>
  One block copy: \<open>n\<close> bytes from \<open>D\<close> back, a multiple of the period, of which the first \<open>v\<close>,
  those that are there already, continue the repetition.
\<close>

lemma repeats_chunk:
  assumes r: "repeats off op0 k0 op k" and D: "D = Suc m * off" "op0 + D \<le> op + off" "0 < off" "off \<le> op0" "op0 \<le> op" and v: "v \<le> n" "v \<le> D"
    and bs: "bs = map (blk_mem k) [op - D..<op - D + n]"
  shows "repeats off op0 k0 (op + v) (blk_put k op bs)"
proof -
  let ?k = "blk_put k op bs"
  have le: "D \<le> op" using D by linarith
  have old: "blk_mem ?k j = blk_mem k j" if "j < op" for j using that by (simp add: blk_put_def)
  have new: "blk_mem ?k j = blk_mem k (j - D)" if "op \<le> j" "j < op + n" for j
    using that le by (simp add: blk_put_def bs)
  have "blk_mem ?k j = blk_mem ?k (j - off)" if j: "op \<le> j" "j < op + v" for j
  proof (cases "j - off < op")
    case True
    have "blk_mem k (j - off - m * off) = blk_mem k (j - off)"
      by (rule repeats_multiple [OF r True]) (use D j in auto)
    then show ?thesis using True j v new [of j] old [of "j - off"] D(1) by (simp add: diff_diff_left)
  next
    case False
    then have f: "op0 \<le> j - D" "j - D < op" using j v D le by auto
    then have "blk_mem k (j - D) = blk_mem k (j - D - off)" using r unfolding repeats_def by blast
    then show ?thesis using False j v new [of j] new [of "j - off"] by (simp add: diff_diff_left add.commute)
  qed
  moreover have "blk_mem ?k j = blk_mem ?k (j - off)" if "op0 \<le> j" "j < op" for j
    using that old [of j] old [of "j - off"] r unfolding repeats_def by simp
  ultimately show ?thesis using r old D(5) unfolding repeats_def by (metis blk_put_len le_less_trans not_le_imp_less order_less_le_trans less_le_not_le linorder_not_le)
qed

text \<open>The distance a copy of the routine goes back: a multiple of the period that stays above its start.\<close>

definition behind :: "nat \<Rightarrow> nat \<Rightarrow> nat \<Rightarrow> nat \<Rightarrow> bool" where
  "behind off op0 src op \<longleftrightarrow> 0 < off \<and> off \<le> op0 \<and> op0 \<le> op \<and> op0 \<le> src + off \<and> src < op \<and> off dvd op - src"

lemma behind_shift: "behind off op0 src op \<Longrightarrow> behind off op0 (src + n) (op + n)"
  by (simp add: behind_def)

lemma chunk:
  assumes "repeats off op0 k0 op k" "behind off op0 src op" "v \<le> n" "src + v \<le> op" "op + n \<le> blk_len k0" 
  obtains k' where "rbind (read_blk k src n) (\<lambda>tmp. poke_list k op tmp) = Inr k'" "repeats off op0 k0 (op + v) k'"
proof -
  obtain m where m: "op - src = m * off" using assms(2) by (auto simp: behind_def dvd_def mult.commute)
  then obtain m' where m': "m = Suc m'" using assms(2) by (cases m) (auto simp: behind_def)
  have d: "op - src = Suc m' * off" "op0 + (op - src) \<le> op + off" "0 < off" "off \<le> op0" "op0 \<le> op" "v \<le> op - src"
    using m assms(2,4) unfolding m' behind_def by linarith+
  let ?bs = "map (blk_mem k) [src..<src + n]"
  have len: "blk_len k = blk_len k0" using assms(1) by (simp add: repeats_def)
  have "rbind (read_blk k src n) (\<lambda>tmp. poke_list k op tmp) = Inr (blk_put k op ?bs)"
    using assms(2,5) len by (simp add: read_blk_def behind_def poke_list_fits)
  moreover have "?bs = map (blk_mem k) [op - (op - src)..<op - (op - src) + n]" using assms(2) by (simp add: behind_def)
  moreover from this have "repeats off op0 k0 (op + v) (blk_put k op ?bs)"
    by (rule repeats_chunk [OF assms(1) d(1) d(2) d(3) d(4) d(5) assms(3) d(6)])
  ultimately show thesis using that by blast
qed

lemma UnalignedCopy64_repeats:
  assumes "repeats off op0 k0 op k" "behind off op0 src op" "v \<le> 8" "src + v \<le> op" "op + 8 \<le> blk_len k0" 
  obtains k' where "UnalignedCopy64 k src op = Inr k'" "repeats off op0 k0 (op + v) k'"
  unfolding UnalignedCopy64_def using chunk [OF assms] .

lemma IncrementalCopySlow_repeats:
  assumes "repeats off op0 k0 op k" "behind off op0 src op" "op_limit \<le> blk_len k0"
  shows "\<exists>k'. IncrementalCopySlow k src op op_limit = Inr (k', op_limit) \<and> repeats off op0 k0 op_limit k'"
  using assms
proof (induction k src op op_limit rule: IncrementalCopySlow.induct)
  case (1 k src op op_limit)
  show ?case
  proof (cases "op < op_limit")
    case True
    obtain k' where k': "rbind (read_blk k src 1) (\<lambda>tmp. poke_list k op tmp) = Inr k'" "repeats off op0 k0 (op + 1) k'"
      using chunk [OF 1(2,3), of 1 1] 1(3,4) True by (auto simp: behind_def)
    then obtain b where b: "read_blk k src 1 = Inr b" "poke_list k op b = Inr k'" by auto
    from 1(1) [OF True k'(2) behind_shift [OF 1(3)] 1(4)] show ?thesis
      using True b by (subst IncrementalCopySlow.simps) simp
  next
    case False
    then show ?thesis using repeats_le [OF 1(2)] by (subst IncrementalCopySlow.simps) simp
  qed
qed

lemma two_copies:
  assumes "repeats off op0 k0 op k" "behind off op0 src op" "src + 8 \<le> op" "op + 16 \<le> blk_len k0" 
  obtains k1 k2 where "UnalignedCopy64 k src op = Inr k1" "UnalignedCopy64 k1 (src + 8) (op + 8) = Inr k2"
    "repeats off op0 k0 (op + 16) k2" "behind off op0 (src + 16) (op + 16)"
proof -
  obtain k1 where k1: "UnalignedCopy64 k src op = Inr k1" "repeats off op0 k0 (op + 8) k1"
    using UnalignedCopy64_repeats [OF assms(1,2), of 8] assms by auto
  obtain k2 where "UnalignedCopy64 k1 (src + 8) (op + 8) = Inr k2" "repeats off op0 k0 (op + 8 + 8) k2"
    using UnalignedCopy64_repeats [OF k1(2) behind_shift [OF assms(2)], of 8] assms by auto
  then show thesis using that [OF k1(1)] behind_shift [OF assms(2)] by (simp add: add.assoc)
qed

lemma copy_sixteens_repeats:
  assumes "repeats off op0 k0 op k" "behind off op0 src op" "src + 8 \<le> op" "op \<le> op_limit" "op_limit + 16 \<le> blk_len k0"
  shows "\<exists>k'. copy_sixteens k src op op_limit = Inr k' \<and> repeats off op0 k0 op_limit k'"
  using assms
proof (induction k src op op_limit rule: copy_sixteens.induct)
  case (1 k src op op_limit)
  obtain k1 k2 where k: "UnalignedCopy64 k src op = Inr k1" "UnalignedCopy64 k1 (src + 8) (op + 8) = Inr k2"
      "repeats off op0 k0 (op + 16) k2" "behind off op0 (src + 16) (op + 16)"
    using two_copies [OF 1(2-4)] 1(5,6) by auto
  show ?case
  proof (cases "op + 16 < op_limit")
    case True
    from 1(1) [OF True k(3,4)] 1(4,6) True show ?thesis using k(1,2) by (subst copy_sixteens.simps) simp
  next
    case False
    then show ?thesis using k(1,2) repeats_le [OF k(3)] by (subst copy_sixteens.simps) simp
  qed
qed

lemma copy_slop_repeats:
  assumes "repeats off op0 k0 op k" "behind off op0 src op" "src + 8 \<le> op" "buf_limit \<le> blk_len k0"
  shows "\<exists>k' src' op'. copy_slop k src op buf_limit = Inr (k', src', op') \<and> repeats off op0 k0 op' k' \<and> behind off op0 src' op' \<and> src' + 8 \<le> op'"
  using assms
proof (induction k src op buf_limit rule: copy_slop.induct)
  case (1 k src op buf_limit)
  show ?case
  proof (cases "op + 16 < buf_limit")
    case True
    obtain k1 k2 where k: "UnalignedCopy64 k src op = Inr k1" "UnalignedCopy64 k1 (src + 8) (op + 8) = Inr k2"
      "repeats off op0 k0 (op + 16) k2" "behind off op0 (src + 16) (op + 16)"
      using two_copies [OF 1(2-4)] 1(5) True by auto
    from 1(1) [OF True k(3,4)] 1(4,5) show ?thesis using k(1,2) True by (subst copy_slop.simps) simp
  next
    case False
    then show ?thesis using 1 by (subst copy_slop.simps) simp
  qed
qed

lemma copy_blocks_repeats:
  assumes "repeats off op0 k0 op k" "behind off op0 src op" "src + 8 \<le> op" "op \<le> op_limit" "op_limit \<le> buf_limit" "buf_limit \<le> blk_len k0"
  shows "\<exists>k'. copy_blocks k src op op_limit buf_limit = Inr (k', op_limit) \<and> repeats off op0 k0 op_limit k'"
proof (cases "op_limit + 16 \<le> buf_limit")
  case True
  then show ?thesis using copy_sixteens_repeats [OF assms(1-4)] assms(6) by (auto simp: copy_blocks_def)
next
  case False
  obtain k1 src1 op1 where s: "copy_slop k src op buf_limit = Inr (k1, src1, op1)" "repeats off op0 k0 op1 k1" "behind off op0 src1 op1" "src1 + 8 \<le> op1"
    using copy_slop_repeats [OF assms(1-3,6)] by blast
  consider "op_limit \<le> op1" | "op1 < op_limit" "op1 + 8 \<le> buf_limit" | "op1 < op_limit" "\<not> op1 + 8 \<le> buf_limit" by linarith
  then show ?thesis
  proof cases
    case 1
    then show ?thesis using s(1) repeats_le [OF s(2) 1] False by (simp add: copy_blocks_def)
  next
    case 2
    obtain k2 where "UnalignedCopy64 k1 src1 op1 = Inr k2" "repeats off op0 k0 (op1 + 8) k2"
      using UnalignedCopy64_repeats [OF s(2,3), of 8] s(4) 2 assms(6) by auto
    then show ?thesis using s(1) False 2 IncrementalCopySlow_repeats [OF _ behind_shift [OF s(3)]] assms(5,6)
      by (simp add: copy_blocks_def)
  next
    case 3
    then show ?thesis using s(1) False IncrementalCopySlow_repeats [OF s(2,3)] assms(5,6) by (simp add: copy_blocks_def)
  qed
qed

lemma pattern_repeats:
  assumes "src < op" "op - src < 8" "op + 11 \<le> blk_len k"
  shows "\<exists>r. loop (pattern_step src) (k, op, op - src) = Some (Inr r)
    \<and> (case r of (k', op', ps) \<Rightarrow> repeats (op - src) op k op' k' \<and> behind (op - src) op src op' \<and> ps = op' - src \<and> 8 \<le> ps)"
proof (rule loop_rule [where m = "\<lambda>(k, op, ps). 8 - ps"
      and I = "\<lambda>(k', op', ps). repeats (op - src) op k op' k' \<and> behind (op - src) op src op' \<and> ps = op' - src \<and> (8 \<le> ps \<or> ps \<in> {op - src, 2 * (op - src), 4 * (op - src)})"], goal_cases)
  case 1
  then show ?case using assms by (auto simp: repeats_start behind_def)
next
  case (2 s)
  then obtain k' op' where s: "s = (k', op', op' - src)" "repeats (op - src) op k op' k'" "behind (op - src) op src op'"
    "8 \<le> op' - src \<or> op' - src \<in> {op - src, 2 * (op - src), 4 * (op - src)}" by auto
  show ?case
  proof (cases "op' - src < 8")
    case True
    have "op' + 8 \<le> blk_len k" using s(3,4) True assms by (auto simp: behind_def)
    then obtain k2 where k2: "UnalignedCopy64 k' src op' = Inr k2" "repeats (op - src) op k (op' + (op' - src)) k2"
      using UnalignedCopy64_repeats [OF s(2,3), of "op' - src"] s(3) True by (auto simp: behind_def)
    have b: "behind (op - src) op src (op' + (op' - src))"
      using s(3) dvd_add [of "op - src" "op' - src" "op' - src"] by (auto simp: behind_def)
    have "8 \<le> 2 * (op' - src) \<or> 2 * (op' - src) \<in> {op - src, 2 * (op - src), 4 * (op - src)}"
      using s(4) assms True by auto
    moreover have "op' + (op' - src) - src = 2 * (op' - src)" "0 < op' - src" using s(3) by (auto simp: behind_def)
    moreover have "pattern_step src s = Some (Inr (Again (k2, op' + (op' - src), 2 * (op' - src))))"
      using k2(1) True by (simp add: s(1) pattern_step_def lift_def mult.commute)
    ultimately show ?thesis using k2(2) b True by (auto simp: s(1))
  next
    case False
    then show ?thesis using s by (simp add: pattern_step_def lift_def)
  qed
qed

text \<open>
  The fast copy gives what copying a byte at a time gives, and needs no byte beyond \<open>buf_limit\<close>.
\<close>

lemma IncrementalCopy_repeats:
  assumes "src < op" "op \<le> op_limit" "op_limit \<le> buf_limit" "buf_limit \<le> blk_len k"
  shows "\<exists>k'. IncrementalCopy k src op op_limit buf_limit = Some (Inr (k', op_limit)) \<and> repeats (op - src) op k op_limit k'"
proof -
  have b: "behind (op - src) op src op" using assms by (simp add: behind_def)
  show ?thesis
  proof (cases "op - src < 8")
    case True
    show ?thesis
    proof (cases "op + 11 \<le> buf_limit")
      case far: True
      obtain k1 op1 where l: "loop (pattern_step src) (k, op, op - src) = Some (Inr (k1, op1, op1 - src))"
        "repeats (op - src) op k op1 k1" "behind (op - src) op src op1" "8 \<le> op1 - src"
        using pattern_repeats [of src op k] assms far True by auto
      show ?thesis
      proof (cases "op_limit \<le> op1")
        case True
        then show ?thesis using l(1) repeats_le [OF l(2) True] assms far \<open>op - src < 8\<close>
          by (simp add: IncrementalCopy_def Let_def lift_def)
      next
        case False
        then show ?thesis using l(1,4) copy_blocks_repeats [OF l(2,3), of op_limit buf_limit] assms far True
          by (auto simp: IncrementalCopy_def Let_def lift_def)
      qed
    next
      case False
      then show ?thesis using IncrementalCopySlow_repeats [OF repeats_start b, of op_limit] assms True
        by (auto simp: IncrementalCopy_def Let_def lift_def)
    qed
  next
    case False
    then show ?thesis using copy_blocks_repeats [OF repeats_start b, of op_limit buf_limit] assms
      by (auto simp: IncrementalCopy_def Let_def lift_def)
  qed
qed

lemma IncrementalCopy_correct:
  assumes "src < op" "op \<le> op_limit" "op_limit \<le> buf_limit" "buf_limit \<le> blk_len k"
  shows "\<exists>k'. IncrementalCopy k src op op_limit buf_limit = Some (Inr (k', op_limit))
    \<and> blk_len k' = blk_len k \<and> blk_bytes k' op_limit = copy_back (op - src) (op_limit - op) (blk_bytes k op)"
proof -
  obtain k' where k': "IncrementalCopy k src op op_limit buf_limit = Some (Inr (k', op_limit))" "repeats (op - src) op k op_limit k'"
    using IncrementalCopy_repeats [OF assms] by blast
  moreover have "op + (op_limit - op) = op_limit" using assms by simp
  ultimately show ?thesis using repeats_copy_back [of "op - src" op k "op_limit - op" k'] assms by (auto simp: repeats_def)
qed

text \<open>
  C13. The fast copy within the output agrees with the slow one: both come back without a fault and
  leave the same bytes below the end of the copy, where the pattern of the last \<open>op - src\<close> bytes
  goes on repeating.
\<close>

theorem IncrementalCopy_eq_slow:
  assumes "src < op" "op \<le> op_limit" "op_limit \<le> buf_limit" "buf_limit \<le> blk_len k"
  shows "\<exists>k1 k2. IncrementalCopy k src op op_limit buf_limit = Some (Inr (k1, op_limit))
    \<and> IncrementalCopySlow k src op op_limit = Inr (k2, op_limit)
    \<and> blk_bytes k1 op_limit = blk_bytes k2 op_limit \<and> take op (blk_bytes k1 op_limit) = blk_bytes k op
    \<and> (\<forall>i. op \<le> i \<and> i < op_limit \<longrightarrow> blk_mem k1 i = blk_mem k1 (i - (op - src)))"
proof -
  have b: "behind (op - src) op src op" and e: "op + (op_limit - op) = op_limit" using assms by (simp_all add: behind_def)
  obtain k2 where k2: "IncrementalCopySlow k src op op_limit = Inr (k2, op_limit)" "repeats (op - src) op k op_limit k2"
    using IncrementalCopySlow_repeats [OF repeats_start b, of op_limit k] assms by auto
  obtain k1 where k1: "IncrementalCopy k src op op_limit buf_limit = Some (Inr (k1, op_limit))" "repeats (op - src) op k op_limit k1"
    using IncrementalCopy_repeats [OF assms] by blast
  have c: "blk_bytes k' op_limit = copy_back (op - src) (op_limit - op) (blk_bytes k op)" if "repeats (op - src) op k op_limit k'" for k'
    using repeats_copy_back [of "op - src" op k "op_limit - op" k'] that assms by (simp add: e)
  have "take op (blk_bytes k1 op_limit) = blk_bytes k op"
    unfolding take_blk_bytes [OF assms(2)] using k1(2) by (simp add: repeats_def blk_bytes_def)
  then show ?thesis using k1 k2 c [OF k1(2)] c [OF k2(2)] unfolding repeats_def by simp
qed

theorem IncrementalCopy_eq_slow_witness:
  "\<exists>k1 k2. IncrementalCopy \<lparr>blk_len = 40, blk_mem = of_nat\<rparr> 1 3 12 40 = Some (Inr (k1, 12))
    \<and> IncrementalCopySlow \<lparr>blk_len = 40, blk_mem = of_nat\<rparr> 1 3 12 = Inr (k2, 12) \<and> blk_bytes k1 12 = blk_bytes k2 12"
  using IncrementalCopy_eq_slow [of 1 3 12 40 "\<lparr>blk_len = 40, blk_mem = of_nat\<rparr>"] by auto

end
