(* ===== verification/Snappy_Writer.thy ===== *)
theory Snappy_Writer
  imports Snappy_Copy
begin

text \<open>
  The writers of \<^verbatim>\<open>snappy.cc\<close>, the outputs the decompressor is a template over: a flat array
  (\<^verbatim>\<open>SnappyArrayWriter\<close>) and one that only counts (\<^verbatim>\<open>SnappyDecompressionValidator\<close>). The locale
  \<open>writer_contract\<close> is what the decompressor relies on; both writers are interpretations of it.
\<close>

section \<open>Writers\<close>

text \<open>
  The members a \<^verbatim>\<open>Writer\<close> has, as a record: a \<^verbatim>\<open>const char*\<close> argument is the list of the bytes
  that can be read from it. The Boolean a member returns comes with the state of the writer.
\<close>

record 'w decompression_writer =
  SetExpectedLength :: "nat \<Rightarrow> 'w \<Rightarrow> 'w"
  CheckLength :: "'w \<Rightarrow> bool"
  Append :: "byte list \<Rightarrow> nat \<Rightarrow> 'w \<Rightarrow> (bool \<times> 'w) run"
  TryFastAppend :: "byte list \<Rightarrow> nat \<Rightarrow> nat \<Rightarrow> 'w \<Rightarrow> (bool \<times> 'w) run"
  AppendFromSelf :: "nat \<Rightarrow> nat \<Rightarrow> 'w \<Rightarrow> (bool \<times> 'w) run"

text \<open>Unsigned subtraction of one from a \<^verbatim>\<open>size_t\<close>.\<close>

definition minus_1u :: "nat \<Rightarrow> nat" where
  "minus_1u offset = (if offset = 0 then 2 ^ 64 - 1 else offset - 1)"

record array_writer =
  aw_dst :: block
  aw_op :: nat
  aw_op_limit :: nat

definition new_array_writer :: "block \<Rightarrow> array_writer" where
  "new_array_writer dst = \<lparr>aw_dst = dst, aw_op = 0, aw_op_limit = 0\<rparr>"

definition aw_SetExpectedLength :: "nat \<Rightarrow> array_writer \<Rightarrow> array_writer" where
  "aw_SetExpectedLength len w = w\<lparr>aw_op_limit := aw_op w + len\<rparr>"

definition aw_CheckLength :: "array_writer \<Rightarrow> bool" where
  "aw_CheckLength w \<longleftrightarrow> aw_op w = aw_op_limit w"

definition aw_Append :: "byte list \<Rightarrow> nat \<Rightarrow> array_writer \<Rightarrow> (bool \<times> array_writer) run" where
  "aw_Append ip len w =
     (let space_left = aw_op_limit w - aw_op w
      in if space_left < len then lift (Inr (False, w))
         else lift (rbind (read_at ip 0 len) (\<lambda>bs. rbind (poke_list (aw_dst w) (aw_op w) bs) (\<lambda>dst.
                Inr (True, w\<lparr>aw_dst := dst, aw_op := aw_op w + len\<rparr>)))))"

definition aw_TryFastAppend :: "byte list \<Rightarrow> nat \<Rightarrow> nat \<Rightarrow> array_writer \<Rightarrow> (bool \<times> array_writer) run" where
  "aw_TryFastAppend ip available len w =
     (let space_left = aw_op_limit w - aw_op w
      in if len \<le> 16 \<and> available \<ge> 16 + kMaximumTagLength \<and> space_left \<ge> 16 then
           lift (rbind (UnalignedCopy128 ip (aw_dst w) (aw_op w)) (\<lambda>dst.
             Inr (True, w\<lparr>aw_dst := dst, aw_op := aw_op w + len\<rparr>)))
         else lift (Inr (False, w)))"

definition aw_Produced :: "array_writer \<Rightarrow> nat" where
  "aw_Produced w = aw_op w"

definition aw_AppendFromSelf :: "nat \<Rightarrow> nat \<Rightarrow> array_writer \<Rightarrow> (bool \<times> array_writer) run" where
  "aw_AppendFromSelf offset len w =
     (let op_end = aw_op w + len
      in if aw_Produced w \<le> minus_1u offset \<or> op_end > aw_op_limit w then lift (Inr (False, w))
         else obind (IncrementalCopy (aw_dst w) (aw_op w - offset) (aw_op w) op_end (aw_op_limit w)) (\<lambda>(dst, op).
                lift (Inr (True, w\<lparr>aw_dst := dst, aw_op := op\<rparr>))))"

definition SnappyArrayWriter :: "array_writer decompression_writer" where
  "SnappyArrayWriter =
     \<lparr>SetExpectedLength = aw_SetExpectedLength, CheckLength = aw_CheckLength, Append = aw_Append,
      TryFastAppend = aw_TryFastAppend, AppendFromSelf = aw_AppendFromSelf\<rparr>"

record validator =
  v_expected :: nat
  v_produced :: nat

definition new_validator :: validator where
  "new_validator = \<lparr>v_expected = 0, v_produced = 0\<rparr>"

text \<open>The counters are of type \<^verbatim>\<open>size_t\<close>, so that an addition wraps.\<close>

definition v_add :: "nat \<Rightarrow> validator \<Rightarrow> (bool \<times> validator) run" where
  "v_add len w =
     (let produced = (v_produced w + len) mod 2 ^ 64
      in lift (Inr (produced \<le> v_expected w, w\<lparr>v_produced := produced\<rparr>)))"

definition v_Append :: "byte list \<Rightarrow> nat \<Rightarrow> validator \<Rightarrow> (bool \<times> validator) run" where
  "v_Append ip len w = v_add len w"

definition v_TryFastAppend :: "byte list \<Rightarrow> nat \<Rightarrow> nat \<Rightarrow> validator \<Rightarrow> (bool \<times> validator) run" where
  "v_TryFastAppend ip available len w = lift (Inr (False, w))"

definition v_AppendFromSelf :: "nat \<Rightarrow> nat \<Rightarrow> validator \<Rightarrow> (bool \<times> validator) run" where
  "v_AppendFromSelf offset len w =
     (if v_produced w \<le> minus_1u offset then lift (Inr (False, w)) else v_add len w)"

definition v_SetExpectedLength :: "nat \<Rightarrow> validator \<Rightarrow> validator" where
  "v_SetExpectedLength len w = w\<lparr>v_expected := len\<rparr>"

definition v_CheckLength :: "validator \<Rightarrow> bool" where
  "v_CheckLength w \<longleftrightarrow> v_expected w = v_produced w"

definition SnappyDecompressionValidator :: "validator decompression_writer" where
  "SnappyDecompressionValidator =
     \<lparr>SetExpectedLength = v_SetExpectedLength, CheckLength = v_CheckLength, Append = v_Append,
      TryFastAppend = v_TryFastAppend, AppendFromSelf = v_AppendFromSelf\<rparr>"

section \<open>The contract\<close>

text \<open>
  \<open>R w out lim\<close> says that a writer holds the output \<open>out\<close> and takes \<open>lim\<close> bytes at most; a
  writer that is \<open>fresh\<close> for \<open>lim\<close> holds nothing once it has been told that length. A fast
  append may decline; when it does not, it leaves room for a tag in the input.
\<close>

locale writer_contract =
  fixes W :: "'w decompression_writer" and R :: "'w \<Rightarrow> byte list \<Rightarrow> nat \<Rightarrow> bool" and fresh :: "'w \<Rightarrow> nat \<Rightarrow> bool"
  assumes set_expected: "fresh w lim \<Longrightarrow> R (SetExpectedLength W lim w) [] lim"
    and check_length: "R w out lim \<Longrightarrow> CheckLength W w \<longleftrightarrow> length out = lim"
    and append: "R w out lim \<Longrightarrow> len \<le> length ip \<Longrightarrow> len < 2 ^ 32 \<Longrightarrow>
      \<exists>w'. Append W ip len w = Some (Inr (length out + len \<le> lim, w')) \<and> (length out + len \<le> lim \<longrightarrow> R w' (out @ take len ip) lim)"
    and fast_append: "R w out lim \<Longrightarrow> available \<le> length ip \<Longrightarrow>
      \<exists>ok w'. TryFastAppend W ip available len w = Some (Inr (ok, w'))
        \<and> (if ok then len < 61 \<and> len + kMaximumTagLength \<le> available \<and> length out + len \<le> lim \<and> R w' (out @ take len ip) lim else w' = w)"
    and append_from_self: "R w out lim \<Longrightarrow> offset < 2 ^ 64 \<Longrightarrow> len < 2 ^ 32 \<Longrightarrow>
      \<exists>ok w'. AppendFromSelf W offset len w = Some (Inr (ok, w'))
        \<and> (ok \<longleftrightarrow> offset \<noteq> 0 \<and> offset \<le> length out \<and> length out + len \<le> lim)
        \<and> (ok \<longrightarrow> R w' (copy_back offset len out) lim)"

definition array_holds :: "array_writer \<Rightarrow> byte list \<Rightarrow> nat \<Rightarrow> bool" where
  "array_holds w out lim \<longleftrightarrow> aw_op_limit w = lim \<and> lim \<le> blk_len (aw_dst w) \<and> lim < 2 ^ 32 \<and> aw_op w = length out
     \<and> length out \<le> lim \<and> blk_bytes (aw_dst w) (length out) = out"

definition array_fresh :: "array_writer \<Rightarrow> nat \<Rightarrow> bool" where
  "array_fresh w lim \<longleftrightarrow> aw_op w = 0 \<and> lim \<le> blk_len (aw_dst w) \<and> lim < 2 ^ 32"

lemma minus_1u_ge: "n < 2 ^ 32 \<Longrightarrow> n \<le> minus_1u offset \<longleftrightarrow> offset = 0 \<or> n < offset"
  by (auto simp: minus_1u_def)

lemma array_append:
  assumes "array_holds w out lim" "len \<le> length ip"
  shows "\<exists>w'. aw_Append ip len w = Some (Inr (length out + len \<le> lim, w')) \<and> (length out + len \<le> lim \<longrightarrow> array_holds w' (out @ take len ip) lim)"
proof (cases "length out + len \<le> lim")
  case True
  then have "poke_list (aw_dst w) (aw_op w) (take len ip) = Inr (blk_put (aw_dst w) (aw_op w) (take len ip))"
    using assms by (intro poke_list_fits) (auto simp: array_holds_def)
  moreover have "blk_bytes (blk_put (aw_dst w) (aw_op w) (take len ip)) (aw_op w + len) = out @ take len ip"
    using blk_bytes_put [of "aw_dst w" "aw_op w" "take len ip"] assms by (simp add: array_holds_def)
  ultimately have "aw_Append ip len w = Some (Inr (True, w\<lparr>aw_dst := blk_put (aw_dst w) (aw_op w) (take len ip), aw_op := aw_op w + len\<rparr>))"
    "array_holds (w\<lparr>aw_dst := blk_put (aw_dst w) (aw_op w) (take len ip), aw_op := aw_op w + len\<rparr>) (out @ take len ip) lim"
    using True assms by (simp_all add: aw_Append_def array_holds_def read_at_def lift_def)
  then show ?thesis using True by simp
next
  case False
  then have "aw_op_limit w - aw_op w < len" using assms(1) unfolding array_holds_def by linarith
  then have "aw_Append ip len w = Some (Inr (False, w))" by (simp add: aw_Append_def lift_def)
  then show ?thesis using False by simp
qed

lemma array_fast_append:
  assumes "array_holds w out lim" "available \<le> length ip"
  shows "\<exists>ok w'. aw_TryFastAppend ip available len w = Some (Inr (ok, w'))
    \<and> (if ok then len < 61 \<and> len + kMaximumTagLength \<le> available \<and> length out + len \<le> lim \<and> array_holds w' (out @ take len ip) lim else w' = w)"
proof (cases "len \<le> 16 \<and> available \<ge> 16 + kMaximumTagLength \<and> aw_op_limit w - aw_op w \<ge> 16")
  case True
  let ?k = "blk_put (aw_dst w) (aw_op w) (take 16 ip)"
  have len: "length (take 16 ip) = 16" using True assms by simp
  have "poke_list (aw_dst w) (aw_op w) (take 16 ip) = Inr ?k"
    using True assms len by (intro poke_list_fits) (auto simp: array_holds_def)
  moreover have "blk_bytes ?k (aw_op w + len) = out @ take len ip"
  proof -
    have "blk_bytes ?k (aw_op w + 16) = out @ take 16 ip"
      using blk_bytes_put [of "aw_dst w" "aw_op w" "take 16 ip"] len assms by (simp add: array_holds_def)
    then have "take (aw_op w + len) (blk_bytes ?k (aw_op w + 16)) = out @ take len ip"
      using True assms by (simp add: array_holds_def min_def)
    then show ?thesis using True by (simp add: take_blk_bytes)
  qed
  moreover have room: "length out + len \<le> lim" using True assms(1) unfolding array_holds_def by linarith
  ultimately have "aw_TryFastAppend ip available len w = Some (Inr (True, w\<lparr>aw_dst := ?k, aw_op := aw_op w + len\<rparr>))"
    "array_holds (w\<lparr>aw_dst := ?k, aw_op := aw_op w + len\<rparr>) (out @ take len ip) lim"
    using True assms by (simp_all add: aw_TryFastAppend_def UnalignedCopy128_def array_holds_def read_at_def lift_def)
  moreover have "len < 61" "len + kMaximumTagLength \<le> available" using True by linarith+
  ultimately show ?thesis using room by (intro exI [of _ True]) auto
next
  case False
  then have "aw_TryFastAppend ip available len w = Some (Inr (False, w))" unfolding aw_TryFastAppend_def lift_def Let_def by (rule if_not_P)
  then show ?thesis by (intro exI [of _ False]) simp
qed

lemma array_append_from_self:
  assumes "array_holds w out lim"
  shows "\<exists>ok w'. aw_AppendFromSelf offset len w = Some (Inr (ok, w'))
    \<and> (ok \<longleftrightarrow> offset \<noteq> 0 \<and> offset \<le> length out \<and> length out + len \<le> lim)
    \<and> (ok \<longrightarrow> array_holds w' (copy_back offset len out) lim)"
proof (cases "offset \<noteq> 0 \<and> offset \<le> length out \<and> length out + len \<le> lim")
  case True
  have "aw_op w - offset < aw_op w" using True assms unfolding array_holds_def by linarith
  then obtain k' where "IncrementalCopy (aw_dst w) (aw_op w - offset) (aw_op w) (aw_op w + len) (aw_op_limit w) = Some (Inr (k', aw_op w + len))"
    "blk_len k' = blk_len (aw_dst w)" "blk_bytes k' (aw_op w + len) = copy_back offset len out"
    using IncrementalCopy_correct [of "aw_op w - offset" "aw_op w" "aw_op w + len" "aw_op_limit w" "aw_dst w"] True assms
    by (auto simp: array_holds_def)
  moreover have "\<not> length out \<le> minus_1u offset" using True assms minus_1u_ge [of "length out"] by (auto simp: array_holds_def)
  ultimately have "aw_AppendFromSelf offset len w = Some (Inr (True, w\<lparr>aw_dst := k', aw_op := aw_op w + len\<rparr>))"
    "array_holds (w\<lparr>aw_dst := k', aw_op := aw_op w + len\<rparr>) (copy_back offset len out) lim"
    using True assms by (simp_all add: aw_AppendFromSelf_def aw_Produced_def array_holds_def lift_def length_copy_back)
  then show ?thesis using True by (intro exI [of _ True]) simp
next
  case False
  then have "aw_AppendFromSelf offset len w = Some (Inr (False, w))"
    using assms minus_1u_ge [of "length out" offset] by (auto simp: aw_AppendFromSelf_def aw_Produced_def array_holds_def lift_def)
  then show ?thesis using False by auto
qed

interpretation flat: writer_contract SnappyArrayWriter array_holds array_fresh
proof (unfold_locales, goal_cases)
  case (3 w out lim len ip)
  then show ?case using array_append by (simp add: SnappyArrayWriter_def)
next
  case (4 w out lim available ip len)
  then show ?case using array_fast_append by (simp add: SnappyArrayWriter_def)
next
  case (5 w out lim offset len)
  then show ?case using array_append_from_self by (simp add: SnappyArrayWriter_def)
qed (auto simp: SnappyArrayWriter_def aw_SetExpectedLength_def aw_CheckLength_def array_fresh_def array_holds_def)

definition counted :: "validator \<Rightarrow> byte list \<Rightarrow> nat \<Rightarrow> bool" where
  "counted w out lim \<longleftrightarrow> v_expected w = lim \<and> lim < 2 ^ 32 \<and> v_produced w = length out \<and> length out \<le> lim"

definition counter_fresh :: "validator \<Rightarrow> nat \<Rightarrow> bool" where
  "counter_fresh w lim \<longleftrightarrow> v_produced w = 0 \<and> lim < 2 ^ 32"

lemma v_add_counts:
  assumes "counted w out lim" "len < 2 ^ 32"
  shows "v_add len w = Some (Inr (length out + len \<le> lim, w\<lparr>v_produced := length out + len\<rparr>))"
  using assms by (simp add: v_add_def counted_def lift_def Let_def)

interpretation counter: writer_contract SnappyDecompressionValidator counted counter_fresh
proof (unfold_locales, goal_cases)
  case (5 w out lim offset len)
  then show ?case using v_add_counts [OF 5(1,3)] minus_1u_ge [of "length out" offset]
    by (auto simp: SnappyDecompressionValidator_def v_AppendFromSelf_def counted_def lift_def length_copy_back)
qed (auto simp: SnappyDecompressionValidator_def v_SetExpectedLength_def v_CheckLength_def counter_fresh_def
  v_Append_def v_add_counts v_TryFastAppend_def lift_def, auto simp: counted_def)

end
