(* ===== verification/Snappy_Emit.thy ===== *)
theory Snappy_Emit
  imports Snappy_Format
begin

text \<open>
  The parts the compressor of \<^verbatim>\<open>snappy.cc\<close> is made of: the hash of four bytes, the length of
  a match (\<^verbatim>\<open>FindMatchLength\<close> of \<^verbatim>\<open>snappy-internal.h\<close>, the 64-bit version), and the emission of
  literals and copies into a buffer of bounded size. Every \<^verbatim>\<open>assert\<close> of the source is a check
  that fails the run, and reads and writes outside an array are faults. What is emitted decodes,
  by the reference decoder, to the bytes it stands for.
\<close>

section \<open>Matching\<close>

definition HashBytes :: "u32 \<Rightarrow> nat \<Rightarrow> u32" where
  "HashBytes bytes shift = drop_bit shift (bytes * 0x1e35a7bd)"

definition Hash :: "byte list \<Rightarrow> nat \<Rightarrow> nat \<Rightarrow> u32 res" where
  "Hash inp p shift = rbind (Load32 inp p) (\<lambda>w. Inr (HashBytes w shift))"

text \<open>The loop over eight bytes at a time; \<open>Inl\<close> is a return from inside it.\<close>

function match_words :: "byte list \<Rightarrow> nat \<Rightarrow> nat \<Rightarrow> nat \<Rightarrow> nat \<Rightarrow> ((nat \<times> bool) + (nat \<times> nat)) res" where
  "match_words inp s1 s2 s2_limit matched =
     (if s2 + 8 \<le> s2_limit then
        rbind (Load64 inp s2) (\<lambda>a2. rbind (Load64 inp (s1 + matched)) (\<lambda>a1.
          if a2 = a1 then match_words inp s1 (s2 + 8) s2_limit (matched + 8)
          else (let matched = matched + FindLSBSetNonZero64 (a2 XOR a1) div 8
                in rbind (check (matched \<ge> 8)) (\<lambda>_. Inr (Inl (matched, False))))))
      else Inr (Inr (matched, s2)))"
  by pat_completeness auto
termination by (relation "measure (\<lambda>(inp, s1, s2, s2_limit, matched). s2_limit - s2)") auto

text \<open>The loop over single bytes at the end.\<close>

function match_bytes :: "byte list \<Rightarrow> nat \<Rightarrow> nat \<Rightarrow> nat \<Rightarrow> nat \<Rightarrow> (nat \<times> bool) res" where
  "match_bytes inp s1 s2 s2_limit matched =
     (if s2 < s2_limit then
        rbind (read_at inp (s1 + matched) 1) (\<lambda>a. rbind (read_at inp s2 1) (\<lambda>b.
          if a = b then match_bytes inp s1 (s2 + 1) s2_limit (matched + 1)
          else Inr (matched, matched < 8)))
      else Inr (matched, matched < 8))"
  by pat_completeness auto
termination by (relation "measure (\<lambda>(inp, s1, s2, s2_limit, matched). s2_limit - s2)") auto

declare match_words.simps [simp del] match_bytes.simps [simp del]

definition match_rest :: "byte list \<Rightarrow> nat \<Rightarrow> nat \<Rightarrow> nat \<Rightarrow> nat \<Rightarrow> (nat \<times> bool) res" where
  "match_rest inp s1 s2 s2_limit matched =
     rbind (match_words inp s1 s2 s2_limit matched) (\<lambda>r.
       case r of Inl p \<Rightarrow> Inr p | Inr (matched, s2) \<Rightarrow> match_bytes inp s1 s2 s2_limit matched)"

definition FindMatchLength :: "byte list \<Rightarrow> nat \<Rightarrow> nat \<Rightarrow> nat \<Rightarrow> (nat \<times> bool) res" where
  "FindMatchLength inp s1 s2 s2_limit =
     rbind (check (s2_limit \<ge> s2)) (\<lambda>_.
       if s2 + 8 \<le> s2_limit then
         rbind (Load64 inp s1) (\<lambda>a1. rbind (Load64 inp s2) (\<lambda>a2.
           if a1 \<noteq> a2 then Inr (FindLSBSetNonZero64 (a1 XOR a2) div 8, True)
           else match_rest inp s1 (s2 + 8) s2_limit 8))
       else match_rest inp s1 s2 s2_limit 0)"

section \<open>Emitting\<close>

text \<open>
  The output is the buffer with the index of its next free byte. Both fast paths write more
  than they keep: sixteen bytes of a short literal, four bytes of a three-byte copy.
\<close>

type_synonym out = "block \<times> nat"

function emit_length :: "nat \<Rightarrow> nat \<Rightarrow> out \<Rightarrow> (nat \<times> out) res" where
  "emit_length n count dst =
     (if n > 0 then
        rbind (poke (fst dst) (snd dst) (of_nat (n mod 256))) (\<lambda>k. emit_length (n div 256) (count + 1) (k, snd dst + 1))
      else Inr (count, dst))"
  by pat_completeness auto
termination by (relation "measure (\<lambda>(n, count, dst). n)") auto

declare emit_length.simps [simp del]

definition EmitLiteral :: "byte list \<Rightarrow> nat \<Rightarrow> nat \<Rightarrow> bool \<Rightarrow> out \<Rightarrow> out res" where
  "EmitLiteral inp literal len allow_fast_path = (\<lambda>(k, op).
     rbind (check (len > 0)) (\<lambda>_.
       (let n = len - 1
        in if allow_fast_path \<and> len \<le> 16 then
             rbind (poke k op (ucast (LITERAL OR push_bit 2 (of_nat n)))) (\<lambda>k.
             rbind (read_at inp literal 16) (\<lambda>bs.
             rbind (poke_list k (op + 1) bs) (\<lambda>k. Inr (k, op + 1 + len))))
           else
             rbind (if n < 60 then
                      rbind (poke k op (ucast (LITERAL OR push_bit 2 (of_nat n)))) (\<lambda>k. Inr (k, op + 1))
                    else
                      rbind (emit_length n 0 (k, op + 1)) (\<lambda>(count, (k, op')).
                      rbind (check (count \<ge> 1)) (\<lambda>_. rbind (check (count \<le> 4)) (\<lambda>_.
                      rbind (poke k op (ucast (LITERAL OR push_bit 2 (59 + of_nat count)))) (\<lambda>k. Inr (k, op'))))))
               (\<lambda>(k, op).
                 rbind (read_at inp literal len) (\<lambda>bs.
                 rbind (poke_list k op bs) (\<lambda>k. Inr (k, op + len)))))))"

definition EmitCopyAtMost64 :: "nat \<Rightarrow> nat \<Rightarrow> bool \<Rightarrow> out \<Rightarrow> out res" where
  "EmitCopyAtMost64 offset len len_less_than_12 = (\<lambda>(k, op).
     rbind (check (len \<le> 64)) (\<lambda>_. rbind (check (len \<ge> 4)) (\<lambda>_. rbind (check (offset < 65536)) (\<lambda>_.
     rbind (check (len_less_than_12 = (len < 12))) (\<lambda>_.
       if len_less_than_12 \<and> offset < 2048 then
         rbind (poke k op (ucast (COPY_1_BYTE_OFFSET + push_bit 2 (of_nat len - 4)
                                  + (drop_bit 3 (of_nat offset) AND 0xe0)))) (\<lambda>k.
         rbind (poke k (op + 1) (ucast (of_nat offset AND 0xff :: u64))) (\<lambda>k. Inr (k, op + 2)))
       else
         (let u = COPY_2_BYTE_OFFSET + push_bit 2 (of_nat len - 1) + push_bit 8 (of_nat offset)
          in rbind (poke_list k op (le_bytes 4 (ucast u))) (\<lambda>k. Inr (k, op + 3))))))))"

function emit_copies :: "nat \<Rightarrow> nat \<Rightarrow> out \<Rightarrow> (nat \<times> out) res" where
  "emit_copies offset len dst =
     (if len \<ge> 68 then rbind (EmitCopyAtMost64 offset 64 False dst) (emit_copies offset (len - 64))
      else Inr (len, dst))"
  by pat_completeness auto
termination by (relation "measure (\<lambda>(offset, len, dst). len)") auto

declare emit_copies.simps [simp del]

definition EmitCopy :: "nat \<Rightarrow> nat \<Rightarrow> bool \<Rightarrow> out \<Rightarrow> out res" where
  "EmitCopy offset len len_less_than_12 dst =
     rbind (check (len_less_than_12 = (len < 12))) (\<lambda>_.
       if len_less_than_12 then EmitCopyAtMost64 offset len True dst
       else
         rbind (emit_copies offset len dst) (\<lambda>(len, dst).
         rbind (if len > 64 then rbind (EmitCopyAtMost64 offset 60 False dst) (\<lambda>dst. Inr (len - 60, dst)) else Inr (len, dst))
           (\<lambda>(len, dst). EmitCopyAtMost64 offset len (len < 12) dst)))"

section \<open>Matching, correct\<close>

lemma read_at_ok: "i + n \<le> length xs \<Longrightarrow> read_at xs i n = Inr (take n (drop i xs))"
  by (simp add: read_at_def)

lemma le_word_inject:
  assumes "length xs = length ys" "length xs \<le> 8"
  shows "le_word xs = le_word ys \<longleftrightarrow> xs = ys"
proof
  assume eq: "le_word xs = le_word ys"
  show "xs = ys"
  proof (rule nth_equalityI)
    fix i assume i: "i < length xs"
    show "xs ! i = ys ! i"
    proof (rule bit_word_eqI)
      fix k assume "k < LENGTH(8)"
      then have "(8 * i + k) div 8 = i" "(8 * i + k) mod 8 = k" "8 * i + k < 64" "8 * i + k < 8 * length xs" using i assms(2) by auto
      then show "bit (xs ! i) k = bit (ys ! i) k"
        using arg_cong [OF eq, of "\<lambda>w. bit w (8 * i + k)"] assms(1) by (simp add: bit_le_word)
    qed
  qed (rule assms(1))
qed simp

definition word32 :: "byte list \<Rightarrow> nat \<Rightarrow> u32" where
  "word32 inp i = ucast (le_word (take 4 (drop i inp)))"

lemma Load32_ok: "i + 4 \<le> length inp \<Longrightarrow> Load32 inp i = Inr (word32 inp i)"
  by (simp add: Load32_def read_at_ok word32_def)

lemma Load64_ok: "i + 8 \<le> length inp \<Longrightarrow> Load64 inp i = Inr (le_word (take 8 (drop i inp)))"
  by (simp add: Load64_def read_at_ok)

lemma take_drop_eq_iff:
  assumes "a + n \<le> length xs" "b + n \<le> length xs"
  shows "take n (drop a xs) = take n (drop b xs) \<longleftrightarrow> (\<forall>i<n. xs ! (a + i) = xs ! (b + i))"
  using assms by (auto simp: list_eq_iff_nth_eq)

lemma word32_eq_iff:
  assumes "a + 4 \<le> length inp" "b + 4 \<le> length inp"
  shows "word32 inp a = word32 inp b \<longleftrightarrow> (\<forall>i<4. inp ! (a + i) = inp ! (b + i))"
proof -
  have c: "take_bit 32 (le_word (take 4 (drop i inp))) = le_word (take 4 (drop i inp))" for i
    by (rule bit_word_eqI) (auto simp: bit_take_bit_iff bit_le_word)
  have "word32 inp a = word32 inp b \<longleftrightarrow> le_word (take 4 (drop a inp)) = le_word (take 4 (drop b inp))"
  proof
    assume "word32 inp a = word32 inp b"
    then have "take_bit 32 (le_word (take 4 (drop a inp))) = take_bit 32 (le_word (take 4 (drop b inp)))"
      unfolding word32_def by (intro bit_word_eqI) (auto simp: bit_take_bit_iff bit_eq_iff bit_ucast_iff)
    then show "le_word (take 4 (drop a inp)) = le_word (take 4 (drop b inp))" by (simp only: c)
  qed (simp add: word32_def)
  then show ?thesis using assms by (simp add: le_word_inject take_drop_eq_iff)
qed

text \<open>\<open>m\<close> bytes from \<open>a\<close> on agree with those from \<open>b\<close> on, and no more do before \<open>lim\<close>.\<close>

definition agree :: "byte list \<Rightarrow> nat \<Rightarrow> nat \<Rightarrow> nat \<Rightarrow> bool" where
  "agree inp a b n \<longleftrightarrow> (\<forall>i<n. inp ! (a + i) = inp ! (b + i))"

definition longest_match :: "byte list \<Rightarrow> nat \<Rightarrow> nat \<Rightarrow> nat \<Rightarrow> nat \<Rightarrow> bool" where
  "longest_match inp a b lim m \<longleftrightarrow> b + m \<le> lim \<and> agree inp a b m \<and> (b + m < lim \<longrightarrow> inp ! (a + m) \<noteq> inp ! (b + m))"

lemma agree_add: "agree inp a b (m + n) \<longleftrightarrow> agree inp a b m \<and> agree inp (a + m) (b + m) n"
  unfolding agree_def
  by (auto simp: add.assoc) (metis add_diff_inverse_nat nat_add_left_cancel_less)

lemma agree_sym: "agree inp a b n \<longleftrightarrow> agree inp b a n"
  by (auto simp: agree_def)

lemma match_bytes_correct:
  assumes "s1 \<le> t" "lim \<le> length inp" "t + matched \<le> lim" "agree inp s1 t matched"
  shows "\<exists>m. match_bytes inp s1 (t + matched) lim matched = Inr (m, m < 8) \<and> longest_match inp s1 t lim m"
  using assms(3,4)
proof (induction "lim - (t + matched)" arbitrary: matched rule: less_induct)
  case less
  show ?case
  proof (cases "t + matched < lim")
    case False
    then show ?thesis using less.prems by (subst match_bytes.simps) (auto simp: longest_match_def)
  next
    case True
    then have r: "read_at inp (s1 + matched) 1 = Inr [inp ! (s1 + matched)]" "read_at inp (t + matched) 1 = Inr [inp ! (t + matched)]"
      using assms(1,2) by (simp_all add: read_at_ok take_Suc_conv_app_nth)
    show ?thesis
    proof (cases "inp ! (s1 + matched) = inp ! (t + matched)")
      case eq: True
      have "agree inp s1 t (matched + 1)" using less.prems(2) eq by (auto simp: agree_def less_Suc_eq)
      then have "\<exists>m. match_bytes inp s1 (t + (matched + 1)) lim (matched + 1) = Inr (m, m < 8) \<and> longest_match inp s1 t lim m"
        using True by (intro less.hyps) simp_all
      then show ?thesis using True eq r by (subst match_bytes.simps) simp
    next
      case ne: False
      then show ?thesis using True r less.prems by (subst match_bytes.simps) (auto simp: longest_match_def)
    qed
  qed
qed

lemma load_differs:
  assumes "a + 8 \<le> length inp" "b + 8 \<le> length inp" "le_word (take 8 (drop a inp)) \<noteq> le_word (take 8 (drop b inp))"
  defines "m \<equiv> FindLSBSetNonZero64 (le_word (take 8 (drop a inp)) XOR le_word (take 8 (drop b inp))) div 8"
  shows "m < 8" "agree inp a b m" "inp ! (a + m) \<noteq> inp ! (b + m)"
  using first_difference [of "take 8 (drop a inp)" "take 8 (drop b inp)"] assms(1,2,3)
  by (auto simp: m_def agree_def)

lemma load_same:
  assumes "a + 8 \<le> length inp" "b + 8 \<le> length inp"
  shows "le_word (take 8 (drop a inp)) = le_word (take 8 (drop b inp)) \<longleftrightarrow> agree inp a b 8"
  using assms by (simp add: le_word_inject take_drop_eq_iff agree_def)

lemma match_rest_correct:
  assumes "s1 \<le> t" "lim \<le> length inp" "t + matched \<le> lim" "agree inp s1 t matched" "8 \<le> matched \<or> lim < t + matched + 8"
  shows "\<exists>m. match_rest inp s1 (t + matched) lim matched = Inr (m, m < 8) \<and> longest_match inp s1 t lim m"
  using assms(3,4,5)
proof (induction "lim - (t + matched)" arbitrary: matched rule: less_induct)
  case less
  show ?case
  proof (cases "t + matched + 8 \<le> lim")
    case False
    then show ?thesis using match_bytes_correct [OF assms(1,2) less.prems(1,2)]
      by (simp add: match_rest_def match_words.simps [of inp s1 "t + matched"])
  next
    case True
    have l: "t + matched + 8 \<le> length inp" "s1 + matched + 8 \<le> length inp" using True assms(1,2) by simp_all
    show ?thesis
    proof (cases "le_word (take 8 (drop (t + matched) inp)) = le_word (take 8 (drop (s1 + matched) inp))")
      case eq: True
      then have "agree inp s1 t (matched + 8)"
        using less.prems(2) load_same [OF l(2,1)] by (simp add: agree_add)
      then have "\<exists>m. match_rest inp s1 (t + (matched + 8)) lim (matched + 8) = Inr (m, m < 8) \<and> longest_match inp s1 t lim m"
        using True by (intro less.hyps) simp_all
      then show ?thesis using True eq l
        by (simp add: match_rest_def match_words.simps [of inp s1 "t + matched"] Load64_ok add.assoc)
    next
      case ne: False
      define m where "m = FindLSBSetNonZero64 (le_word (take 8 (drop (t + matched) inp)) XOR le_word (take 8 (drop (s1 + matched) inp))) div 8"
      note d = load_differs [OF l ne, folded m_def]
      have "8 \<le> matched" using less.prems(3) True by simp
      then have "match_rest inp s1 (t + matched) lim matched = Inr (matched + m, False)"
        using True ne l
        by (simp add: match_rest_def match_words.simps [of inp s1 "t + matched"] Load64_ok add.assoc m_def Let_def)
      moreover have "longest_match inp s1 t lim (matched + m)"
        using d True less.prems(2) agree_sym [of inp "s1 + matched"] by (auto simp: longest_match_def agree_add add.assoc)
      ultimately show ?thesis using \<open>8 \<le> matched\<close> by auto
    qed
  qed
qed


lemma FindMatchLength_correct:
  assumes "s1 \<le> s2" "s2 \<le> lim" "lim \<le> length inp"
  shows "\<exists>m. FindMatchLength inp s1 s2 lim = Inr (m, m < 8) \<and> longest_match inp s1 s2 lim m"
proof (cases "s2 + 8 \<le> lim")
  case False
  then show ?thesis using match_rest_correct [of s1 s2 lim inp 0] assms
    by (simp add: FindMatchLength_def agree_def)
next
  case True
  then have l: "s1 + 8 \<le> length inp" "s2 + 8 \<le> length inp" using assms by simp_all
  show ?thesis
  proof (cases "le_word (take 8 (drop s1 inp)) = le_word (take 8 (drop s2 inp))")
    case eq: True
    then have "agree inp s1 s2 8" using load_same [OF l] by simp
    from match_rest_correct [OF assms(1,3) True this] show ?thesis
      using True eq l assms(2) by (simp add: FindMatchLength_def Load64_ok)
  next
    case ne: False
    note d = load_differs [OF l ne]
    then show ?thesis using True ne l assms(2)
      by (auto simp: FindMatchLength_def Load64_ok longest_match_def intro!: exI)
  qed
qed

section \<open>Emission, correct\<close>

definition emitted :: "out \<Rightarrow> byte list \<Rightarrow> out \<Rightarrow> bool" where
  "emitted dst bs dst' \<longleftrightarrow> blk_len (fst dst') = blk_len (fst dst) \<and> snd dst' = snd dst + length bs
     \<and> blk_bytes (fst dst') (snd dst') = blk_bytes (fst dst) (snd dst) @ bs"

lemma emitted_trans: "emitted a x b \<Longrightarrow> emitted b y c \<Longrightarrow> emitted a (x @ y) c"
  by (cases a; cases b; cases c) (auto simp: emitted_def add.assoc)

lemma emitted_put: "emitted (k, op) bs (blk_put k op (bs @ ys), op + length bs)"
  by (auto simp: emitted_def blk_bytes_def blk_put_def nth_append intro!: nth_equalityI)

text \<open>
  \<open>advances inp a b bs\<close>: wherever the decoder has produced the first \<open>a\<close> bytes of \<open>inp\<close>,
  reading \<open>bs\<close> takes it to the first \<open>b\<close> bytes.
\<close>

definition advances :: "byte list \<Rightarrow> nat \<Rightarrow> nat \<Rightarrow> byte list \<Rightarrow> bool" where
  "advances inp a b bs \<longleftrightarrow> (\<forall>lim out rest. length out + b \<le> lim \<longrightarrow>
     decode lim (bs @ rest) (out @ take a inp) = decode lim rest (out @ take b inp))"

lemma advances_trans: "advances inp a b x \<Longrightarrow> advances inp b c y \<Longrightarrow> b \<le> c \<Longrightarrow> advances inp a c (x @ y)"
  by (simp add: advances_def)

lemma advances_refl: "advances inp a a []"
  by (simp add: advances_def)

lemma advances_literal:
  assumes "a < b" "b \<le> length inp" "length inp < 2 ^ 32"
  shows "advances inp a b (literal_tag (b - a) @ take (b - a) (drop a inp))"
  unfolding advances_def
proof (intro allI impI)
  fix lim out rest assume "length (out :: byte list) + b \<le> lim"
  then have "decode lim (literal_tag (length (take (b - a) (drop a inp))) @ take (b - a) (drop a inp) @ rest) (out @ take a inp)
      = decode lim rest ((out @ take a inp) @ take (b - a) (drop a inp))"
    using assms by (intro decode_literal) simp_all
  moreover have "take a inp @ take (b - a) (drop a inp) = take b inp"
    using assms(1) take_add [of a "b - a" inp] by simp
  ultimately show "decode lim ((literal_tag (b - a) @ take (b - a) (drop a inp)) @ rest) (out @ take a inp) = decode lim rest (out @ take b inp)"
    using assms by simp
qed

lemma advances_copy:
  assumes "cand < ip" "ip + len \<le> length inp" "agree inp cand ip len" "4 \<le> len" "len \<le> 64" "ip < 65536"
  shows "advances inp ip (ip + len) (copy_tag (ip - cand) len)"
  unfolding advances_def
proof (intro allI impI)
  fix lim out rest assume "length (out :: byte list) + (ip + len) \<le> lim"
  then have "decode lim (copy_tag (ip - cand) len @ rest) (out @ take ip inp)
      = decode lim rest (copy_back (ip - cand) len (out @ take ip inp))"
    using assms by (intro decode_copy) simp_all
  also have "copy_back (ip - cand) len (out @ take ip inp) = out @ take (ip + len) inp"
    using assms(1-3) by (intro copy_back_input) (simp_all add: agree_def)
  finally show "decode lim (copy_tag (ip - cand) len @ rest) (out @ take ip inp) = decode lim rest (out @ take (ip + len) inp)" .
qed

text \<open>The bytes written are the ones of the format.\<close>

lemma ucast_of_nat_down: "(ucast (of_nat n :: u32) :: byte) = of_nat n" "(ucast (of_nat n :: u64) :: byte) = of_nat n"
  by (simp_all add: unsigned_of_nat word_of_nat_eq_iff)

lemma of_nat_mod_256: "(of_nat (n mod 256) :: byte) = of_nat n"
  by (simp add: word_of_nat_eq_iff take_bit_eq_mod)

lemma literal_byte: "(ucast (LITERAL OR push_bit 2 (of_nat n) :: u32) :: byte) = of_nat (4 * n)"
proof -
  have "LITERAL OR push_bit 2 (of_nat n) = of_nat (4 * n)"
    by (simp add: LITERAL_def push_bit_eq_mult mult.commute)
  then show ?thesis by (simp only: ucast_of_nat_down)
qed

lemma and_e0: "drop_bit 3 (x :: u64) AND 0xe0 = push_bit 5 (take_bit 3 (drop_bit 8 x))"
proof -
  have "drop_bit 3 x AND push_bit 5 (mask 3) = push_bit 5 (take_bit 3 (drop_bit 8 x))"
  proof (rule bit_word_eqI)
    fix n assume "n < LENGTH(64)"
    have "8 + (n - 5) = 3 + n" if "5 \<le> n" using that by simp
    then show "bit (drop_bit 3 x AND push_bit 5 (mask 3)) n = bit (push_bit 5 (take_bit 3 (drop_bit 8 x))) n"
      using \<open>n < _\<close> by (auto simp: bit_and_iff bit_push_bit_iff bit_mask_iff bit_take_bit_iff bit_drop_bit_eq)
  qed
  moreover have "push_bit 5 (mask 3) = (0xe0 :: u64)" by (simp add: mask_eq_exp_minus_1 push_bit_eq_mult)
  ultimately show ?thesis by (simp only:)
qed

lemma drop_bit_of_nat: "n < 2 ^ 64 \<Longrightarrow> drop_bit k (of_nat n :: u64) = of_nat (n div 2 ^ k)"
  by (rule unsigned_word_eqI [where ?'a = nat])
    (simp add: unsigned_drop_bit_eq unsigned_of_nat take_bit_nat_eq_self drop_bit_eq_div [where ?'a = nat] order_le_less_trans [OF div_le_dividend])

lemma take_bit_of_nat: "n < 2 ^ k \<Longrightarrow> k \<le> 64 \<Longrightarrow> take_bit k (of_nat n :: u64) = of_nat n"
proof (rule take_bit_unat_self)
  assume "n < 2 ^ k" "k \<le> 64"
  moreover have "(2 :: nat) ^ k \<le> 2 ^ 64" using \<open>k \<le> 64\<close> by (rule power_increasing) simp
  ultimately show "unat (of_nat n :: u64) < 2 ^ k" by (simp add: unsigned_of_nat take_bit_nat_eq_self)
qed

lemma copy1_bytes:
  assumes "4 \<le> len" "offset < 2048"
  shows "(ucast (COPY_1_BYTE_OFFSET + push_bit 2 (of_nat len - 4) + (drop_bit 3 (of_nat offset) AND 0xe0) :: u64) :: byte)
      = of_nat (1 + 4 * (len - 4) + 32 * (offset div 256))"
    "(ucast (of_nat offset AND 0xff :: u64) :: byte) = of_nat (offset mod 256)"
proof -
  have "offset div 256 < 2 ^ 3" using assms(2) by (simp add: less_mult_imp_div_less)
  then have "take_bit 3 (drop_bit 8 (of_nat offset :: u64)) = of_nat (offset div 256)"
    using assms(2) by (simp add: drop_bit_of_nat take_bit_of_nat del: of_nat_div)
  moreover have "(of_nat len - 4 :: u64) = of_nat (len - 4)" using assms(1) by (simp add: of_nat_diff)
  ultimately have "COPY_1_BYTE_OFFSET + push_bit 2 (of_nat len - 4) + (drop_bit 3 (of_nat offset) AND 0xe0)
      = of_nat (1 + 4 * (len - 4) + 32 * (offset div 256))"
    by (simp only: and_e0) (simp add: COPY_1_BYTE_OFFSET_def push_bit_eq_mult)
  then show "(ucast (COPY_1_BYTE_OFFSET + push_bit 2 (of_nat len - 4) + (drop_bit 3 (of_nat offset) AND 0xe0) :: u64) :: byte)
      = of_nat (1 + 4 * (len - 4) + 32 * (offset div 256))" by (simp only: ucast_of_nat_down)
  have "of_nat offset AND 0xff = take_bit 8 (of_nat offset :: u64)" by (simp add: take_bit_eq_mask mask_eq_exp_minus_1)
  also have "(ucast (take_bit 8 (of_nat offset :: u64)) :: byte) = ucast (of_nat offset :: u64)"
    by (rule bit_word_eqI) (simp add: bit_ucast_iff bit_take_bit_iff)
  finally show "(ucast (of_nat offset AND 0xff :: u64) :: byte) = of_nat (offset mod 256)"
    by (simp only: ucast_of_nat_down of_nat_mod_256)
qed


lemma le_bytes_4: "le_bytes 4 w = [ucast w, ucast (drop_bit 8 w), ucast (drop_bit 8 (drop_bit 8 w)), ucast (drop_bit 8 (drop_bit 8 (drop_bit 8 w)))]"
proof -
  have "le_bytes (Suc (Suc (Suc (Suc 0)))) w = [ucast w, ucast (drop_bit 8 w), ucast (drop_bit 8 (drop_bit 8 w)), ucast (drop_bit 8 (drop_bit 8 (drop_bit 8 w)))]"
    by (simp only: le_bytes.simps)
  moreover have "4 = Suc (Suc (Suc (Suc 0)))" by simp
  ultimately show ?thesis by metis
qed

lemma copy2_bytes:
  assumes "4 \<le> len" "len \<le> 64" "offset < 65536"
  shows "\<exists>b. le_bytes 4 (ucast (COPY_2_BYTE_OFFSET + push_bit 2 (of_nat len - 1) + push_bit 8 (of_nat offset) :: u32))
      = [of_nat (2 + 4 * (len - 1)), of_nat (offset mod 256), of_nat (offset div 256), b]"
proof -
  define N where "N = 2 + 4 * (len - 1) + 256 * offset"
  have N: "N < 2 ^ 32" using assms by (simp add: N_def)
  have "COPY_2_BYTE_OFFSET + push_bit 2 (of_nat len - 1) + push_bit 8 (of_nat offset) = (of_nat N :: u32)"
    using assms(1) by (simp add: COPY_2_BYTE_OFFSET_def N_def push_bit_eq_mult of_nat_diff)
  then have u: "ucast (COPY_2_BYTE_OFFSET + push_bit 2 (of_nat len - 1) + push_bit 8 (of_nat offset) :: u32) = (of_nat N :: u64)"
    using N by (simp add: unsigned_of_nat take_bit_nat_eq_self del: of_nat_add)
  have "N div 256 = offset" "N div 65536 = offset div 256" 
    using assms by (simp_all add: N_def) 
  then have d: "drop_bit 8 (of_nat N :: u64) = of_nat offset" "drop_bit 8 (of_nat offset :: u64) = of_nat (offset div 256)"
    using N assms(3) by (simp_all add: drop_bit_of_nat del: of_nat_div)
  have "(of_nat N :: byte) = of_nat (N mod 256)" by (simp only: of_nat_mod_256)
  also have "N mod 256 = (2 + 4 * (len - 1)) mod 256" unfolding N_def by (rule mod_mult_self2)
  finally have "(of_nat N :: byte) = of_nat (2 + 4 * (len - 1))" by (simp only: of_nat_mod_256)
  then show ?thesis
    unfolding u le_bytes_4 d ucast_of_nat_down of_nat_mod_256 by (intro exI) (simp only:)
qed

lemma EmitCopyAtMost64_correct:
  assumes "4 \<le> len" "len \<le> 64" "offset < 65536" "op + 4 \<le> blk_len k"
  shows "\<exists>dst'. EmitCopyAtMost64 offset len (len < 12) (k, op) = Inr dst' \<and> emitted (k, op) (copy_tag offset len) dst'"
proof (cases "len < 12 \<and> offset < 2048")
  case True
  define c1 :: byte where "c1 = ucast (COPY_1_BYTE_OFFSET + push_bit 2 (of_nat len - 4) + (drop_bit 3 (of_nat offset) AND 0xe0) :: u64)"
  define c2 :: byte where "c2 = ucast (of_nat offset AND 0xff :: u64)"
  have t: "copy_tag offset len = [c1, c2]"
    unfolding copy_tag_def if_P [OF True] c1_def c2_def copy1_bytes [OF assms(1) conjunct2 [OF True]] by (rule refl)
  have "EmitCopyAtMost64 offset len (len < 12) (k, op) = Inr (blk_put k op (copy_tag offset len), op + 2)"
    using assms True blk_put_append [of k op "[c1]" "[c2]"]
    unfolding EmitCopyAtMost64_def t c1_def [symmetric] c2_def [symmetric] by (simp add: poke_def blk_put_one)
  then show ?thesis using emitted_put [of k op "copy_tag offset len" "[]"] by (auto simp: t)
next
  case False
  define u where "u = COPY_2_BYTE_OFFSET + push_bit 2 (of_nat len - 1) + push_bit 8 (of_nat offset)"
  obtain b where b: "le_bytes 4 (ucast u) = copy_tag offset len @ [b]"
    using copy2_bytes [OF assms(1-3)] unfolding u_def copy_tag_def if_not_P [OF False] append_Cons append_Nil by (rule exE)
  have l: "length (copy_tag offset len) = 3" using False by (simp add: copy_tag_def)
  have "poke_list k op (le_bytes 4 (ucast u)) = Inr (blk_put k op (copy_tag offset len @ [b]))"
    unfolding b using l assms(4) by (intro poke_list_fits) simp
  then have "EmitCopyAtMost64 offset len (len < 12) (k, op) = Inr (blk_put k op (copy_tag offset len @ [b]), op + 3)"
    using False assms(1-3) unfolding EmitCopyAtMost64_def u_def [symmetric] by simp
  then show ?thesis using emitted_put [of k op "copy_tag offset len" "[b]"] l by auto
qed

lemma length_copy_tag: "length (copy_tag offset len) \<le> 3"
  by (simp add: copy_tag_def)

lemma EmitCopyAtMost64_advances:
  assumes "cand < ip" "ip + len \<le> length inp" "agree inp cand ip len" "4 \<le> len" "len \<le> 64" "ip < 65536" "snd dst + 4 \<le> blk_len (fst dst)"
  shows "\<exists>dst' bs. EmitCopyAtMost64 (ip - cand) len (len < 12) dst = Inr dst' \<and> emitted dst bs dst'
    \<and> advances inp ip (ip + len) bs \<and> length bs \<le> 3"
proof -
  obtain k op where dst: "dst = (k, op)" by fastforce
  have "ip - cand < 65536" using assms(6) by simp
  from EmitCopyAtMost64_correct [OF assms(4,5) this, of op k] advances_copy [OF assms(1-6)] length_copy_tag [of "ip - cand" len] assms(7)
  show ?thesis unfolding dst by fastforce
qed

text \<open>The loop that emits 64-byte copies leaves 4 to 67 bytes of the match.\<close>

lemma emit_copies_correct:
  assumes "cand < ip0" "agree inp cand ip0 (ip - ip0 + len)" "ip0 \<le> ip" "ip + len \<le> length inp" "length inp \<le> 65536" "4 \<le> len"
    and "snd dst + len + 4 \<le> blk_len (fst dst)"
  shows "\<exists>dst' bs len'. emit_copies (ip0 - cand) len dst = Inr (len', dst') \<and> emitted dst bs dst'
    \<and> advances inp ip (ip + (len - len')) bs \<and> length bs + len' \<le> len \<and> 4 \<le> len' \<and> len' < 68"
  using assms(2-)
proof (induction len arbitrary: ip dst rule: less_induct)
  case (less len)
  let ?cand = "cand + (ip - ip0)"
  have off: "ip - ?cand = ip0 - cand" using less.prems(2) assms(1) by simp
  show ?case
  proof (cases "68 \<le> len")
    case False
    then show ?thesis using less.prems advances_refl [of inp ip]
      by (subst emit_copies.simps) (auto simp: emitted_def intro!: exI [of _ "[]"])
  next
    case True
    have ag: "agree inp ?cand ip (64 + (len - 64))" using less.prems(1) [unfolded agree_add] less.prems(2) True by simp
    then have "agree inp ?cand ip 64" by (simp only: agree_add)
    from EmitCopyAtMost64_advances [OF _ _ this, of dst] obtain d1 b1 where
      1: "EmitCopyAtMost64 (ip0 - cand) 64 False dst = Inr d1" "emitted dst b1 d1" "advances inp ip (ip + 64) b1" "length b1 \<le> 3"
      using less.prems assms(1) True unfolding off by force
    have "agree inp cand ip0 (ip + 64 - ip0 + (len - 64))" using less.prems(1,2) True by simp
    then have "\<exists>dst' bs len'. emit_copies (ip0 - cand) (len - 64) d1 = Inr (len', dst') \<and> emitted d1 bs dst'
      \<and> advances inp (ip + 64) (ip + 64 + (len - 64 - len')) bs \<and> length bs + len' \<le> len - 64 \<and> 4 \<le> len' \<and> len' < 68"
      using less.prems 1 True by (intro less.IH) (auto simp: emitted_def)
    then obtain d2 b2 len' where
      2: "emit_copies (ip0 - cand) (len - 64) d1 = Inr (len', d2)" "emitted d1 b2 d2"
        "advances inp (ip + 64) (ip + 64 + (len - 64 - len')) b2" "length b2 + len' \<le> len - 64" "4 \<le> len'" "len' < 68" by blast
    have "emitted dst (b1 @ b2) d2" using 1(2) 2(2) by (rule emitted_trans)
    moreover have "advances inp ip (ip + (len - len')) (b1 @ b2)"
      using advances_trans [OF 1(3) 2(3)] 2(4) True by simp
    ultimately show ?thesis using 1 2 True by (subst emit_copies.simps) (auto intro!: exI [of _ "b1 @ b2"])
  qed
qed

lemma EmitCopyAtMost64_at:
  assumes "cand < ip" "agree inp cand ip (m + len)" "ip + m + len \<le> length inp" "length inp \<le> 65536"
    "4 \<le> len" "len \<le> 64" "snd dst + 4 \<le> blk_len (fst dst)"
  obtains dst' bs where "EmitCopyAtMost64 (ip - cand) len (len < 12) dst = Inr dst'" "emitted dst bs dst'"
    "advances inp (ip + m) (ip + m + len) bs" "length bs \<le> 3"
  using EmitCopyAtMost64_advances [of "cand + m" "ip + m" len inp dst] assms by (auto simp: agree_add)

lemma EmitCopy_correct:
  assumes "cand < ip" "agree inp cand ip len" "ip + len \<le> length inp" "length inp \<le> 65536" "4 \<le> len"
    and "snd dst + len + 4 \<le> blk_len (fst dst)"
  shows "\<exists>dst' bs. EmitCopy (ip - cand) len (len < 12) dst = Inr dst' \<and> emitted dst bs dst'
    \<and> advances inp ip (ip + len) bs \<and> length bs < len"
proof (cases "len < 12")
  case True
  then show ?thesis using EmitCopyAtMost64_advances [OF assms(1,3,2,5), of dst] assms(3,4,5,6)
    by (force simp: EmitCopy_def)
next
  case False
  obtain d1 b1 l1 where 1: "emit_copies (ip - cand) len dst = Inr (l1, d1)" "emitted dst b1 d1"
      "advances inp ip (ip + (len - l1)) b1" "length b1 + l1 \<le> len" "4 \<le> l1" "l1 < 68"
    using emit_copies_correct [OF assms(1), of inp ip len dst] assms(2-) by auto
  define m where "m = len - l1"
  have m: "len = m + l1" using 1(4) by (simp add: m_def)
  have sp: "snd d1 + l1 + 4 \<le> blk_len (fst d1)" using 1(2,4) assms(6) by (simp add: emitted_def)
  show ?thesis
  proof (cases "l1 > 64")
    case short: False
    obtain d2 b2 where 2: "EmitCopyAtMost64 (ip - cand) l1 (l1 < 12) d1 = Inr d2" "emitted d1 b2 d2"
        "advances inp (ip + m) (ip + m + l1) b2" "length b2 \<le> 3"
      by (rule EmitCopyAtMost64_at [OF assms(1), of inp m l1 d1]) (use short sp 1(5) assms(2,3,4) m in simp_all)
    have "emitted dst (b1 @ b2) d2" using 1(2) 2(2) by (rule emitted_trans)
    moreover have "advances inp ip (ip + len) (b1 @ b2)"
      using advances_trans [OF 1(3) [folded m_def] 2(3)] by (simp add: m add.assoc)
    ultimately show ?thesis using False short 1 2 by (auto simp: EmitCopy_def intro!: exI [of _ "b1 @ b2"])
  next
    case long: True
    obtain d2 b2 where 2: "EmitCopyAtMost64 (ip - cand) 60 (60 < (12 :: nat)) d1 = Inr d2" "emitted d1 b2 d2"
        "advances inp (ip + m) (ip + m + 60) b2" "length b2 \<le> 3"
      by (rule EmitCopyAtMost64_at [OF assms(1), of inp m 60 d1])
        (use long sp assms(2,3,4) agree_add [of inp cand ip "m + 60" "l1 - 60"] in \<open>simp_all add: m add.assoc\<close>)
    have sp2: "snd d2 + 4 \<le> blk_len (fst d2)" using 2(2,4) sp long by (simp add: emitted_def)
    obtain d3 b3 where 3: "EmitCopyAtMost64 (ip - cand) (l1 - 60) (l1 - 60 < 12) d2 = Inr d3" "emitted d2 b3 d3"
        "advances inp (ip + (m + 60)) (ip + (m + 60) + (l1 - 60)) b3" "length b3 \<le> 3"
      by (rule EmitCopyAtMost64_at [OF assms(1), of inp "m + 60" "l1 - 60" d2])
        (use long sp2 1(6) assms(2,3,4) in \<open>simp_all add: m\<close>)
    have "emitted dst (b1 @ b2 @ b3) d3" using 1(2) 2(2) 3(2) by (blast intro: emitted_trans)
    moreover have "advances inp (ip + m) (ip + len) (b2 @ b3)"
      using advances_trans [OF 2(3), of "ip + len" b3] 3(3) long by (simp add: m add.assoc)
    then have "advances inp ip (ip + len) (b1 @ b2 @ b3)" using advances_trans [OF 1(3) [folded m_def]] by (simp add: m)
    ultimately show ?thesis using False long 1 2 3 by (auto simp: EmitCopy_def intro!: exI [of _ "b1 @ b2 @ b3"])
  qed
qed

lemma emit_length_eq:
  "op + length (len_bytes n) \<le> blk_len k \<Longrightarrow>
   emit_length n count (k, op) = Inr (count + length (len_bytes n), blk_put k op (len_bytes n), op + length (len_bytes n))"
proof (induction n arbitrary: count k op rule: len_bytes.induct)
  case (1 n)
  show ?case
  proof (cases "n = 0")
    case True
    then show ?thesis by (subst emit_length.simps) (simp add: len_bytes.simps)
  next
    case False
    then have lb: "len_bytes n = of_nat (n mod 256) # len_bytes (n div 256)" by (subst len_bytes.simps) simp
    have "emit_length n count (k, op) = emit_length (n div 256) (count + 1) (blk_put k op [of_nat (n mod 256)], op + 1)"
      using False 1(2) lb by (subst emit_length.simps) (simp add: poke_def blk_put_one)
    also have "\<dots> = Inr (count + 1 + length (len_bytes (n div 256)),
        blk_put (blk_put k op [of_nat (n mod 256)]) (op + 1) (len_bytes (n div 256)), op + 1 + length (len_bytes (n div 256)))"
      using False 1(2) lb by (intro 1(1)) simp_all
    finally show ?thesis using blk_put_append [of k op "[of_nat (n mod 256)]" "len_bytes (n div 256)"] by (simp add: lb)
  qed
qed

lemma blk_put_before: "blk_put (blk_put k (Suc op) xs) op [b] = blk_put k op (b # xs)"
  by (cases k) (auto simp: blk_put_def fun_eq_iff nth_Cons')

lemma length_literal_tag: "n < 2 ^ 32 \<Longrightarrow> length (literal_tag n) \<le> 5"
  using length_len_bytes [of "n - 1" 4] by (simp add: literal_tag_def Let_def)

text \<open>The tag of a literal that does not take the fast path.\<close>

lemma literal_tag_emitted:
  assumes "0 < len" "len < 2 ^ 32" "op + 5 \<le> blk_len k"
  shows "(if len - 1 < 60 then
            rbind (poke k op (ucast (LITERAL OR push_bit 2 (of_nat (len - 1))))) (\<lambda>k. Inr (k, op + 1))
          else
            rbind (emit_length (len - 1) 0 (k, op + 1)) (\<lambda>(count, (k, op')).
            rbind (check (count \<ge> 1)) (\<lambda>_. rbind (check (count \<le> 4)) (\<lambda>_.
            rbind (poke k op (ucast (LITERAL OR push_bit 2 (59 + of_nat count)))) (\<lambda>k. Inr (k, op'))))))
    = Inr (blk_put k op (literal_tag len), op + length (literal_tag len))"
proof (cases "len - 1 < 60")
  case True
  have t: "literal_tag len = [of_nat (4 * (len - 1))]" unfolding literal_tag_def Let_def if_P [OF True] by (rule refl)
  have "op < blk_len k" using assms(3) by simp
  then show ?thesis unfolding if_P [OF True] t literal_byte by (simp add: poke_def blk_put_one)
next
  case False
  define e where "e = len_bytes (len - 1)"
  define c :: byte where "c = of_nat (4 * (59 + length e))"
  have t: "literal_tag len = c # e" unfolding literal_tag_def Let_def if_not_P [OF False] c_def e_def by (rule refl)
  have e: "0 < length e" "length e \<le> 4" using False length_len_bytes [of "len - 1" 4] assms(2) by (auto simp: e_def)
  have em: "emit_length (len - 1) 0 (k, op + 1) = Inr (length e, blk_put k (op + 1) e, op + 1 + length e)"
    using emit_length_eq [of "op + 1" "len - 1" k 0] e(2) assms(3) by (simp add: e_def)
  have "59 + of_nat (length e) = (of_nat (59 + length e) :: u32)" by simp
  then have c: "ucast (LITERAL OR push_bit 2 (59 + of_nat (length e)) :: u32) = c"
    by (simp only: literal_byte c_def)
  show ?thesis unfolding if_not_P [OF False] em t
    using e assms(3) by (simp add: c poke_def blk_put_one blk_put_before Suc_le_eq)
qed

lemma EmitLiteral_correct:
  assumes "a < b" "b \<le> length inp" "length inp < 2 ^ 32" "fast \<longrightarrow> a + 16 \<le> length inp"
    and "snd dst + (b - a) + 21 \<le> blk_len (fst dst)"
  shows "\<exists>dst' bs. EmitLiteral inp a (b - a) fast dst = Inr dst' \<and> emitted dst bs dst'
    \<and> advances inp a b bs \<and> length bs = length (literal_tag (b - a)) + (b - a)"
proof -
  obtain k op where dst: "dst = (k, op)" by fastforce
  let ?len = "b - a" let ?xs = "take ?len (drop a inp)" let ?bs = "literal_tag ?len @ ?xs"
  have len: "0 < ?len" "?len < 2 ^ 32" "length ?xs = ?len" using assms(1-3) by simp_all
  have adv: "advances inp a b ?bs" using assms(1-3) by (rule advances_literal)
  show ?thesis
  proof (cases "fast \<and> ?len \<le> 16")
    case True
    then have t: "literal_tag ?len = [of_nat (4 * (?len - 1))]"
      unfolding literal_tag_def Let_def by (subst if_P) (linarith, simp)
    have r: "read_at inp a 16 = Inr (?xs @ take (16 - ?len) (drop b inp))"
    proof -
      have "take (?len + (16 - ?len)) (drop a inp) = ?xs @ take (16 - ?len) (drop ?len (drop a inp))" by (rule take_add)
      moreover have "drop ?len (drop a inp) = drop b inp" "?len + (16 - ?len) = 16" using assms(1) True by (simp, linarith)
      ultimately show ?thesis using True assms(4) by (simp only: read_at_ok)
    qed
    have "length (take (16 - ?len) (drop b inp)) \<le> 16 - ?len" by simp
    then have "EmitLiteral inp a ?len fast dst = Inr (blk_put k op (?bs @ take (16 - ?len) (drop b inp)), op + length ?bs)"
      using True assms(5) len blk_put_append [of k op "literal_tag ?len" "?xs @ take (16 - ?len) (drop b inp)"]
      unfolding EmitLiteral_def dst prod.case Let_def literal_byte t
      by (simp add: r poke_def blk_put_one poke_list_fits)
    moreover have "emitted dst ?bs (blk_put k op (?bs @ take (16 - ?len) (drop b inp)), op + length ?bs)"
      unfolding dst by (rule emitted_put)
    ultimately show ?thesis using adv len(3) by (intro exI [of _ "?bs"] exI) auto
  next
    case False
    have l5: "length (literal_tag ?len) \<le> 5" using len(2) by (rule length_literal_tag)
    have "EmitLiteral inp a ?len fast dst = Inr (blk_put k op ?bs, op + length ?bs)"
      unfolding EmitLiteral_def dst prod.case Let_def if_not_P [OF False]
      apply (subst literal_tag_emitted)
      using assms(2,5) dst l5 len blk_put_append [of k op "literal_tag ?len" ?xs]
      by (simp_all add: read_at_ok poke_list_fits)
    moreover have "emitted dst ?bs (blk_put k op ?bs, op + length ?bs)"
      unfolding dst using emitted_put [of k op ?bs "[]"] by simp
    ultimately show ?thesis using adv len(3) by (intro exI [of _ "?bs"] exI) auto
  qed
qed

end
