(* ===== verification/Snappy_Compress.thy ===== *)
theory Snappy_Compress
  imports Snappy_Emit
begin

text \<open>
  The compressor of \<^verbatim>\<open>snappy.cc\<close>: \<^verbatim>\<open>CompressFragment\<close> for one block of at most 64 KB, and
  \<^verbatim>\<open>Compress\<close> and \<^verbatim>\<open>RawCompress\<close> for a whole input. Every \<^verbatim>\<open>assert\<close> of the source is a
  check that fails the run, reads and writes outside an array are faults, and the loops are
  instances of \<open>loop\<close>, so a result \<open>Some (Inr r)\<close> says that the code returns, breaks no
  assertion and stays within its arrays.
\<close>

section \<open>One fragment\<close>

definition kBlockSize :: nat where "kBlockSize = 65536"
definition kMaxHashTableSize :: nat where "kMaxHashTableSize = 16384"

definition GetHashTable :: "nat \<Rightarrow> u16 list run" where
  "GetHashTable input_size =
     obind (loop (\<lambda>htsize. lift (Inr (if htsize < kMaxHashTableSize \<and> htsize < input_size
                                      then Again (2 * htsize) else Done htsize))) 256)
       (\<lambda>htsize. lift (Inr (replicate htsize 0)))"

definition GetUint32AtOffset :: "u64 \<Rightarrow> nat \<Rightarrow> u32" where
  "GetUint32AtOffset v offset = ucast (drop_bit (8 * offset) v)"

definition tab_get :: "u16 list \<Rightarrow> u32 \<Rightarrow> nat res" where
  "tab_get table hash =
     (if unat hash < length table then Inr (unat (table ! unat hash)) else Inl ObjectOverread)"

definition tab_set :: "u16 list \<Rightarrow> u32 \<Rightarrow> nat \<Rightarrow> u16 list res" where
  "tab_set table hash v =
     (if unat hash < length table then Inr (table[unat hash := of_nat v]) else Inl HeapOverflow)"

text \<open>Step 1: one round of the scan for a four-byte match. The table, the next position, its hash, the skip.\<close>

datatype found = Remainder | Match "u16 list" nat nat

definition scan_step ::
    "byte list \<Rightarrow> nat \<Rightarrow> nat \<Rightarrow> u16 list \<times> nat \<times> u32 \<times> nat \<Rightarrow> (u16 list \<times> nat \<times> u32 \<times> nat, found) round res" where
  "scan_step inp ip_limit shift = (\<lambda>(table, ip, hash, skip).
     rbind (Hash inp ip shift) (\<lambda>h. rbind (check (hash = h)) (\<lambda>_.
       (let bytes_between_hash_lookups = skip div 32;
            skip = wrap32 (skip + bytes_between_hash_lookups);
            next_ip = ip + bytes_between_hash_lookups
        in if next_ip > ip_limit then Inr (Done Remainder)
           else
             rbind (Hash inp next_ip shift) (\<lambda>next_hash.
             rbind (tab_get table hash) (\<lambda>candidate.
             rbind (check (candidate < ip)) (\<lambda>_.
             rbind (tab_set table hash ip) (\<lambda>table.
             rbind (Load32 inp ip) (\<lambda>a. rbind (Load32 inp candidate) (\<lambda>b.
               Inr (if a \<noteq> b then Again (table, next_ip, next_hash, skip)
                    else Done (Match table ip candidate))))))))))))"

text \<open>Step 3: one copy, and whether another follows at once.\<close>

datatype copied = ToRemainder out nat | ToLiteral "u16 list" out nat u64

definition copy_step ::
    "byte list \<Rightarrow> nat \<Rightarrow> nat \<Rightarrow> u16 list \<times> out \<times> nat \<times> nat \<Rightarrow> (u16 list \<times> out \<times> nat \<times> nat, copied) round res" where
  "copy_step inp ip_limit shift = (\<lambda>(table, dst, base, candidate).
     rbind (FindMatchLength inp (candidate + 4) (base + 4) (length inp)) (\<lambda>(n, less).
       (let matched = 4 + n; ip = base + matched; offset = base - candidate
        in rbind (read_at inp base matched) (\<lambda>x. rbind (read_at inp candidate matched) (\<lambda>y.
           rbind (check (x = y)) (\<lambda>_.
           rbind (EmitCopy offset matched less dst) (\<lambda>dst.
             if ip \<ge> ip_limit then Inr (Done (ToRemainder dst ip))
             else
               rbind (Load64 inp (ip - 1)) (\<lambda>input_bytes.
               rbind (tab_set table (HashBytes (GetUint32AtOffset input_bytes 0) shift) (ip - 1)) (\<lambda>table.
                 (let cur_hash = HashBytes (GetUint32AtOffset input_bytes 1) shift
                  in rbind (tab_get table cur_hash) (\<lambda>candidate.
                     rbind (Load32 inp candidate) (\<lambda>candidate_bytes.
                     rbind (tab_set table cur_hash ip) (\<lambda>table.
                       Inr (if GetUint32AtOffset input_bytes 1 = candidate_bytes
                            then Again (table, dst, ip, candidate)
                            else Done (ToLiteral table dst ip input_bytes)))))))))))))))"

text \<open>One round of the main loop: scan, literal, copies. The table, the output, \<^verbatim>\<open>ip\<close>, \<^verbatim>\<open>next_emit\<close>, \<^verbatim>\<open>next_hash\<close>.\<close>

definition fragment_step ::
    "byte list \<Rightarrow> nat \<Rightarrow> nat \<Rightarrow> u16 list \<times> out \<times> nat \<times> nat \<times> u32 \<Rightarrow>
     (u16 list \<times> out \<times> nat \<times> nat \<times> u32, out \<times> nat) round run" where
  "fragment_step inp ip_limit shift = (\<lambda>(table, dst, ip, next_emit, next_hash).
     obind (lift (check (next_emit < ip))) (\<lambda>_.
     obind (loop (\<lambda>s. lift (scan_step inp ip_limit shift s)) (table, ip, next_hash, 32)) (\<lambda>r.
       case r of
         Remainder \<Rightarrow> lift (Inr (Done (dst, next_emit)))
       | Match table ip candidate \<Rightarrow>
           obind (lift (check (next_emit + 16 \<le> length inp))) (\<lambda>_.
           obind (lift (EmitLiteral inp next_emit (ip - next_emit) True dst)) (\<lambda>dst.
           obind (loop (\<lambda>s. lift (copy_step inp ip_limit shift s)) (table, dst, ip, candidate)) (\<lambda>c.
             lift (Inr (case c of
                          ToRemainder dst next_emit \<Rightarrow> Done (dst, next_emit)
                        | ToLiteral table dst ip input_bytes \<Rightarrow>
                            Again (table, dst, ip + 1, ip, HashBytes (GetUint32AtOffset input_bytes 2) shift)))))))))"

definition kInputMarginBytes :: nat where "kInputMarginBytes = 15"

definition CompressFragment :: "byte list \<Rightarrow> u16 list \<Rightarrow> out \<Rightarrow> out run" where
  "CompressFragment inp table dst =
     (let input_size = length inp; table_size = length table
      in obind (lift (check (input_size \<le> kBlockSize))) (\<lambda>_.
         obind (lift (check (table_size AND (table_size - 1) = 0))) (\<lambda>_.
         obind (lift (Log2Floor (of_nat table_size))) (\<lambda>log.
           (let shift = nat (32 - log)
            in obind (lift (check (unat (drop_bit shift (0xFFFFFFFF :: u32)) = table_size - 1))) (\<lambda>_.
               obind (if input_size \<ge> kInputMarginBytes then
                        obind (lift (Hash inp 1 shift)) (\<lambda>next_hash.
                          loop (fragment_step inp (input_size - kInputMarginBytes) shift) (table, dst, 1, 0, next_hash))
                      else lift (Inr (dst, 0))) (\<lambda>(dst, next_emit).
                 if next_emit < input_size
                 then lift (EmitLiteral inp next_emit (input_size - next_emit) False dst)
                 else lift (Inr dst))))))))"

section \<open>A whole input\<close>

text \<open>Reading a block that the source hands out in pieces into \<^verbatim>\<open>scratch\<close>.\<close>

definition gather_step :: "'s source \<Rightarrow> nat \<Rightarrow> byte list \<times> 's \<Rightarrow> (byte list \<times> 's, byte list \<times> 's) round" where
  "gather_step S num_to_read = (\<lambda>(scratch, reader).
     if length scratch < num_to_read then
       (let fragment = Peek S reader; n = min (length fragment) (num_to_read - length scratch)
        in Again (scratch @ take n fragment, Skip S n reader))
     else Done (scratch, reader))"

definition next_fragment :: "'s source \<Rightarrow> nat \<Rightarrow> 's \<Rightarrow> (byte list \<times> 's) run" where
  "next_fragment S num_to_read reader =
     (let fragment = Peek S reader
      in obind (lift (check (length fragment \<noteq> 0))) (\<lambda>_.
         if length fragment \<ge> num_to_read
         then lift (Inr (take num_to_read fragment, Skip S num_to_read reader))
         else
           obind (loop (\<lambda>s. lift (Inr (gather_step S num_to_read s))) (fragment, Skip S (length fragment) reader))
             (\<lambda>(scratch, reader).
               obind (lift (check (length scratch = num_to_read))) (\<lambda>_. lift (Inr (scratch, reader))))))"

definition compress_step :: "'s source \<Rightarrow> 's \<times> nat \<times> out \<Rightarrow> ('s \<times> nat \<times> out, out) round run" where
  "compress_step S = (\<lambda>(reader, N, dst).
     if N > 0 then
       (let num_to_read = min N kBlockSize
        in obind (next_fragment S num_to_read reader) (\<lambda>(fragment, reader).
           obind (GetHashTable num_to_read) (\<lambda>table.
           obind (CompressFragment fragment table dst) (\<lambda>dst.
             lift (Inr (Again (reader, N - num_to_read, dst)))))))
     else lift (Inr (Done dst)))"

definition Compress :: "'s source \<Rightarrow> 's \<Rightarrow> out \<Rightarrow> out run" where
  "Compress S reader dst =
     (let N = Available S reader; ulength = Encode32 (of_nat N)
      in obind (lift (poke_list (fst dst) (snd dst) ulength)) (\<lambda>k.
         loop (compress_step S) (reader, N, (k, snd dst + length ulength))))"

definition RawCompress :: "byte list \<Rightarrow> block \<Rightarrow> out run" where
  "RawCompress input compressed = Compress ByteArraySource input (compressed, 0)"

section \<open>The hash table\<close>

definition tab_ok :: "nat \<Rightarrow> nat \<Rightarrow> u16 list \<Rightarrow> bool" where
  "tab_ok b ip table \<longleftrightarrow> length table = 2 ^ b \<and> (\<forall>e\<in>set table. unat e < ip)"

lemma tab_ok_mono: "tab_ok b ip table \<Longrightarrow> ip \<le> ip' \<Longrightarrow> tab_ok b ip' table"
  by (auto simp: tab_ok_def)

lemma HashBytes_less: "b \<le> 32 \<Longrightarrow> unat (HashBytes w (32 - b)) < 2 ^ b"
proof -
  assume b: "b \<le> 32"
  let ?x = "w * 0x1e35a7bd"
  have "unat ?x < 2 ^ LENGTH(32)" by (rule unsigned_less)
  then have x: "unat ?x < 2 ^ b * 2 ^ (32 - b)" using b by (simp add: power_add [symmetric])
  have "unat (HashBytes w (32 - b)) = unat ?x div 2 ^ (32 - b)"
    unfolding HashBytes_def unsigned_drop_bit_eq
    using \<open>unat ?x < 2 ^ LENGTH(32)\<close> by (simp add: drop_bit_eq_div [where ?'a = nat] take_bit_nat_eq_self)
  with x show ?thesis by (simp add: less_mult_imp_div_less)
qed

lemma tab_get_ok:
  assumes "tab_ok b ip table" "b \<le> 32"
  obtains c where "tab_get table (HashBytes w (32 - b)) = Inr c" "c < ip"
  using assms HashBytes_less [of b w] by (auto simp: tab_ok_def tab_get_def)

lemma tab_set_ok:
  assumes "tab_ok b ip table" "b \<le> 32" "v < ip" "ip \<le> 65536"
  obtains table' where "tab_set table (HashBytes w (32 - b)) v = Inr table'" "tab_ok b ip table'"
proof -
  have "unat (of_nat v :: u16) = v" using assms(3,4) by (simp add: unsigned_of_nat take_bit_nat_eq_self)
  then have "tab_ok b ip (table[unat (HashBytes w (32 - b)) := of_nat v])"
    using assms(1,3) by (auto simp: tab_ok_def dest!: set_update_subset_insert [THEN subsetD])
  then show ?thesis using assms(1,2) HashBytes_less [of b w] by (intro that [of "table[unat (HashBytes w (32 - b)) := of_nat v]"]) (simp_all add: tab_set_def tab_ok_def)
qed

lemma GetHashTable_ok: "\<exists>b. GetHashTable n = Some (Inr (replicate (2 ^ b) 0)) \<and> 8 \<le> b \<and> b \<le> 14"
proof -
  have "\<exists>h. loop (\<lambda>htsize. lift (Inr (if htsize < kMaxHashTableSize \<and> htsize < n then Again (2 * htsize) else Done htsize))) 256
      = Some (Inr h) \<and> (\<exists>b. h = 2 ^ b \<and> 8 \<le> b \<and> b \<le> 14)"
  proof (rule loop_rule [where I = "\<lambda>h. \<exists>b. h = 2 ^ b \<and> 8 \<le> b \<and> b \<le> 14" and m = "\<lambda>h. 16384 - h"])
    show "\<exists>b. 256 = (2 :: nat) ^ b \<and> 8 \<le> b \<and> b \<le> 14" by (intro exI [of _ 8]) simp
    fix h :: nat assume "\<exists>b. h = 2 ^ b \<and> 8 \<le> b \<and> b \<le> 14"
    then obtain b where b: "h = 2 ^ b" "8 \<le> b" "b \<le> 14" by blast
    have "b < 14" if "h < 16384"
    proof (rule ccontr)
      assume "\<not> b < 14" then have "b = 14" using b by simp with that b show False by simp
    qed
    then have "\<exists>c. 2 * h = 2 ^ c \<and> 8 \<le> c \<and> c \<le> 14" if "h < 16384" using b that by (intro exI [of _ "Suc b"]) simp
    moreover have "16384 - 2 * h < 16384 - h" if "h < 16384"
    proof -
      have "0 < h" using b(1) by simp
      then show ?thesis using that by linarith
    qed
    ultimately show "(\<exists>s'. lift (Inr (if h < kMaxHashTableSize \<and> h < n then Again (2 * h) else Done h)) = Some (Inr (Again s'))
        \<and> (\<exists>b. s' = 2 ^ b \<and> 8 \<le> b \<and> b \<le> 14) \<and> 16384 - s' < 16384 - h)
      \<or> (\<exists>r. lift (Inr (if h < kMaxHashTableSize \<and> h < n then Again (2 * h) else Done h)) = Some (Inr (Done r))
        \<and> (\<exists>b. r = 2 ^ b \<and> 8 \<le> b \<and> b \<le> 14))"
      using b by (cases "h < 16384 \<and> h < n") (auto simp: lift_def kMaxHashTableSize_def)
  qed
  then show ?thesis by (auto simp: GetHashTable_def lift_def)
qed

lemma tab_ok_init: "1 \<le> ip \<Longrightarrow> tab_ok b ip (replicate (2 ^ b) 0)"
  by (auto simp: tab_ok_def)

lemma Log2Floor_table:
  assumes "8 \<le> b" "b \<le> 14"
  shows "Log2Floor (of_nat (2 ^ b)) = Inr (int b)"
    "(2 :: nat) ^ b AND (2 ^ b - 1) = 0" "unat (drop_bit (32 - b) (0xFFFFFFFF :: u32)) = 2 ^ b - 1"
proof -
  have "b = 8 \<or> b = 9 \<or> b = 10 \<or> b = 11 \<or> b = 12 \<or> b = 13 \<or> b = 14" using assms by linarith
  then show "Log2Floor (of_nat (2 ^ b)) = Inr (int b)"
    "(2 :: nat) ^ b AND (2 ^ b - 1) = 0" "unat (drop_bit (32 - b) (0xFFFFFFFF :: u32)) = 2 ^ b - 1"
    by (auto simp: Log2Floor_def)
qed

section \<open>The loops of a fragment\<close>

lemma Hash_ok: "i + 4 \<le> length inp \<Longrightarrow> Hash inp i shift = Inr (HashBytes (word32 inp i) shift)"
  by (simp add: Hash_def Load32_ok)

lemma scan_finds:
  assumes n: "15 \<le> length inp" "length inp \<le> 65536" and b: "b \<le> 32" and ip0: "1 \<le> ip0" "ip0 \<le> length inp - 14" and t: "tab_ok b ip0 table"
  shows "\<exists>r. loop (\<lambda>s. lift (scan_step inp (length inp - 15) (32 - b) s)) (table, ip0, HashBytes (word32 inp ip0) (32 - b), 32) = Some (Inr r)
    \<and> (case r of Remainder \<Rightarrow> True
       | Match table ip cand \<Rightarrow> ip0 \<le> ip \<and> ip < length inp - 15 \<and> cand < ip \<and> agree inp cand ip 4 \<and> tab_ok b (ip + 1) table)"
proof (rule loop_rule [where m = "\<lambda>(table, ip, hash, skip). length inp - ip"
      and I = "\<lambda>(table, ip, hash, skip). ip0 \<le> ip \<and> ip \<le> length inp - 14 \<and> hash = HashBytes (word32 inp ip) (32 - b)
                 \<and> tab_ok b ip table \<and> 32 \<le> skip \<and> skip \<le> 32 + ip"], goal_cases)
  case 1
  then show ?case using ip0 t by simp
next
  case (2 s)
  then obtain table ip skip where s: "s = (table, ip, HashBytes (word32 inp ip) (32 - b), skip)"
    and I: "ip0 \<le> ip" "ip \<le> length inp - 14" "tab_ok b ip table" "32 \<le> skip" "skip \<le> 32 + ip" by auto
  let ?next = "ip + skip div 32"
  have w: "wrap32 (skip + skip div 32) = skip + skip div 32" using I n by simp
  have h: "Hash inp ip (32 - b) = Inr (HashBytes (word32 inp ip) (32 - b))" using I n by (intro Hash_ok) linarith
  have k: "1 \<le> skip div 32" using I(4) by linarith
  show ?case
  proof (cases "?next > length inp - 15")
    case True
    then show ?thesis by (simp add: s scan_step_def h Let_def lift_def)
  next
    case False
    have h2: "Hash inp ?next (32 - b) = Inr (HashBytes (word32 inp ?next) (32 - b))" using False n by (intro Hash_ok) linarith
    obtain c where c: "tab_get table (HashBytes (word32 inp ip) (32 - b)) = Inr c" "c < ip" using tab_get_ok [OF I(3) b] .
    have tm: "tab_ok b (ip + 1) table" using tab_ok_mono [OF I(3)] by simp
    have "ip < ip + 1" "ip + 1 \<le> 65536" using I(2) n by linarith+
    then obtain table' where t': "tab_set table (HashBytes (word32 inp ip) (32 - b)) ip = Inr table'" "tab_ok b (ip + 1) table'"
      by (rule tab_set_ok [OF tm b])
    have l: "Load32 inp ip = Inr (word32 inp ip)" "Load32 inp c = Inr (word32 inp c)"
      using c(2) False n k by (simp_all add: Load32_ok)
    have a: "word32 inp ip = word32 inp c \<longleftrightarrow> agree inp c ip 4"
      using word32_eq_iff [of c inp ip] c(2) False n k by (auto simp: agree_def)
    have "scan_step inp (length inp - 15) (32 - b) s = Inr (if word32 inp ip \<noteq> word32 inp c
        then Again (table', ?next, HashBytes (word32 inp ?next) (32 - b), skip + skip div 32) else Done (Match table' ip c))"
      using False c(2) by (simp add: s scan_step_def h h2 Let_def c(1) t'(1) l w)
    moreover have "tab_ok b ?next table'" using tab_ok_mono [OF t'(2), of ?next] k by simp
    moreover have "ip < length inp - 15" "?next \<le> length inp - 14" "ip < ?next" "length inp - ?next < length inp - ip" "ip0 \<le> ?next" "skip + skip div 32 \<le> 32 + ?next"
      using False k n I by linarith+
    ultimately show ?thesis
      using a c(2) t'(2) I(1,4) by (cases "word32 inp ip = word32 inp c") (simp_all add: s lift_def)
  qed
qed

lemma GetUint32AtOffset_word32:
  assumes "i + 8 \<le> length inp" "j \<le> 4"
  shows "GetUint32AtOffset (le_word (take 8 (drop i inp))) j = word32 inp (i + j)"
proof (rule bit_word_eqI)
  fix k assume k: "k < LENGTH(32)"
  have "(8 * j + k) div 8 = j + k div 8" "(8 * j + k) mod 8 = k mod 8" by simp_all
  moreover have "8 * j + k < 64" "k div 8 < 4" using k assms(2) by simp_all
  ultimately show "bit (GetUint32AtOffset (le_word (take 8 (drop i inp))) j) k = bit (word32 inp (i + j)) k"
    using k assms by (simp add: GetUint32AtOffset_def word32_def bit_ucast_iff bit_drop_bit_eq bit_le_word add.assoc)
qed

text \<open>
  What has been written since \<open>dst0\<close> stands for the first \<open>p\<close> bytes of the input and takes
  at most seven sixths of them, up to the slack \<open>y - x\<close>.
\<close>

definition written :: "byte list \<Rightarrow> out \<Rightarrow> nat \<Rightarrow> nat \<Rightarrow> nat \<Rightarrow> out \<Rightarrow> bool" where
  "written inp dst0 p x y dst \<longleftrightarrow>
     (\<exists>bs. emitted dst0 bs dst \<and> advances inp 0 p bs \<and> 6 * length bs + x \<le> 7 * p + y)"

lemma written_weaken: "written inp dst0 p x y dst \<Longrightarrow> y + x' \<le> y' + x \<Longrightarrow> written inp dst0 p x' y' dst"
  unfolding written_def by force

lemma written_room:
  assumes "written inp dst0 p x y dst" "p + m \<le> n" "y \<le> 5" "snd dst0 + n + n div 6 + 21 \<le> blk_len (fst dst0)"
  shows "snd dst + m + 20 \<le> blk_len (fst dst)"
proof -
  obtain bs where bs: "emitted dst0 bs dst" "6 * length bs + x \<le> 7 * p + y" using assms(1) by (auto simp: written_def)
  have "length bs + m \<le> n + n div 6 + 1" using bs(2) assms(2,3) by linarith
  then show ?thesis using bs(1) assms(4) by (simp add: emitted_def)
qed

lemma written_copy:
  assumes "written inp dst0 ip 0 5 dst" "cand < ip" "agree inp cand ip len" "ip + len \<le> length inp" "length inp \<le> 65536" "4 \<le> len"
    and "snd dst0 + length inp + length inp div 6 + 21 \<le> blk_len (fst dst0)"
  shows "\<exists>dst'. EmitCopy (ip - cand) len (len < 12) dst = Inr dst' \<and> written inp dst0 (ip + len) 5 0 dst'"
proof -
  have "snd dst + len + 20 \<le> blk_len (fst dst)" using assms by (intro written_room [OF assms(1)]) simp_all
  then obtain dst' bs' where d: "EmitCopy (ip - cand) len (len < 12) dst = Inr dst'" "emitted dst bs' dst'"
      "advances inp ip (ip + len) bs'" "length bs' < len"
    using EmitCopy_correct [OF assms(2-6), of dst] by auto
  obtain bs where bs: "emitted dst0 bs dst" "advances inp 0 ip bs" "6 * length bs \<le> 7 * ip + 5"
    using assms(1) by (auto simp: written_def)
  have "written inp dst0 (ip + len) 5 0 dst'"
    unfolding written_def
    using emitted_trans [OF bs(1) d(2)] advances_trans [OF bs(2) d(3)] bs(3) d(4) assms(6)
    by (intro exI [of _ "bs @ bs'"]) simp
  with d(1) show ?thesis by blast
qed

lemma copies_done:
  assumes n: "15 \<le> length inp" "length inp \<le> 65536" and b: "b \<le> 32"
    and room: "snd dst0 + length inp + length inp div 6 + 21 \<le> blk_len (fst dst0)"
    and start: "cand0 < ip0" "ip0 < length inp - 15" "agree inp cand0 ip0 4" "tab_ok b (ip0 + 1) table0" "written inp dst0 ip0 0 5 dst"
  shows "\<exists>r. loop (\<lambda>s. lift (copy_step inp (length inp - 15) (32 - b) s)) (table0, dst, ip0, cand0) = Some (Inr r)
    \<and> (case r of
         ToRemainder dst' ip \<Rightarrow> written inp dst0 ip 5 0 dst' \<and> ip \<le> length inp \<and> ip0 < ip
       | ToLiteral table dst' ip w \<Rightarrow> written inp dst0 ip 5 0 dst' \<and> ip < length inp - 15 \<and> ip0 < ip \<and> tab_ok b (ip + 1) table
           \<and> w = le_word (take 8 (drop (ip - 1) inp)))"
proof (rule loop_rule [where m = "\<lambda>(table, dst, ip, cand). length inp - ip"
      and I = "\<lambda>(table, dst, ip, cand). cand < ip \<and> ip0 \<le> ip \<and> ip < length inp - 15 \<and> agree inp cand ip 4
                 \<and> tab_ok b (ip + 1) table \<and> written inp dst0 ip 0 5 dst"], goal_cases)
  case 1
  then show ?case using start by simp
next
  case (2 s)
  then obtain table dst ip cand where s: "s = (table, dst, ip, cand)" and I: "cand < ip" "ip0 \<le> ip" "ip < length inp - 15"
      "agree inp cand ip 4" "tab_ok b (ip + 1) table" "written inp dst0 ip 0 5 dst" by auto
  have "cand + 4 \<le> ip + 4" "ip + 4 \<le> length inp" using I(1,3) by linarith+
  then obtain m where m: "FindMatchLength inp (cand + 4) (ip + 4) (length inp) = Inr (m, m < 8)" "longest_match inp (cand + 4) (ip + 4) (length inp) m"
    using FindMatchLength_correct [of "cand + 4" "ip + 4" "length inp" inp] by blast
  define len where "len = 4 + m"
  define ip' where "ip' = ip + len"
  have ag: "agree inp cand ip len" "ip' \<le> length inp"
    using m(2) I(4) by (simp_all add: longest_match_def agree_add len_def ip'_def)
  obtain dst' where d: "EmitCopy (ip - cand) len (len < 12) dst = Inr dst'" "written inp dst0 ip' 5 0 dst'"
    using written_copy [OF I(6,1) ag [unfolded ip'_def] n(2) _ room] by (auto simp: len_def ip'_def)
  have less: "(m < 8) = (len < 12)" by (auto simp: len_def)
  have lt: "ip < ip'" by (simp add: ip'_def len_def)
  have eq: "take len (drop ip inp) = take len (drop cand inp)"
    using ag I(1) by (subst take_drop_eq_iff) (auto simp: agree_def ip'_def)
  have r: "read_at inp ip len = Inr (take len (drop ip inp))" "read_at inp cand len = Inr (take len (drop ip inp))"
    using ag I(1) eq by (simp_all add: read_at_ok ip'_def)
  show ?case
  proof (cases "ip' \<ge> length inp - 15")
    case True
    have "copy_step inp (length inp - 15) (32 - b) s = Inr (Done (ToRemainder dst' ip'))"
      using True unfolding copy_step_def s prod.case m(1) rbind_simps Let_def len_def [symmetric] ip'_def [symmetric] r less d(1) by simp
    then show ?thesis using d(2) ag(2) I(2) lt by (simp add: lift_def)
  next
    case False
    let ?w = "le_word (take 8 (drop (ip' - 1) inp))"
    have w: "Load64 inp (ip' - 1) = Inr ?w" using False n by (intro Load64_ok) linarith
    have g: "GetUint32AtOffset ?w 0 = word32 inp (ip' - 1)" "GetUint32AtOffset ?w 1 = word32 inp ip'"
      using GetUint32AtOffset_word32 [of "ip' - 1" inp] False n lt by simp_all
    have tm: "tab_ok b ip' table" using tab_ok_mono [OF I(5)] lt by simp
    have "ip' - 1 < ip'" "ip' \<le> 65536" using ag(2) n lt by linarith+
    then obtain t1 where t1: "tab_set table (HashBytes (word32 inp (ip' - 1)) (32 - b)) (ip' - 1) = Inr t1" "tab_ok b ip' t1"
      by (rule tab_set_ok [OF tm b])
    obtain c where c: "tab_get t1 (HashBytes (word32 inp ip') (32 - b)) = Inr c" "c < ip'" by (rule tab_get_ok [OF t1(2) b])
    have t1m: "tab_ok b (ip' + 1) t1" using tab_ok_mono [OF t1(2)] by simp
    have "ip' < ip' + 1" "ip' + 1 \<le> 65536" using False n by linarith+
    then obtain t2 where t2: "tab_set t1 (HashBytes (word32 inp ip') (32 - b)) ip' = Inr t2" "tab_ok b (ip' + 1) t2"
      by (rule tab_set_ok [OF t1m b])
    have l: "Load32 inp c = Inr (word32 inp c)" using c(2) False n by (intro Load32_ok) linarith
    have a: "word32 inp ip' = word32 inp c \<longleftrightarrow> agree inp c ip' 4"
      using word32_eq_iff [of c inp ip'] c(2) False n by (auto simp: agree_def)
    have "copy_step inp (length inp - 15) (32 - b) s = Inr (if word32 inp ip' = word32 inp c
        then Again (t2, dst', ip', c) else Done (ToLiteral t2 dst' ip' ?w))"
      using False unfolding copy_step_def s prod.case m(1) rbind_simps Let_def len_def [symmetric] ip'_def [symmetric] r less d(1) check_def w g t1(1) c(1) l t2(1) by simp
    moreover have "written inp dst0 ip' 0 5 dst'" using d(2) by (rule written_weaken) simp
    moreover have "length inp - ip' < length inp - ip" "ip0 < ip'" using I(2,3) lt by linarith+
    ultimately show ?thesis
      using a c(2) t2(2) d(2) False by (cases "word32 inp ip' = word32 inp c") (simp_all add: s lift_def)
  qed
qed

section \<open>One fragment, correct\<close>

lemma literal_tag_slack: "0 < len \<Longrightarrow> len \<le> 65536 \<Longrightarrow>
   6 * length (literal_tag len) \<le> len + 5 \<and> (6 \<le> len \<longrightarrow> 6 * length (literal_tag len) \<le> len)"
proof -
  assume len: "0 < len" "len \<le> 65536"
  consider "len - 1 < 60" | "60 \<le> len - 1" "len - 1 < 256" | "256 \<le> len - 1" by linarith
  then show ?thesis
  proof cases
    case 1
    then have "length (literal_tag len) = 1" by (simp add: literal_tag_def)
    with len show ?thesis by simp
  next
    case 2
    then have "length (literal_tag len) \<le> 2" using length_len_bytes [of "len - 1" 1] by (simp add: literal_tag_def Let_def)
    with 2 show ?thesis by linarith
  next
    case 3
    then have "length (literal_tag len) \<le> 3" using length_len_bytes [of "len - 1" 2] len by (simp add: literal_tag_def Let_def)
    with 3 show ?thesis by linarith
  qed
qed

text \<open>Nothing has been written yet, or something with slack to spare.\<close>

definition between :: "byte list \<Rightarrow> out \<Rightarrow> nat \<Rightarrow> out \<Rightarrow> bool" where
  "between inp dst0 p dst \<longleftrightarrow> (p = 0 \<and> dst = dst0) \<or> written inp dst0 p 5 0 dst"

lemma between_written: "between inp dst0 p dst \<Longrightarrow> written inp dst0 p 0 0 dst"
  unfolding between_def
proof (elim disjE conjE)
  assume "p = 0" "dst = dst0"
  then show ?thesis by (auto simp: written_def emitted_def advances_refl intro!: exI [of _ "[]"])
next
  assume "written inp dst0 p 5 0 dst"
  then show ?thesis by (rule written_weaken) simp
qed

lemma literal_written:
  assumes "between inp dst0 a dst" "a < b" "b \<le> length inp" "length inp \<le> 65536" "fast \<longrightarrow> a + 16 \<le> length inp"
    and "snd dst0 + length inp + length inp div 6 + 21 \<le> blk_len (fst dst0)"
  shows "\<exists>dst'. EmitLiteral inp a (b - a) fast dst = Inr dst' \<and> written inp dst0 b 0 5 dst'
    \<and> (a = 0 \<and> b < 6 \<or> written inp dst0 b 0 0 dst')"
proof -
  have w: "written inp dst0 a 0 0 dst" using assms(1) by (rule between_written)
  obtain bs where bs: "emitted dst0 bs dst" "advances inp 0 a bs" "(a = 0 \<and> bs = []) \<or> 6 * length bs + 5 \<le> 7 * a"
    using assms(1) unfolding between_def
  proof (elim disjE conjE)
    assume "a = 0" "dst = dst0"
    then show ?thesis by (intro that [of "[]"]) (auto simp: emitted_def advances_refl)
  qed (auto simp: written_def)
  have "snd dst + (b - a) + 21 \<le> blk_len (fst dst)"
  proof -
    have "6 * length bs \<le> 7 * a" using bs(3) by auto
    then have "length bs + (b - a) \<le> length inp + length inp div 6" using assms(2,3) by linarith
    then show ?thesis using bs(1) assms(6) by (simp add: emitted_def)
  qed
  then obtain dst' bs' where d: "EmitLiteral inp a (b - a) fast dst = Inr dst'" "emitted dst bs' dst'" "advances inp a b bs'"
      "length bs' = length (literal_tag (b - a)) + (b - a)"
    using EmitLiteral_correct [of a b inp fast dst] assms(2-5) by auto
  have e: "emitted dst0 (bs @ bs') dst'" "advances inp 0 b (bs @ bs')"
    using emitted_trans [OF bs(1) d(2)] advances_trans [OF bs(2) d(3)] assms(2) by simp_all
  have t: "6 * length (literal_tag (b - a)) \<le> b - a + 5 \<and> (6 \<le> b - a \<longrightarrow> 6 * length (literal_tag (b - a)) \<le> b - a)"
    using assms(2-4) by (intro literal_tag_slack) simp_all
  have "6 * length (bs @ bs') \<le> 7 * b + 5" "a = 0 \<and> b < 6 \<or> 6 * length (bs @ bs') \<le> 7 * b"
    using bs(3) t d(4) assms(2) by (cases "a = 0 \<and> bs = []"; cases "6 \<le> b"; simp; linarith)+
  with d(1) e show ?thesis unfolding written_def by (metis add.right_neutral)
qed

lemma fragment_loop:
  assumes n: "15 \<le> length inp" "length inp \<le> 65536" and b: "b \<le> 32" and t0: "tab_ok b 1 table0"
    and room: "snd dst0 + length inp + length inp div 6 + 21 \<le> blk_len (fst dst0)"
  shows "\<exists>r. loop (fragment_step inp (length inp - 15) (32 - b)) (table0, dst0, 1, 0, HashBytes (word32 inp 1) (32 - b)) = Some (Inr r)
    \<and> (case r of (dst, next_emit) \<Rightarrow> between inp dst0 next_emit dst \<and> next_emit \<le> length inp)"
proof (rule loop_rule [where m = "\<lambda>(table, dst, ip, next_emit, hash). length inp - ip"
      and I = "\<lambda>(table, dst, ip, next_emit, hash). next_emit < ip \<and> ip \<le> length inp - 14 \<and> tab_ok b ip table
                 \<and> hash = HashBytes (word32 inp ip) (32 - b) \<and> between inp dst0 next_emit dst"], goal_cases)
  case 1
  then show ?case using n t0 by (auto simp: between_def)
next
  case (2 s)
  then obtain table dst ip e where s: "s = (table, dst, ip, e, HashBytes (word32 inp ip) (32 - b))"
    and I: "e < ip" "ip \<le> length inp - 14" "tab_ok b ip table" "between inp dst0 e dst" by auto
  have "1 \<le> ip" using I(1) by simp
  from scan_finds [OF n b this I(2,3)] obtain r where
    r: "loop (\<lambda>s. lift (scan_step inp (length inp - 15) (32 - b) s)) (table, ip, HashBytes (word32 inp ip) (32 - b), 32) = Some (Inr r)"
      and rc: "case r of Remainder \<Rightarrow> True
       | Match table ip' cand \<Rightarrow> ip \<le> ip' \<and> ip' < length inp - 15 \<and> cand < ip' \<and> agree inp cand ip' 4 \<and> tab_ok b (ip' + 1) table"
    by blast
  show ?case
  proof (cases r)
    case Remainder
    then show ?thesis using I r by (simp add: s fragment_step_def lift_def [of "Inr (Done _)"])
  next
    case (Match table1 ip1 cand)
    then have m: "ip \<le> ip1" "ip1 < length inp - 15" "cand < ip1" "agree inp cand ip1 4" "tab_ok b (ip1 + 1) table1" using rc by simp_all
    have e16: "e + 16 \<le> length inp" using I(1) m(1,2) n by linarith
    have "e < ip1" "ip1 \<le> length inp" using I(1) m(1,2) by linarith+
    then obtain dst1 where d1: "EmitLiteral inp e (ip1 - e) True dst = Inr dst1" "written inp dst0 ip1 0 5 dst1"
      using literal_written [OF I(4), of ip1 True] n e16 room by auto
    from copies_done [OF n b room m(3,2,4,5) d1(2)] obtain c where
      c: "loop (\<lambda>s. lift (copy_step inp (length inp - 15) (32 - b) s)) (table1, dst1, ip1, cand) = Some (Inr c)"
      and cc: "case c of
         ToRemainder dst' ip \<Rightarrow> written inp dst0 ip 5 0 dst' \<and> ip \<le> length inp \<and> ip1 < ip
       | ToLiteral table dst' ip w \<Rightarrow> written inp dst0 ip 5 0 dst' \<and> ip < length inp - 15 \<and> ip1 < ip \<and> tab_ok b (ip + 1) table
           \<and> w = le_word (take 8 (drop (ip - 1) inp))" by blast
    have st: "fragment_step inp (length inp - 15) (32 - b) s = Some (Inr (case c of
        ToRemainder dst next_emit \<Rightarrow> Done (dst, next_emit)
      | ToLiteral table dst ip input_bytes \<Rightarrow> Again (table, dst, ip + 1, ip, HashBytes (GetUint32AtOffset input_bytes 2) (32 - b))))"
      using I(1) e16 by (simp add: s fragment_step_def r Match d1(1) c) (simp add: lift_def)
    show ?thesis
    proof (cases c)
      case (ToRemainder dst2 e2)
      then show ?thesis using cc st by (simp add: between_def)
    next
      case (ToLiteral table2 dst2 ip2 w)
      then have g: "GetUint32AtOffset w 2 = word32 inp (ip2 + 1)"
      proof -
        have "ip2 - 1 + 8 \<le> length inp" "ip2 - 1 + 2 = ip2 + 1" using cc ToLiteral by auto
        then show ?thesis using GetUint32AtOffset_word32 [of "ip2 - 1" inp 2] cc ToLiteral by simp
      qed
      then show ?thesis using ToLiteral cc st m(1) by (auto simp: between_def s)
    qed
  qed
qed

text \<open>What \<^verbatim>\<open>CompressFragment\<close> has written when it returns.\<close>

definition fragment_done :: "byte list \<Rightarrow> out \<Rightarrow> out \<Rightarrow> bool" where
  "fragment_done inp dst0 dst \<longleftrightarrow> (\<exists>bs. emitted dst0 bs dst \<and> advances inp 0 (length inp) bs
     \<and> (6 * length bs \<le> 7 * length inp \<or> length inp < 6 \<and> length bs \<le> length inp + 1))"

lemma remainder_done:
  assumes "between inp dst0 e dst" "e \<le> length inp" "0 < length inp" "length inp \<le> 65536"
    and "snd dst0 + length inp + length inp div 6 + 21 \<le> blk_len (fst dst0)"
  shows "\<exists>dst'. (if e < length inp then lift (EmitLiteral inp e (length inp - e) False dst) else lift (Inr dst)) = Some (Inr dst')
    \<and> fragment_done inp dst0 dst'"
proof (cases "e < length inp")
  case True
  then obtain dst' where d: "EmitLiteral inp e (length inp - e) False dst = Inr dst'" "written inp dst0 (length inp) 0 5 dst'"
      "e = 0 \<and> length inp < 6 \<or> written inp dst0 (length inp) 0 0 dst'"
    using literal_written [OF assms(1) True _ assms(4) _ assms(5), of False] by auto
  have "fragment_done inp dst0 dst'"
    using d(3)
  proof
    assume "e = 0 \<and> length inp < 6"
    moreover obtain bs where "emitted dst0 bs dst'" "advances inp 0 (length inp) bs" "6 * length bs \<le> 7 * length inp + 5"
      using d(2) by (auto simp: written_def)
    moreover have "length bs \<le> length inp + 1" using calculation by linarith
    ultimately show ?thesis by (auto simp: fragment_done_def)
  next
    assume "written inp dst0 (length inp) 0 0 dst'"
    then show ?thesis by (auto simp: fragment_done_def written_def)
  qed
  with True d(1) show ?thesis by (simp add: lift_def)
next
  case False
  then have "written inp dst0 (length inp) 5 0 dst" using assms(1-3) by (auto simp: between_def)
  then have "fragment_done inp dst0 dst" by (auto simp: fragment_done_def written_def)
  with False show ?thesis by (simp add: lift_def)
qed

lemma CompressFragment_correct:
  assumes "0 < length inp" "length inp \<le> 65536" "8 \<le> b" "b \<le> 14"
    and "snd dst0 + length inp + length inp div 6 + 21 \<le> blk_len (fst dst0)"
  shows "\<exists>dst. CompressFragment inp (replicate (2 ^ b) 0) dst0 = Some (Inr dst) \<and> fragment_done inp dst0 dst"
proof -
  define body where "body = (if length inp \<ge> kInputMarginBytes then
      obind (lift (Hash inp 1 (32 - b))) (\<lambda>next_hash.
        loop (fragment_step inp (length inp - kInputMarginBytes) (32 - b)) (replicate (2 ^ b) 0, dst0, 1, 0, next_hash))
    else lift (Inr (dst0, 0)))"
  have "\<exists>dst e. body = Some (Inr (dst, e)) \<and> between inp dst0 e dst \<and> e \<le> length inp"
  proof (cases "15 \<le> length inp")
    case True
    then have "Hash inp 1 (32 - b) = Inr (HashBytes (word32 inp 1) (32 - b))" by (intro Hash_ok) simp
    then show ?thesis
      using True fragment_loop [OF True assms(2) _ tab_ok_init assms(5), of b] assms(4) by (auto simp: body_def kInputMarginBytes_def)
  next
    case False
    then show ?thesis by (simp add: body_def kInputMarginBytes_def lift_def between_def)
  qed
  then obtain dst e where b: "body = Some (Inr (dst, e))" "between inp dst0 e dst" "e \<le> length inp" by blast
  have sh: "nat (32 - int b) = 32 - b" by simp
  have "CompressFragment inp (replicate (2 ^ b) 0) dst0 = obind body (\<lambda>(dst, e).
      if e < length inp then lift (EmitLiteral inp e (length inp - e) False dst) else lift (Inr dst))"
    using assms(2) Log2Floor_table [OF assms(3,4)]
    by (simp add: CompressFragment_def kBlockSize_def sh body_def Let_def del: of_nat_power)
  then show ?thesis using remainder_done [OF b(2,3) assms(1,2,5)] by (simp add: b(1))
qed

section \<open>Fragments of the input\<close>

context byte_source
begin

lemma gather_correct:
  assumes "num \<le> length (content r)" "scratch = take (length scratch) (content r)" "length scratch \<le> num"
    "content r0 = drop (length scratch) (content r)"
  shows "\<exists>p. loop (\<lambda>s. lift (Inr (gather_step S num s))) (scratch, r0) = Some (Inr p)
    \<and> (case p of (s, r') \<Rightarrow> s = take num (content r) \<and> content r' = drop num (content r))"
proof (rule loop_rule [where m = "\<lambda>(s, r'). num - length s"
      and I = "\<lambda>(s, r'). s = take (length s) (content r) \<and> length s \<le> num \<and> content r' = drop (length s) (content r)"], goal_cases)
  case 1
  then show ?case using assms(2-4) by simp
next
  case (2 p)
  then obtain s r' where p: "p = (s, r')" and I: "s = take (length s) (content r)" "length s \<le> num" "content r' = drop (length s) (content r)" by auto
  show ?case
  proof (cases "length s < num")
    case False
    then show ?thesis using I by (auto simp: p gather_step_def lift_def)
  next
    case True
    define n where "n = min (length (Peek S r')) (num - length s)"
    have "content r' \<noteq> []" using I(3) True assms(1) by simp
    then have n: "0 < n" "n \<le> length (Peek S r')" "length s + n \<le> num" using peek_some [of r'] True by (auto simp: n_def)
    then have t: "take n (Peek S r') = take n (drop (length s) (content r))" using peek_take I(3) by simp
    have ln: "length (take n (Peek S r')) = n" using n(2) by simp
    have "s @ take n (Peek S r') = take (length s + n) (content r)"
      unfolding t take_add using I(1) by simp
    moreover have "content (Skip S n r') = drop (length s + n) (content r)"
      using skip [OF n(2)] I(3) by (simp add: add.commute)
    moreover have "min (length (content r)) (length s + n) = length s + n" using n(3) assms(1) by simp
    ultimately show ?thesis
      using True n ln by (auto simp: p gather_step_def lift_def n_def [symmetric] Let_def)
  qed
qed

lemma next_fragment_correct:
  assumes "0 < num" "num \<le> length (content r)"
  shows "\<exists>r'. next_fragment S num r = Some (Inr (take num (content r), r')) \<and> content r' = drop num (content r)"
proof -
  have p: "length (Peek S r) \<noteq> 0" using assms peek_some [of r] by (cases "content r = []") auto
  show ?thesis
  proof (cases "length (Peek S r) \<ge> num")
    case True
    then show ?thesis using p peek_take [OF True] skip [OF True] by (simp add: next_fragment_def lift_def [of "Inr (_, _)"])
  next
    case False
    let ?f = "Peek S r"
    have "content (Skip S (length ?f) r) = drop (length ?f) (content r)" by (rule skip) simp
    then obtain s r' where g: "loop (\<lambda>s. lift (Inr (gather_step S num s))) (?f, Skip S (length ?f) r) = Some (Inr (s, r'))"
        "s = take num (content r)" "content r' = drop num (content r)"
      using gather_correct [of num r ?f "Skip S (length ?f) r"] assms(2) False peek_prefix [of r] by auto
    then show ?thesis using p False assms(2) by (auto simp: next_fragment_def lift_def [of "Inr (_, _)"])
  qed
qed

end

section \<open>A whole input, correct\<close>

lemma advances_fragment:
  assumes "advances (take n (drop d whole)) 0 n bs" "d + n \<le> length whole"
  shows "advances whole d (d + n) bs"
  unfolding advances_def
proof (intro allI impI)
  fix lim out rest assume "length (out :: byte list) + (d + n) \<le> lim"
  moreover have "length (out @ take d whole) = length out + d" using assms(2) by simp
  ultimately have "length (out @ take d whole) + n \<le> lim" by simp
  then have "decode lim (bs @ rest) ((out @ take d whole) @ take 0 (take n (drop d whole)))
      = decode lim rest ((out @ take d whole) @ take n (take n (drop d whole)))"
    using assms(1) unfolding advances_def by blast
  then show "decode lim (bs @ rest) (out @ take d whole) = decode lim rest (out @ take (d + n) whole)"
    by (simp add: take_add)
qed

lemma length_Encode32: "length (Encode32 v) \<le> 5"
  by (simp add: Encode32_def)

context byte_source
begin

lemma compress_round:
  assumes d: "d < length whole" "content r = drop d whole" and e: "emitted dst0 bs dst" "advances whole 0 d bs" "6 * length bs \<le> 7 * d"
    and room: "snd dst0 + length whole + length whole div 6 + 21 \<le> blk_len (fst dst0)"
  shows "\<exists>r' n dst' bs'. compress_step S (r, length whole - d, dst) = Some (Inr (Again (r', length whole - (d + n), dst')))
    \<and> 0 < n \<and> d + n \<le> length whole \<and> content r' = drop (d + n) whole \<and> emitted dst0 bs' dst' \<and> advances whole 0 (d + n) bs'
    \<and> (6 * length bs' \<le> 7 * (d + n) \<or> d + n = length whole \<and> 6 * length bs' \<le> 7 * length whole + 6)"
proof -
  define n where "n = min (length whole - d) 65536"
  let ?f = "take n (drop d whole)"
  have n: "0 < n" "d + n \<le> length whole" "length ?f = n" "n \<le> 65536" using d(1) by (auto simp: n_def)
  obtain r' where f: "next_fragment S n r = Some (Inr (?f, r'))" "content r' = drop (d + n) whole"
    using next_fragment_correct [of n r] n(1) n_def d(2) by (auto simp: add.commute)
  obtain b where b: "GetHashTable n = Some (Inr (replicate (2 ^ b) 0))" "8 \<le> b" "b \<le> 14" using GetHashTable_ok by blast
  have "snd dst + length ?f + length ?f div 6 + 21 \<le> blk_len (fst dst)"
  proof -
    have "length bs + n + n div 6 \<le> length whole + length whole div 6" using e(3) n(2) by linarith
    then show ?thesis using e(1) room n(3) by (simp add: emitted_def)
  qed
  then obtain dst' bs' where c: "CompressFragment ?f (replicate (2 ^ b) 0) dst = Some (Inr dst')" "emitted dst bs' dst'"
      "advances ?f 0 n bs'" "6 * length bs' \<le> 7 * n \<or> n < 6 \<and> length bs' \<le> n + 1"
    using CompressFragment_correct [of ?f b dst] n b by (auto simp: fragment_done_def)
  have "compress_step S (r, length whole - d, dst) = Some (Inr (Again (r', length whole - (d + n), dst')))"
    using d(1) f(1) b(1) c(1) by (simp add: compress_step_def kBlockSize_def n_def [symmetric] lift_def)
  moreover have "emitted dst0 (bs @ bs') dst'" using e(1) c(2) by (rule emitted_trans)
  moreover have "advances whole 0 (d + n) (bs @ bs')"
    using advances_trans [OF e(2) advances_fragment [OF c(3) n(2)]] by simp
  moreover have "6 * length (bs @ bs') \<le> 7 * (d + n) \<or> d + n = length whole \<and> 6 * length (bs @ bs') \<le> 7 * length whole + 6"
    using c(4)
  proof
    assume "n < 6 \<and> length bs' \<le> n + 1"
    moreover from this have "d + n = length whole" using d(1) by (auto simp: n_def min_def split: if_splits)
    ultimately show ?thesis using e(3) by auto
  qed (use e(3) in simp)
  ultimately show ?thesis using n(1,2) f(2) by blast
qed

lemma compress_loop:
  assumes "content r = whole" "snd dst0 + length whole + length whole div 6 + 21 \<le> blk_len (fst dst0)"
  shows "\<exists>dst. loop (compress_step S) (r, length whole, dst0) = Some (Inr dst)
    \<and> (\<exists>bs. emitted dst0 bs dst \<and> advances whole 0 (length whole) bs \<and> 6 * length bs \<le> 7 * length whole + 6)"
proof (rule loop_rule [where m = "\<lambda>(r, N, dst). N"
      and I = "\<lambda>(r, N, dst). \<exists>d bs. d \<le> length whole \<and> N = length whole - d \<and> content r = drop d whole \<and> emitted dst0 bs dst
        \<and> advances whole 0 d bs \<and> (6 * length bs \<le> 7 * d \<or> d = length whole \<and> 6 * length bs \<le> 7 * length whole + 6)"], goal_cases)
  case 1
  then show ?case using assms(1) by (auto simp: emitted_def advances_refl intro!: exI [of _ 0] exI [of _ "[]"])
next
  case (2 s)
  then obtain r d dst bs where s: "s = (r, length whole - d, dst)" and I: "d \<le> length whole" "content r = drop d whole" "emitted dst0 bs dst"
      "advances whole 0 d bs" "6 * length bs \<le> 7 * d \<or> d = length whole \<and> 6 * length bs \<le> 7 * length whole + 6" by auto
  show ?case
  proof (cases "d = length whole")
    case True
    have "compress_step S s = Some (Inr (Done dst))" by (simp add: s True compress_step_def lift_def)
    moreover have "6 * length bs \<le> 7 * length whole + 6" using I(5) True by auto
    ultimately show ?thesis using I(3,4) True by blast
  next
    case False
    then have "d < length whole" "6 * length bs \<le> 7 * d" using I(1,5) by auto
    then obtain r' n dst' bs' where "compress_step S s = Some (Inr (Again (r', length whole - (d + n), dst')))"
      "0 < n" "d + n \<le> length whole" "content r' = drop (d + n) whole" "emitted dst0 bs' dst'" "advances whole 0 (d + n) bs'"
      "6 * length bs' \<le> 7 * (d + n) \<or> d + n = length whole \<and> 6 * length bs' \<le> 7 * length whole + 6"
      using compress_round [OF _ I(2,3,4) _ assms(2)] unfolding s by metis
    then show ?thesis using \<open>d < length whole\<close>
      by (intro disjI1 exI [of _ "(r', length whole - (d + n), dst')"]) (auto simp: s intro!: exI [of _ "d + n"] exI [of _ bs'])
  qed
qed

lemma Compress_correct:
  assumes "length (content r) < 2 ^ 32" "snd dst + MaxCompressedLength (length (content r)) \<le> blk_len (fst dst)"
  shows "\<exists>dst' bs. Compress S r dst = Some (Inr dst') \<and> emitted dst (Encode32 (of_nat (length (content r))) @ bs) dst'
    \<and> advances (content r) 0 (length (content r)) bs
    \<and> length (Encode32 (of_nat (length (content r))) @ bs) \<le> MaxCompressedLength (length (content r))"
proof -
  define whole where "whole = content r"
  define u where "u = Encode32 (of_nat (length whole))"
  obtain k op where dst: "dst = (k, op)" by fastforce
  have u: "length u \<le> 5" by (simp add: u_def length_Encode32)
  have p: "poke_list k op u = Inr (blk_put k op u)"
    using assms(2) u by (intro poke_list_fits) (simp add: dst MaxCompressedLength_def)
  let ?d = "(blk_put k op u, op + length u)"
  have e0: "emitted dst u ?d" unfolding dst using emitted_put [of k op u "[]"] by simp
  obtain dst' bs where l: "loop (compress_step S) (r, length whole, ?d) = Some (Inr dst')" "emitted ?d bs dst'"
      "advances whole 0 (length whole) bs" "6 * length bs \<le> 7 * length whole + 6"
    using compress_loop [of r whole ?d] assms(2) u by (auto simp: whole_def MaxCompressedLength_def dst)
  have "Compress S r dst = Some (Inr dst')"
    using l(1) by (simp add: Compress_def available whole_def [symmetric] u_def [symmetric] dst p)
  moreover have "length (u @ bs) \<le> MaxCompressedLength (length whole)"
    using u l(4) unfolding MaxCompressedLength_def length_append by linarith
  ultimately show ?thesis
    using emitted_trans [OF e0 l(2)] l(3) unfolding whole_def [symmetric] u_def [symmetric] by blast
qed

end

lemma RawCompress_correct:
  assumes "length input < 2 ^ 32" "MaxCompressedLength (length input) \<le> blk_len k"
  shows "\<exists>k' n. RawCompress input k = Some (Inr (k', n)) \<and> n \<le> MaxCompressedLength (length input)
    \<and> uncompressed (blk_bytes k' n) = Some input \<and> blk_len k' = blk_len k"
proof -
  obtain k' n bs where c: "RawCompress input k = Some (Inr (k', n))" "emitted (k, 0) (Encode32 (of_nat (length input)) @ bs) (k', n)"
      "advances input 0 (length input) bs" "length (Encode32 (of_nat (length input)) @ bs) \<le> MaxCompressedLength (length input)"
    using array_source.Compress_correct [of input "(k, 0)"] assms unfolding RawCompress_def by auto
  have "decode (length input) (bs @ []) ([] @ take 0 input) = decode (length input) [] ([] @ take (length input) input)"
    using c(3) unfolding advances_def by (metis add_0 list.size(3) order_refl)
  moreover have "unat (of_nat (length input) :: u32) = length input" using assms(1) by (simp add: unsigned_of_nat take_bit_nat_eq_self)
  moreover have "blk_bytes k' n = Encode32 (of_nat (length input)) @ bs" using c(2) by (auto simp: emitted_def simp del: length_append)
  ultimately have "uncompressed (blk_bytes k' n) = Some input" by (simp add: uncompressed_def Parse_Encode)
  with c(1,2,4) show ?thesis by (auto simp: emitted_def)
qed
end
