(* ===== verification/Snappy_Uncompress.thy ===== *)
theory Snappy_Uncompress
  imports Snappy_Writer Snappy_Compress
begin

text \<open>
  The decompressor of \<^verbatim>\<open>snappy.cc\<close> over any source and any writer, and the entry points built on
  it. It is proved to accept exactly the buffers the reference decoder of the format accepts and to
  write what that decoder gives, whatever the fragments a source hands out, without reading outside
  them; with the theorem on the compressor, what was compressed comes back.
\<close>

section \<open>The decompressor\<close>

text \<open>
  \<open>d_ip\<close> is the memory that can be read from \<^verbatim>\<open>ip_\<close> on, up to the end of the object it points
  into (a fragment of the source, or \<^verbatim>\<open>scratch_\<close>), and \<open>d_avail\<close> is \<^verbatim>\<open>ip_limit_ - ip_\<close>. The
  local \<^verbatim>\<open>ip\<close> of \<^verbatim>\<open>DecompressAllTags\<close> is \<open>d_ip\<close> as well: it is written back before every call
  that reads \<^verbatim>\<open>ip_\<close>. The contents of \<^verbatim>\<open>scratch_\<close> are indeterminate at first, hence an argument
  of the constructor.
\<close>

record 's decompressor =
  d_reader :: 's
  d_ip :: "byte list"
  d_avail :: nat
  d_peeked :: nat
  d_eof :: bool
  d_scratch :: "byte list"

definition new_decompressor :: "byte list \<Rightarrow> 's \<Rightarrow> 's decompressor" where
  "new_decompressor scratch reader =
     \<lparr>d_reader = reader, d_ip = [], d_avail = 0, d_peeked = 0, d_eof = False, d_scratch = scratch\<rparr>"

text \<open>The destructor.\<close>

definition close_decompressor :: "'s source \<Rightarrow> 's decompressor \<Rightarrow> 's" where
  "close_decompressor S d = Skip S (d_peeked d) (d_reader d)"

function read_length :: "'s source \<Rightarrow> 's \<Rightarrow> u32 \<Rightarrow> nat \<Rightarrow> u32 option \<times> 's" where
  "read_length S r result shift =
     (if shift \<ge> 32 then (None, r)
      else (case Peek S r of
          [] \<Rightarrow> (None, r)
        | c # _ \<Rightarrow>
            (let r = Skip S 1 r; val = ucast c AND 127
             in if drop_bit shift (push_bit shift val) \<noteq> val then (None, r)
                else (let result = result OR push_bit shift val
                      in if c < 128 then (Some result, r) else read_length S r result (shift + 7)))))"
  by pat_completeness auto
termination by (relation "measure (\<lambda>(S, r, result, shift). 32 - shift)") auto

declare read_length.simps [simp del]

definition ReadUncompressedLength :: "'s source \<Rightarrow> 's decompressor \<Rightarrow> u32 option \<times> 's decompressor" where
  "ReadUncompressedLength S d = (let (n, r) = read_length S (d_reader d) 0 0 in (n, d\<lparr>d_reader := r\<rparr>))"

definition scratch_put :: "byte list \<Rightarrow> nat \<Rightarrow> byte list \<Rightarrow> byte list res" where
  "scratch_put scratch i bs =
     (if i + length bs \<le> length scratch then Inr (take i scratch @ bs @ drop (i + length bs) scratch)
      else Inl HeapOverflow)"

definition stitch_step :: "'s source \<Rightarrow> nat \<Rightarrow> 's decompressor \<times> nat
    \<Rightarrow> ('s decompressor \<times> nat, bool \<times> 's decompressor \<times> nat) round run" where
  "stitch_step S needed = (\<lambda>(d, nbuf).
     if nbuf < needed then
       (let src = Peek S (d_reader d); len = length src
        in if len = 0 then lift (Inr (Done (False, d, nbuf)))
           else (let to_add = min (needed - nbuf) (wrap32 len)
                 in lift (rbind (read_at src 0 to_add) (\<lambda>bs. rbind (scratch_put (d_scratch d) nbuf bs) (\<lambda>scratch.
                      Inr (Again (d\<lparr>d_scratch := scratch, d_reader := Skip S to_add (d_reader d)\<rparr>, wrap32 (nbuf + to_add))))))))
     else lift (Inr (Done (True, d, nbuf))))"

definition to_scratch :: "'s source \<Rightarrow> 's decompressor \<Rightarrow> nat \<Rightarrow> 's decompressor run" where
  "to_scratch S d nbuf =
     lift (rbind (rbind (read_at (d_ip d) 0 nbuf) (scratch_put (d_scratch d) 0)) (\<lambda>scratch.
       Inr (d\<lparr>d_scratch := scratch, d_reader := Skip S (d_peeked d) (d_reader d), d_peeked := 0\<rparr>)))"

text \<open>The tag at \<^verbatim>\<open>ip\<close> with its trailing bytes, moved to \<^verbatim>\<open>scratch_\<close> unless the fragment has enough.\<close>

definition refill_bytes :: "'s source \<Rightarrow> 's decompressor \<Rightarrow> (bool \<times> 's decompressor) run" where
  "refill_bytes S d =
     obind (lift (check (d_avail d > 0))) (\<lambda>_.
     obind (lift (read_at (d_ip d) 0 1)) (\<lambda>cs.
     let entry = char_table ! unat (hd cs); needed = entry div 2048 + 1
     in obind (lift (check (needed \<le> length (d_scratch d)))) (\<lambda>_.
        let nbuf = wrap32 (d_avail d)
        in if nbuf < needed then
             obind (to_scratch S d nbuf) (\<lambda>d.
             obind (loop (stitch_step S needed) (d, nbuf)) (\<lambda>(ok, d, nbuf).
               if \<not> ok then lift (Inr (False, d))
               else obind (lift (check (nbuf = needed))) (\<lambda>_.
                 lift (Inr (True, d\<lparr>d_ip := d_scratch d, d_avail := needed\<rparr>)))))
           else if nbuf < kMaximumTagLength then
             obind (to_scratch S d nbuf) (\<lambda>d. lift (Inr (True, d\<lparr>d_ip := d_scratch d, d_avail := nbuf\<rparr>)))
           else lift (Inr (True, d)))))"

definition RefillTag :: "'s source \<Rightarrow> 's decompressor \<Rightarrow> (bool \<times> 's decompressor) run" where
  "RefillTag S d =
     (if d_avail d = 0 then
        (let r = Skip S (d_peeked d) (d_reader d); ip = Peek S r; n = length ip;
             d = d\<lparr>d_reader := r, d_peeked := wrap32 n, d_eof := (n = 0)\<rparr>
         in if n = 0 then lift (Inr (False, d)) else refill_bytes S (d\<lparr>d_ip := ip, d_avail := n\<rparr>))
      else refill_bytes S d)"

definition MAYBE_REFILL :: "'s source \<Rightarrow> 's decompressor \<Rightarrow> (bool \<times> 's decompressor) run" where
  "MAYBE_REFILL S d = (if d_avail d < kMaximumTagLength then RefillTag S d else lift (Inr (True, d)))"

text \<open>\<^verbatim>\<open>ip += n\<close>; that \<^verbatim>\<open>ip\<close> does not pass \<^verbatim>\<open>ip_limit_\<close> is checked here and proved below.\<close>

definition advance :: "nat \<Rightarrow> 's decompressor \<Rightarrow> 's decompressor res" where
  "advance n d = (if n \<le> d_avail d then Inr (d\<lparr>d_ip := drop n (d_ip d), d_avail := d_avail d - n\<rparr>) else Inl ObjectOverread)"

definition literal_step :: "'s source \<Rightarrow> 'w decompression_writer \<Rightarrow> 's decompressor \<times> 'w \<times> nat
    \<Rightarrow> ('s decompressor \<times> 'w \<times> nat, bool \<times> 's decompressor \<times> 'w \<times> nat) round run" where
  "literal_step S W = (\<lambda>(d, w, literal_length).
     let avail = d_avail d
     in if avail < literal_length then
          obind (Append W (d_ip d) avail w) (\<lambda>(ok, w).
          if \<not> ok then lift (Inr (Done (False, d, w, literal_length)))
          else (let literal_length = literal_length - avail; r = Skip S (d_peeked d) (d_reader d);
                    ip = Peek S r; avail = length ip; d = d\<lparr>d_reader := r, d_peeked := wrap32 avail\<rparr>
                in if avail = 0 then lift (Inr (Done (False, d, w, literal_length)))
                   else lift (Inr (Again (d\<lparr>d_ip := ip, d_avail := avail\<rparr>, w, literal_length)))))
        else lift (Inr (Done (True, d, w, literal_length))))"

text \<open>What follows every element: \<open>finish_tag\<close> goes round the loop when a further tag is there.\<close>

definition finish_tag :: "'s source \<Rightarrow> 's decompressor \<Rightarrow> 'w \<Rightarrow> ('s decompressor \<times> 'w, 's decompressor \<times> 'w) round run" where
  "finish_tag S d w = obind (MAYBE_REFILL S d) (\<lambda>(ok, d). lift (Inr (if ok then Again (d, w) else Done (d, w))))"

text \<open>The length of a literal, which a long one has in the bytes behind its tag.\<close>

definition long_length :: "'s decompressor \<Rightarrow> nat \<Rightarrow> ('s decompressor \<times> nat) run" where
  "long_length d len =
     (if len \<ge> 61 then
        (let literal_length_length = len - 60
         in obind (lift (Load32 (d_ip d) 0)) (\<lambda>v.
            obind (lift (advance literal_length_length d)) (\<lambda>d.
              lift (Inr (d, unat ((v AND wordmask ! literal_length_length) + 1))))))
      else lift (Inr (d, len)))"

definition literal_bytes :: "'s source \<Rightarrow> 'w decompression_writer \<Rightarrow> 's decompressor \<Rightarrow> 'w \<Rightarrow> nat
    \<Rightarrow> ('s decompressor \<times> 'w, 's decompressor \<times> 'w) round run" where
  "literal_bytes S W d w len =
     obind (loop (literal_step S W) (d, w, len)) (\<lambda>(ok, d, w, literal_length).
     if \<not> ok then lift (Inr (Done (d, w)))
     else obind (Append W (d_ip d) literal_length w) (\<lambda>(ok, w).
       if \<not> ok then lift (Inr (Done (d, w)))
       else obind (lift (advance literal_length d)) (\<lambda>d. finish_tag S d w)))"

definition literal_tag_step :: "'s source \<Rightarrow> 'w decompression_writer \<Rightarrow> byte \<Rightarrow> 's decompressor \<Rightarrow> 'w
    \<Rightarrow> ('s decompressor \<times> 'w, 's decompressor \<times> 'w) round run" where
  "literal_tag_step S W c d w =
     (let literal_length = unat (drop_bit 2 c) + 1
      in obind (TryFastAppend W (d_ip d) (d_avail d) literal_length w) (\<lambda>(ok, w).
         if ok then obind (lift (check (literal_length < 61))) (\<lambda>_.
           obind (lift (advance literal_length d)) (\<lambda>d. lift (Inr (Again (d, w)))))
         else obind (long_length d literal_length) (\<lambda>(d, literal_length). literal_bytes S W d w literal_length)))"

definition copy_tag_step :: "'s source \<Rightarrow> 'w decompression_writer \<Rightarrow> byte \<Rightarrow> 's decompressor \<Rightarrow> 'w
    \<Rightarrow> ('s decompressor \<times> 'w, 's decompressor \<times> 'w) round run" where
  "copy_tag_step S W c d w =
     (let entry = char_table ! unat c
      in obind (lift (Load32 (d_ip d) 0)) (\<lambda>v.
         let trailer = unat (v AND wordmask ! (entry div 2048)); len = entry AND 0xff; copy_offset = entry AND 0x700
         in obind (lift (advance (entry div 2048) d)) (\<lambda>d.
            obind (AppendFromSelf W (copy_offset + trailer) len w) (\<lambda>(ok, w).
            if \<not> ok then lift (Inr (Done (d, w))) else finish_tag S d w))))"

definition tag_step :: "'s source \<Rightarrow> 'w decompression_writer \<Rightarrow> 's decompressor \<times> 'w
    \<Rightarrow> ('s decompressor \<times> 'w, 's decompressor \<times> 'w) round run" where
  "tag_step S W = (\<lambda>(d, w).
     obind (lift (read_at (d_ip d) 0 1)) (\<lambda>cs.
     obind (lift (advance 1 d)) (\<lambda>d.
       let c = hd cs
       in if ucast (c AND 3) = LITERAL then literal_tag_step S W c d w else copy_tag_step S W c d w)))"

definition DecompressAllTags :: "'s source \<Rightarrow> 'w decompression_writer \<Rightarrow> 's decompressor \<Rightarrow> 'w
    \<Rightarrow> ('s decompressor \<times> 'w) run" where
  "DecompressAllTags S W d w =
     obind (MAYBE_REFILL S d) (\<lambda>(ok, d).
       if \<not> ok then lift (Inr (d, w)) else loop (tag_step S W) (d, w))"

definition InternalUncompressAllTags :: "'s source \<Rightarrow> 'w decompression_writer \<Rightarrow> 's decompressor \<Rightarrow> 'w \<Rightarrow> u32
    \<Rightarrow> (bool \<times> 's decompressor \<times> 'w) run" where
  "InternalUncompressAllTags S W d w uncompressed_len =
     obind (DecompressAllTags S W d (SetExpectedLength W (unat uncompressed_len) w)) (\<lambda>(d, w).
       lift (Inr (d_eof d \<and> CheckLength W w, d, w)))"

definition InternalUncompress :: "byte list \<Rightarrow> 's source \<Rightarrow> 'w decompression_writer \<Rightarrow> 's \<Rightarrow> 'w
    \<Rightarrow> (bool \<times> 's \<times> 'w) run" where
  "InternalUncompress scratch S W r w =
     (case ReadUncompressedLength S (new_decompressor scratch r) of
        (None, d) \<Rightarrow> lift (Inr (False, close_decompressor S d, w))
      | (Some uncompressed_len, d) \<Rightarrow>
          obind (InternalUncompressAllTags S W d w uncompressed_len) (\<lambda>(ok, d, w).
            lift (Inr (ok, close_decompressor S d, w))))"

definition GetUncompressedLength_source :: "'s source \<Rightarrow> 's \<Rightarrow> u32 option \<times> 's" where
  "GetUncompressedLength_source S r =
     (let (n, d) = ReadUncompressedLength S (new_decompressor [] r) in (n, close_decompressor S d))"

definition GetUncompressedLength :: "byte list \<Rightarrow> u32 option" where
  "GetUncompressedLength start = (case Parse32WithLimit start of None \<Rightarrow> None | Some (v, _) \<Rightarrow> Some v)"

definition RawUncompress :: "byte list \<Rightarrow> byte list \<Rightarrow> block \<Rightarrow> (bool \<times> block) run" where
  "RawUncompress scratch compressed dst =
     obind (InternalUncompress scratch ByteArraySource SnappyArrayWriter compressed (new_array_writer dst))
       (\<lambda>(ok, _, w). lift (Inr (ok, aw_dst w)))"

definition IsValidCompressedBuffer :: "byte list \<Rightarrow> byte list \<Rightarrow> bool run" where
  "IsValidCompressedBuffer scratch compressed =
     obind (InternalUncompress scratch ByteArraySource SnappyDecompressionValidator compressed new_validator)
       (\<lambda>(ok, _, _). lift (Inr ok))"

section \<open>The length at the front, correct\<close>

context byte_source
begin

lemma read_length_Nil: "content r = [] \<Longrightarrow> read_length S r result shift = (None, r)"
  using peek_le [of r] by (subst read_length.simps) auto

lemma read_length_Cons:
  assumes "content r = c # s" "shift < 32"
  obtains r' where "content r' = s" "read_length S r result shift =
     (if drop_bit shift (push_bit shift (ucast c AND 127)) \<noteq> (ucast c AND 127 :: u32) then (None, r')
      else if c < 128 then (Some (result OR push_bit shift (ucast c AND 127)), r')
      else read_length S r' (result OR push_bit shift (ucast c AND 127)) (shift + 7))"
proof -
  obtain cs where p: "Peek S r = c # cs" using peek_some [of r] peek_prefix [of r] assms(1) by (cases "Peek S r") auto
  have "content (Skip S 1 r) = s" using skip [of 1 r] assms(1) p by simp
  moreover have "read_length S r result shift =
     (if drop_bit shift (push_bit shift (ucast c AND 127)) \<noteq> (ucast c AND 127 :: u32) then (None, Skip S 1 r)
      else if c < 128 then (Some (result OR push_bit shift (ucast c AND 127)), Skip S 1 r)
      else read_length S (Skip S 1 r) (result OR push_bit shift (ucast c AND 127)) (shift + 7))"
    using assms(2) p by (subst read_length.simps) (simp add: Let_def)
  ultimately show thesis by (rule that)
qed

end

lemma group_fits: "shift \<le> 25 \<Longrightarrow> drop_bit shift (push_bit shift (x AND 127)) = (x AND 127 :: u32)"
  unfolding and_127 by (rule bit_word_eqI) (auto simp: bit_drop_bit_eq bit_push_bit_iff bit_take_bit_iff)

lemma group_28: "drop_bit 28 (push_bit 28 (ucast c AND 127)) = (ucast c AND 127 :: u32) \<longleftrightarrow> unat (c :: byte) mod 128 < 16"
proof -
  have t: "drop_bit 28 (push_bit 28 x) = take_bit 4 x" for x :: u32
    by (rule bit_word_eqI) (auto simp: bit_drop_bit_eq bit_push_bit_iff bit_take_bit_iff)
  have u: "unat (ucast c AND 127 :: u32) = unat c mod 128"
    unfolding and_127 unsigned_take_bit_eq by (simp add: take_bit_eq_mod unsigned_ucast_eq mod_mod_cancel)
  show ?thesis
  proof
    assume "drop_bit 28 (push_bit 28 (ucast c AND 127)) = (ucast c AND 127 :: u32)"
    then have "unat (take_bit 4 (ucast c AND 127 :: u32)) = unat (ucast c AND 127 :: u32)" unfolding t by (rule arg_cong)
    then have "take_bit 4 (unat (ucast c AND 127 :: u32)) = unat (ucast c AND 127 :: u32)" unfolding unsigned_take_bit_eq .
    then have "unat (ucast c AND 127 :: u32) mod 2 ^ 4 = unat c mod 128" unfolding take_bit_eq_mod u .
    moreover have "unat (ucast c AND 127 :: u32) mod 2 ^ 4 < 2 ^ 4" by (rule mod_less_divisor) simp
    ultimately show "unat c mod 128 < 16" by simp
  next
    assume "unat c mod 128 < 16"
    then show "drop_bit 28 (push_bit 28 (ucast c AND 127)) = (ucast c AND 127 :: u32)"
      unfolding t by (intro take_bit_unat_self) (simp add: u)
  qed
qed

text \<open>Reading from a source what parsing gives on a list.\<close>

definition reads :: "('s \<Rightarrow> byte list) \<Rightarrow> u32 option \<times> 's \<Rightarrow> (u32 \<times> byte list) option \<Rightarrow> bool" where
  "reads content x y \<longleftrightarrow>
     (case y of None \<Rightarrow> fst x = None | Some (v, s) \<Rightarrow> fst x = Some v \<and> content (snd x) = s)"

lemma last_group: "(c :: byte) < 16 \<longleftrightarrow> c < 128 \<and> unat c mod 128 < 16"
  by (auto simp: word_less_nat_alt)

context byte_source
begin

lemma read_group:
  assumes "shift \<le> 21"
    and "\<And>c r'. \<not> c < 128 \<Longrightarrow> reads content (read_length S r' (result OR push_bit shift (ucast c AND 127)) shift') (f c (content r'))"
    and "shift' = shift + 7"
  shows "reads content (read_length S r result shift) (next_byte (content r) (\<lambda>c s.
    if c < 128 then Some (result OR push_bit shift (ucast c AND 127), s) else f c s))"
proof (cases "content r")
  case Nil
  then show ?thesis by (simp add: read_length_Nil reads_def next_byte_def)
next
  case (Cons c s)
  then obtain r' where r': "content r' = s" "read_length S r result shift =
     (if c < 128 then (Some (result OR push_bit shift (ucast c AND 127)), r')
      else read_length S r' (result OR push_bit shift (ucast c AND 127)) (shift + 7))"
    using read_length_Cons [of r c s shift result] assms(1) group_fits [of shift "ucast c"] by (auto split: if_splits)
  show ?thesis
  proof (cases "c < 128")
    case True
    then show ?thesis using r' by (simp add: Cons reads_def)
  next
    case False
    then show ?thesis using r' assms(2) [of c r'] assms(3) by (simp add: Cons)
  qed
qed

lemma read_last_group:
  "reads content (read_length S r result 28) (next_byte (content r) (\<lambda>c s.
    if c < 16 then Some (result OR push_bit 28 (ucast c AND 127), s) else None))"
proof (cases "content r")
  case Nil
  then show ?thesis by (simp add: read_length_Nil reads_def next_byte_def)
next
  case (Cons c s)
  obtain r' where r': "content r' = s" "read_length S r result 28 =
     (if drop_bit 28 (push_bit 28 (ucast c AND 127)) \<noteq> (ucast c AND 127 :: u32) then (None, r')
      else if c < 128 then (Some (result OR push_bit 28 (ucast c AND 127)), r')
      else read_length S r' (result OR push_bit 28 (ucast c AND 127)) (28 + 7))"
    by (rule read_length_Cons [OF Cons, of 28 result]) simp_all
  have e: "read_length S r' x (28 + 7) = (None, r')" for x by (subst read_length.simps) simp
  have "read_length S r result 28 = (if c < 16 then Some (result OR push_bit 28 (ucast c AND 127)) else None, r')"
    unfolding r'(2) e group_28 last_group by (cases "c < 128"; cases "unat c mod 128 < 16") simp_all
  then show ?thesis using r'(1) Cons by (simp add: reads_def)
qed

lemma read_first_group:
  assumes "\<And>c r'. \<not> c < 128 \<Longrightarrow> reads content (read_length S r' (ucast c AND 127) 7) (f c (content r'))"
  shows "reads content (read_length S r 0 0) (next_byte (content r) (\<lambda>c s.
    if c < 128 then Some (ucast c AND 127, s) else f c s))"
  using read_group [of 0 0 7 f r] assms by (simp cong: if_cong)

lemma read_length_correct: "reads content (read_length S r 0 0) (Parse32WithLimit (content r))"
  unfolding Parse32WithLimit_def Let_def
  by (rule read_first_group, rule read_group [where shift' = 14], simp, rule read_group [where shift' = 21], simp,
      rule read_group [where shift' = 28], simp, rule read_last_group) simp_all

end

section \<open>Tags, correct\<close>

text \<open>
  What is left of the input, and that the decompressor is in order: the readable bytes at \<^verbatim>\<open>ip\<close>
  reach \<^verbatim>\<open>ip_limit_\<close>, no more is to be skipped than was peeked, and lengths fit 32 bits.
\<close>

definition unread :: "('s \<Rightarrow> byte list) \<Rightarrow> 's decompressor \<Rightarrow> byte list" where
  "unread content d = take (d_avail d) (d_ip d) @ drop (d_peeked d) (content (d_reader d))"

definition dec_ok :: "'s source \<Rightarrow> ('s \<Rightarrow> byte list) \<Rightarrow> 's decompressor \<Rightarrow> bool" where
  "dec_ok S content d \<longleftrightarrow> d_avail d \<le> length (d_ip d) \<and> d_avail d < 2 ^ 32 \<and> d_peeked d \<le> length (Peek S (d_reader d))
     \<and> length (content (d_reader d)) < 2 ^ 32 \<and> length (d_scratch d) = 5 \<and> \<not> d_eof d"

text \<open>A whole tag with its trailing bytes is buffered, and a 32-bit load behind it stays in bounds.\<close>

definition tag_ready :: "'s decompressor \<Rightarrow> bool" where
  "tag_ready d \<longleftrightarrow> 5 \<le> length (d_ip d) \<and> extra (hd (d_ip d)) < d_avail d"

text \<open>
  What fetching a tag comes to: one is ready, or the input is at its end, or it breaks off within
  a tag.
\<close>

definition fetched :: "'s source \<Rightarrow> ('s \<Rightarrow> byte list) \<Rightarrow> 's decompressor \<Rightarrow> bool \<times> 's decompressor \<Rightarrow> bool" where
  "fetched S content d x \<longleftrightarrow>
     (if fst x then dec_ok S content (snd x) \<and> unread content (snd x) = unread content d \<and> tag_ready (snd x)
      else if unread content d = [] then d_eof (snd x)
      else \<not> d_eof (snd x) \<and> length (unread content d) \<le> extra (hd (unread content d)))"

lemma fetched_cong: "unread content d = unread content d' \<Longrightarrow> fetched S content d x \<longleftrightarrow> fetched S content d' x"
  by (simp add: fetched_def)

text \<open>While a tag is stitched together: \<open>n\<close> bytes are in \<^verbatim>\<open>scratch_\<close>, the rest in the source.\<close>

definition stitched :: "('s \<Rightarrow> byte list) \<Rightarrow> 's decompressor \<Rightarrow> byte list \<Rightarrow> 's decompressor \<Rightarrow> nat \<Rightarrow> bool" where
  "stitched content d T d' n \<longleftrightarrow> d_peeked d' = d_peeked d \<and> d_eof d' = d_eof d \<and> length (d_scratch d') = 5
     \<and> length (content (d_reader d')) < 2 ^ 32 \<and> take n (d_scratch d') @ content (d_reader d') = T"

lemma scratch_put_ok:
  assumes "i + length bs \<le> length scratch"
  shows "scratch_put scratch i bs = Inr (take i scratch @ bs @ drop (i + length bs) scratch)"
  using assms by (simp add: scratch_put_def)

lemma advance_ok:
  "n \<le> d_avail d \<Longrightarrow> advance n d = Inr (d\<lparr>d_ip := drop n (d_ip d), d_avail := d_avail d - n\<rparr>)"
  by (simp add: advance_def)

lemma unread_advance:
  assumes "n \<le> d_avail d" "d_avail d \<le> length (d_ip d)"
  shows "unread content (d\<lparr>d_ip := drop n (d_ip d), d_avail := d_avail d - n\<rparr>) = drop n (unread content d)"
  using assms by (simp add: unread_def drop_take)

lemma dec_ok_advance: "dec_ok S content d \<Longrightarrow> dec_ok S content (d\<lparr>d_ip := drop n (d_ip d), d_avail := d_avail d - n\<rparr>)"
  by (auto simp: dec_ok_def)

context byte_source
begin

lemma stitch_correct:
  assumes "length (d_scratch d) = 5" "nbuf < needed" "needed \<le> 5" "length (content (d_reader d)) < 2 ^ 32"
    and T: "take nbuf (d_scratch d) @ content (d_reader d) = T"
  shows "\<exists>x. loop (stitch_step S needed) (d, nbuf) = Some (Inr x) \<and> (case x of (ok, d', n) \<Rightarrow>
    stitched content d T d' n \<and> n \<le> needed \<and> (if ok then n = needed else length T < needed))"
proof (rule loop_rule [where m = "\<lambda>(d', n). needed - n" and I = "\<lambda>(d', n). stitched content d T d' n \<and> n \<le> needed"], goal_cases)
  case 1
  then show ?case using assms by (simp add: stitched_def)
next
  case (2 s)
  then obtain d' n where s: "s = (d', n)" "stitched content d T d' n" "n \<le> needed" by auto
  let ?r = "d_reader d'"
  consider "n = needed" | "n < needed" "Peek S ?r = []" | "n < needed" "Peek S ?r \<noteq> []" using s(3) by fastforce
  then show ?case
  proof cases
    case 1
    then show ?thesis using s by (simp add: stitch_step_def lift_def)
  next
    case 2
    then have "content ?r = []" using peek_some by blast
    then have "length T < needed" using s(2) 2(1) by (auto simp: stitched_def)
    then show ?thesis using s 2 by (simp add: stitch_step_def lift_def)
  next
    case 3
    define m where "m = min (needed - n) (length (Peek S ?r))"
    have l: "length (Peek S ?r) < 2 ^ 32" using peek_le [of ?r] s(2) unfolding stitched_def by linarith
    have m: "0 < m" "m \<le> length (Peek S ?r)" "n + m \<le> needed" using 3 by (auto simp: m_def)
    let ?bs = "take m (Peek S ?r)" let ?sc = "take n (d_scratch d') @ ?bs @ drop (n + m) (d_scratch d')"
    have b: "?bs = take m (content ?r)" by (rule peek_take [OF m(2)])
    have lb: "length ?bs = m" using m(2) by simp
    let ?s = "(d'\<lparr>d_scratch := ?sc, d_reader := Skip S m ?r\<rparr>, n + m)"
    have "length (d_scratch d') = 5" using s(2) by (simp add: stitched_def)
    then have "scratch_put (d_scratch d') n ?bs = Inr ?sc" using scratch_put_ok [of n ?bs] m assms(3) lb by simp
    moreover have "wrap32 (n + m) = n + m" using m assms(3) by simp
    ultimately have "stitch_step S needed s = Some (Inr (Again ?s))"
      using 3 l m by (simp add: s(1) stitch_step_def lift_def Let_def m_def [symmetric] read_at_def)
    moreover have "stitched content d T (fst ?s) (snd ?s)"
      using s(2) m lb assms(3) skip [OF m(2)] b append_take_drop_id [of m "content ?r"] unfolding stitched_def by auto
    ultimately show ?thesis using m 3(1) by (auto simp: s(1))
  qed
qed

lemma to_scratch_ok:
  assumes "dec_ok S content d" "n = d_avail d" "n \<le> 5"
  obtains d' where "to_scratch S d n = Some (Inr d')" "stitched content d' (unread content d) d' n" "d_peeked d' = 0" "\<not> d_eof d'"
proof -
  let ?sc = "take n (d_ip d) @ drop n (d_scratch d)" let ?r = "Skip S (d_peeked d) (d_reader d)"
  let ?d = "d\<lparr>d_scratch := ?sc, d_reader := ?r, d_peeked := 0\<rparr>"
  have l: "n \<le> length (d_ip d)" "length (d_scratch d) = 5" using assms by (auto simp: dec_ok_def)
  have c: "content ?r = drop (d_peeked d) (content (d_reader d))" by (rule skip) (use assms in \<open>simp add: dec_ok_def\<close>)
  have "to_scratch S d n = Some (Inr ?d)"
    using l assms(3) by (simp add: to_scratch_def read_at_def scratch_put_ok lift_def)
  moreover have "length (content ?r) < 2 ^ 32" using c assms(1) unfolding dec_ok_def length_drop c by linarith
  then have "stitched content ?d (unread content d) ?d n"
    using l c assms(2,3) by (simp add: stitched_def unread_def)
  ultimately show thesis using that [of ?d] assms(1) by (simp add: dec_ok_def)
qed

lemma refilled:
  assumes "stitched content d0 (unread content d) d' n" "d_peeked d0 = 0" "\<not> d_eof d0" "0 < n" "n \<le> 5"
    and "hd (unread content d) = c" "extra c < n"
  defines "d'' \<equiv> d'\<lparr>d_ip := d_scratch d', d_avail := n\<rparr>"
  shows "\<not> d_eof d'' \<and> dec_ok S content d'' \<and> unread content d'' = unread content d \<and> tag_ready d''"
proof -
  have "hd (d_scratch d') = c"
    unfolding assms(6) [symmetric] using assms(1,4,5) by (cases "d_scratch d'"; cases n) (auto simp: stitched_def dest: arg_cong [of _ _ hd])
  then show ?thesis using assms by (simp add: stitched_def dec_ok_def unread_def tag_ready_def)
qed

lemma refill_bytes_correct:
  assumes d: "dec_ok S content d" "0 < d_avail d"
  shows "\<exists>x. refill_bytes S d = Some (Inr x) \<and> fetched S content d x"
proof -
  obtain c cs where ip: "d_ip d = c # cs" using d by (cases "d_ip d") (auto simp: dec_ok_def)
  define n where "n = d_avail d"
  have n: "wrap32 n = n" "0 < n" "n \<le> length (d_ip d)" "length (d_scratch d) = 5" "\<not> d_eof d" using d by (auto simp: n_def dec_ok_def)
  have ne: "unread content d \<noteq> []" using d by (auto simp: unread_def ip)
  have hd: "hd (unread content d) = c" using d(2) by (cases "d_avail d") (auto simp: unread_def ip)
  have pre: "refill_bytes S d =
     (if n < extra c + 1 then
        obind (to_scratch S d n) (\<lambda>d. obind (loop (stitch_step S (extra c + 1)) (d, n)) (\<lambda>(ok, d, nbuf).
          if \<not> ok then lift (Inr (False, d))
          else obind (lift (check (nbuf = extra c + 1))) (\<lambda>_. lift (Inr (True, d\<lparr>d_ip := d_scratch d, d_avail := extra c + 1\<rparr>)))))
      else if n < kMaximumTagLength then
        obind (to_scratch S d n) (\<lambda>d. lift (Inr (True, d\<lparr>d_ip := d_scratch d, d_avail := n\<rparr>)))
      else lift (Inr (True, d)))"
    using n extra_le [of c] unfolding refill_bytes_def n_def [symmetric] ip
    by (simp add: read_at_def Let_def extra_def [symmetric] cong: if_cong)
  show ?thesis
  proof (cases "n < 5")
    case True
    obtain d1 where t: "to_scratch S d n = Some (Inr d1)" "stitched content d1 (unread content d) d1 n" "d_peeked d1 = 0" "\<not> d_eof d1"
      by (rule to_scratch_ok [OF d(1) n_def]) (use True in simp_all)
    show ?thesis
    proof (cases "n < extra c + 1")
      case short: True
      obtain ok d2 n2 where l: "loop (stitch_step S (extra c + 1)) (d1, n) = Some (Inr (ok, d2, n2))" "stitched content d1 (unread content d) d2 n2"
        "if ok then n2 = extra c + 1 else length (unread content d) < extra c + 1"
        using stitch_correct [of d1 n "extra c + 1" "unread content d"] t(2) short extra_le [of c] by (auto simp: stitched_def)
      show ?thesis
      proof (cases ok)
        case True
        let ?d = "d2\<lparr>d_ip := d_scratch d2, d_avail := extra c + 1\<rparr>"
        have n2: "n2 = extra c + 1" using l(3) True by simp
        have "\<not> d_eof ?d \<and> dec_ok S content ?d \<and> unread content ?d = unread content d \<and> tag_ready ?d"
          unfolding n2 [symmetric] by (rule refilled [OF l(2) t(3,4) _ _ hd]) (use n2 extra_le [of c] in simp_all)
        moreover have "refill_bytes S d = Some (Inr (True, ?d))" using short t(1) l(1) True n2 by (simp add: pre lift_def)
        ultimately show ?thesis by (auto simp: fetched_def)
      next
        case False
        then have "refill_bytes S d = Some (Inr (False, d2))" using short t(1) l(1) by (simp add: pre lift_def)
        then show ?thesis using False l(2,3) t(4) hd ne by (auto simp: stitched_def fetched_def)
      qed
    next
      case False
      let ?d = "d1\<lparr>d_ip := d_scratch d1, d_avail := n\<rparr>"
      have "\<not> d_eof ?d \<and> dec_ok S content ?d \<and> unread content ?d = unread content d \<and> tag_ready ?d"
        by (rule refilled [OF t(2,3,4) n(2) _ hd]) (use False True in simp_all)
      moreover have "refill_bytes S d = Some (Inr (True, ?d))" using False True t(1) by (simp add: pre lift_def kMaximumTagLength_def)
      ultimately show ?thesis by (auto simp: fetched_def)
    qed
  next
    case False
    then have "refill_bytes S d = Some (Inr (True, d))" using extra_le [of c] by (simp add: pre lift_def kMaximumTagLength_def)
    moreover have "tag_ready d" using False n ip extra_le [of c] by (auto simp: tag_ready_def n_def [symmetric])
    ultimately show ?thesis using d by (auto simp: fetched_def)
  qed
qed

lemma RefillTag_correct:
  assumes d: "dec_ok S content d"
  shows "\<exists>x. RefillTag S d = Some (Inr x) \<and> fetched S content d x"
proof (cases "d_avail d = 0")
  case False
  then show ?thesis using refill_bytes_correct [OF d] by (simp add: RefillTag_def)
next
  case True
  let ?r = "Skip S (d_peeked d) (d_reader d)"
  have c: "content ?r = unread content d" using skip [of "d_peeked d" "d_reader d"] d True by (simp add: unread_def dec_ok_def)
  show ?thesis
  proof (cases "Peek S ?r = []")
    case empty: True
    then have "unread content d = []" using peek_some [of ?r] c by auto
    then show ?thesis using empty True by (simp add: RefillTag_def lift_def fetched_def)
  next
    case False
    let ?d = "d\<lparr>d_reader := ?r, d_peeked := wrap32 (length (Peek S ?r)), d_eof := False, d_ip := Peek S ?r, d_avail := length (Peek S ?r)\<rparr>"
    have "length (content ?r) \<le> length (content (d_reader d))" using c True by (simp add: unread_def)
    then have l: "length (content ?r) < 2 ^ 32" "length (Peek S ?r) < 2 ^ 32" using peek_le [of ?r] d unfolding dec_ok_def by linarith+
    then have "dec_ok S content ?d" using d by (simp add: dec_ok_def)
    then obtain x where "refill_bytes S ?d = Some (Inr x)" "fetched S content ?d x" using refill_bytes_correct [of ?d] False by auto
    moreover have "unread content ?d = unread content d"
      using l(2) c peek_prefix [of ?r] append_take_drop_id [of "length (Peek S ?r)" "content ?r"] by (simp add: unread_def)
    moreover have "RefillTag S d = refill_bytes S ?d" using True False by (simp add: RefillTag_def Let_def)
    ultimately show ?thesis using fetched_cong [of content ?d d S x] by simp
  qed
qed

lemma MAYBE_REFILL_correct:
  assumes d: "dec_ok S content d"
  shows "\<exists>x. MAYBE_REFILL S d = Some (Inr x) \<and> fetched S content d x"
proof (cases "d_avail d < kMaximumTagLength")
  case True
  then show ?thesis using RefillTag_correct [OF d] by (simp add: MAYBE_REFILL_def)
next
  case False
  then have "tag_ready d" using d extra_le [of "hd (d_ip d)"] by (auto simp: tag_ready_def dec_ok_def kMaximumTagLength_def)
  then show ?thesis using False d by (auto simp: MAYBE_REFILL_def lift_def fetched_def)
qed

end

text \<open>The bytes that follow a tag, fetched by one load and a mask.\<close>

lemma wordmask_mask: "n \<le> 4 \<Longrightarrow> wordmask ! n = mask (8 * n)"
proof -
  assume "n \<le> 4"
  then consider "n = 0" | "n = 1" | "n = 2" | "n = 3" | "n = 4" by linarith
  then show ?thesis by cases (simp_all add: wordmask_def mask_eq_exp_minus_1)
qed

lemma Load32_masked:
  assumes "4 \<le> length ip" "n \<le> 4"
  obtains v where "Load32 ip 0 = Inr v" "v AND wordmask ! n = ucast (le_word (take n ip))"
proof -
  have "ucast (le_word (take 4 ip)) AND mask (8 * n) = (ucast (le_word (take n ip)) :: u32)"
    by (rule bit_word_eqI) (use assms in \<open>auto simp: bit_and_iff bit_mask_iff bit_ucast_iff bit_le_word\<close>)
  then show thesis using that [of "ucast (le_word (take 4 ip))"] assms by (simp add: Load32_def read_at_def wordmask_mask)
qed

lemma unat_le_word_32: "length bs \<le> 4 \<Longrightarrow> unat (ucast (le_word bs) :: u32) = unat (le_word bs)"
proof -
  assume l: "length bs \<le> 4"
  have "ucast (ucast (le_word bs) :: u32) = le_word bs"
    by (rule bit_word_eqI) (use l in \<open>auto simp: bit_ucast_iff bit_le_word\<close>)
  then have "unat (ucast (ucast (le_word bs) :: u32) :: u64) = unat (le_word bs)" by (rule arg_cong)
  moreover have "unat (ucast (x :: u32) :: u64) = unat x" for x
    using unsigned_less [of x, where ?'a = nat] by (simp add: unsigned_ucast_eq take_bit_nat_eq_self)
  ultimately show ?thesis by simp
qed

section \<open>Elements, correct\<close>

locale decompression = byte_source S content + writer_contract W R fresh
  for S :: "'s source" and content :: "'s \<Rightarrow> byte list" and W :: "'w decompression_writer"
    and R :: "'w \<Rightarrow> byte list \<Rightarrow> nat \<Rightarrow> bool" and fresh :: "'w \<Rightarrow> nat \<Rightarrow> bool"
begin

lemma skip_peeked:
  assumes "dec_ok S content d"
  shows "content (Skip S (d_peeked d) (d_reader d)) = drop (d_peeked d) (content (d_reader d))"
    "length (content (Skip S (d_peeked d) (d_reader d))) < 2 ^ 32"
proof -
  show e: "content (Skip S (d_peeked d) (d_reader d)) = drop (d_peeked d) (content (d_reader d))"
    by (rule skip) (use assms in \<open>simp add: dec_ok_def\<close>)
  show "length (content (Skip S (d_peeked d) (d_reader d))) < 2 ^ 32"
    unfolding e length_drop using assms unfolding dec_ok_def by linarith
qed

text \<open>
  The loop over the fragments a literal spans: it comes to the fragment with the end of the
  literal, or stops when the output is full or the input ends.
\<close>

lemma literal_round:
  assumes d: "dec_ok S content d" and w: "R w out lim" and n: "d_avail d < n" "n < 2 ^ 32"
  shows "(\<exists>d' w'. literal_step S W (d, w, n) = Some (Inr (Again (d', w', n - d_avail d))) \<and> dec_ok S content d'
      \<and> R w' (out @ take (d_avail d) (unread content d)) lim \<and> unread content d' = drop (d_avail d) (unread content d) \<and> 0 < d_avail d')
    \<or> (\<exists>d' w' n'. literal_step S W (d, w, n) = Some (Inr (Done (False, d', w', n'))) \<and> \<not> d_eof d'
      \<and> \<not> (n \<le> length (unread content d) \<and> length out + n \<le> lim))"
proof -
  define m where "m = d_avail d"
  have m: "m \<le> length (d_ip d)" "m < 2 ^ 32" "m < n" "\<not> d_eof d" using d n by (auto simp: dec_ok_def m_def)
  let ?r = "Skip S (d_peeked d) (d_reader d)"
  note c = skip_peeked [OF d]
  have u: "take m (unread content d) = take m (d_ip d)" "drop m (unread content d) = content ?r"
    using m(1) c by (simp_all add: unread_def m_def)
  obtain w' where w': "Append W (d_ip d) m w = Some (Inr (length out + m \<le> lim, w'))" "length out + m \<le> lim \<longrightarrow> R w' (out @ take m (d_ip d)) lim"
    using append [OF w m(1,2)] by blast
  show ?thesis
  proof (cases "length out + m \<le> lim")
    case False
    then show ?thesis using w' m by (auto simp: literal_step_def lift_def m_def [symmetric])
  next
    case fits: True
    show ?thesis
    proof (cases "Peek S ?r = []")
      case True
      then have "content ?r = []" using peek_some by blast
      then have "length (unread content d) < n" using u m(3) by (metis append_take_drop_id append_Nil2 length_take min.strict_coboundedI1 min.commute)
      then show ?thesis using w' m fits True by (auto simp: literal_step_def lift_def m_def [symmetric])
    next
      case False
      let ?d = "d\<lparr>d_reader := ?r, d_peeked := wrap32 (length (Peek S ?r)), d_ip := Peek S ?r, d_avail := length (Peek S ?r)\<rparr>"
      have l: "length (Peek S ?r) < 2 ^ 32" using peek_le [of ?r] c(2) by linarith
      then have "dec_ok S content ?d" using c(2) d by (simp add: dec_ok_def)
      moreover have "unread content ?d = content ?r"
        using l peek_prefix [of ?r] append_take_drop_id [of "length (Peek S ?r)" "content ?r"] by (simp add: unread_def)
      moreover have "literal_step S W (d, w, n) = Some (Inr (Again (?d, w', n - m)))"
        using w'(1) m fits False by (simp add: literal_step_def lift_def m_def [symmetric] Let_def)
      ultimately show ?thesis using w'(2) fits u False unfolding m_def [symmetric]
        by (intro disjI1 exI [of _ ?d] exI [of _ w']) simp
    qed
  qed
qed

lemma literal_loop:
  assumes "dec_ok S content d" "R w out lim" "n < 2 ^ 32"
  defines "U \<equiv> unread content d"
  shows "\<exists>x. loop (literal_step S W) (d, w, n) = Some (Inr x) \<and> (case x of (ok, d', w', n') \<Rightarrow>
    if ok then \<exists>m. m + n' = n \<and> m \<le> length U \<and> dec_ok S content d' \<and> n' \<le> d_avail d' \<and> R w' (out @ take m U) lim \<and> unread content d' = drop m U
    else \<not> d_eof d' \<and> (length U < n \<or> lim < length out + n))"
proof (rule loop_rule [where m = "\<lambda>(d', w', n'). 2 * n' + (if d_avail d' = 0 then 1 else 0)"
      and I = "\<lambda>(d', w', n'). \<exists>m. m + n' = n \<and> m \<le> length U \<and> dec_ok S content d' \<and> R w' (out @ take m U) lim \<and> unread content d' = drop m U"], goal_cases)
  case 1
  then show ?case using assms by simp
next
  case (2 s)
  then obtain d' w' n' m where s: "s = (d', w', n')" and I: "m + n' = n" "m \<le> length U" "dec_ok S content d'" "R w' (out @ take m U) lim"
    "unread content d' = drop m U" by auto
  show ?case
  proof (cases "d_avail d' < n'")
    case False
    then have "literal_step S W s = Some (Inr (Done (True, d', w', n')))" by (simp add: s literal_step_def lift_def)
    then show ?thesis using I False by auto
  next
    case True
    let ?a = "d_avail d'"
    have a: "?a \<le> length (drop m U)" using I(3) unfolding I(5) [symmetric] by (simp add: unread_def dec_ok_def)
    have n': "n' < 2 ^ 32" using I(1) assms(3) by simp
    from literal_round [OF I(3,4) True n'] show ?thesis
    proof (elim disjE exE conjE)
      fix d'' w'' assume l: "literal_step S W (d', w', n') = Some (Inr (Again (d'', w'', n' - d_avail d')))" "dec_ok S content d''"
        "R w'' ((out @ take m U) @ take (d_avail d') (unread content d')) lim" "unread content d'' = drop (d_avail d') (unread content d')" "0 < d_avail d''"
      have "m + ?a + (n' - ?a) = n" "m + ?a \<le> length U" using I(1,2) True a by simp_all
      moreover have "R w'' (out @ take (m + ?a) U) lim" "unread content d'' = drop (m + ?a) U"
        using l(3,4) by (simp_all add: I(5) take_add add.commute)
      moreover have "2 * (n' - ?a) + (if d_avail d'' = 0 then 1 else 0) < 2 * n' + (if ?a = 0 then 1 else 0)" using True l(5) by auto
      ultimately show ?thesis using l(1,2) unfolding s by (intro disjI1 exI [of _ "(d'', w'', n' - ?a)"]) (simp only: prod.case, blast)
    next
      fix d'' w'' n'' assume "literal_step S W (d', w', n') = Some (Inr (Done (False, d'', w'', n'')))" "\<not> d_eof d''"
        "\<not> (n' \<le> length (unread content d') \<and> length (out @ take m U) + n' \<le> lim)"
      then show ?thesis using I(1,2) unfolding s I(5) by auto
    qed
  qed
qed

end

text \<open>
  The loop over the elements against the reference decoder: as long as it goes on, what the decoder
  makes of the rest of the input is \<open>res\<close>, and when it stops it has reported \<open>res\<close>.
\<close>

definition goes_on :: "'s source \<Rightarrow> ('s \<Rightarrow> byte list) \<Rightarrow> ('w \<Rightarrow> byte list \<Rightarrow> nat \<Rightarrow> bool) \<Rightarrow> nat \<Rightarrow> byte list option
    \<Rightarrow> 's decompressor \<times> 'w \<Rightarrow> bool" where
  "goes_on S content R lim res x \<longleftrightarrow> dec_ok S content (fst x) \<and> tag_ready (fst x)
     \<and> (\<exists>out. R (snd x) out lim \<and> decode lim (unread content (fst x)) out = res)"

definition reported :: "('w \<Rightarrow> byte list \<Rightarrow> nat \<Rightarrow> bool) \<Rightarrow> nat \<Rightarrow> byte list option \<Rightarrow> 's decompressor \<times> 'w \<Rightarrow> bool" where
  "reported R lim res x \<longleftrightarrow>
     (case res of None \<Rightarrow> \<not> d_eof (fst x) | Some out \<Rightarrow> d_eof (fst x) \<and> R (snd x) out lim)"

definition one_step :: "'s source \<Rightarrow> ('s \<Rightarrow> byte list) \<Rightarrow> ('w \<Rightarrow> byte list \<Rightarrow> nat \<Rightarrow> bool) \<Rightarrow> nat \<Rightarrow> byte list option \<Rightarrow> nat
    \<Rightarrow> ('s decompressor \<times> 'w, 's decompressor \<times> 'w) round run \<Rightarrow> bool" where
  "one_step S content R lim res n x \<longleftrightarrow>
     (\<exists>y. x = Some (Inr (Again y)) \<and> goes_on S content R lim res y \<and> length (unread content (fst y)) < n)
     \<or> (\<exists>y. x = Some (Inr (Done y)) \<and> reported R lim res y)"

lemma one_step_stop: "\<not> d_eof d \<Longrightarrow> res = None \<Longrightarrow> one_step S content R lim res n (Some (Inr (Done (d, w))))"
  by (simp add: one_step_def reported_def)

lemma tag_ready_avail: "dec_ok S content d \<Longrightarrow> 5 \<le> d_avail d \<Longrightarrow> tag_ready d"
  using extra_le [of "hd (d_ip d)"] by (auto simp: tag_ready_def dec_ok_def)

lemma extra_literal:
  assumes "c AND 3 = 0"
  shows "unat (drop_bit 2 c) = unat c div 4" "extra c = unat c div 4 - 59"
proof -
  have t: "take_bit 8 (unat c) = unat c" by (rule take_bit_nat_eq_self) simp
  show "unat (drop_bit 2 c) = unat c div 4"
    unfolding unsigned_drop_bit_eq drop_bit_eq_div [where ?'a = nat] by (simp add: t)
  show "extra c = unat c div 4 - 59"
  proof (cases "unat c div 4 < 60")
    case True
    then show ?thesis using assms unfolding and_3_mod_4 extra_def char_table_nth table_entry_def by simp
  next
    case False
    define q where "q = unat c div 4 - 59"
    have "(q * 2048 + 1) div 2048 = q" by simp
    then show ?thesis using assms False unfolding and_3_mod_4 extra_def char_table_nth table_entry_def q_def by simp
  qed
qed

lemma copy_fields: "char_table ! unat c AND 0xff = copy_length c" "copy_length c < 2 ^ 32"
proof -
  have "n AND 0xff = n mod 256" for n :: nat using take_bit_eq_mask [of 8 n] by (simp add: mask_eq_exp_minus_1 take_bit_eq_mod)
  then show "char_table ! unat c AND 0xff = copy_length c" unfolding copy_length_def .
  have "copy_length c < 256" unfolding copy_length_def by simp
  then show "copy_length c < 2 ^ 32" by simp
qed

lemma copy_offset_less: "length ext \<le> 4 \<Longrightarrow> copy_offset c ext < 2 ^ 64"
proof -
  assume "length ext \<le> 4"
  then have "unat (le_word ext) < 2 ^ 32" using unsigned_less [of "ucast (le_word ext) :: u32", where ?'a = nat] by (simp add: unat_le_word_32)
  moreover have "list_all (\<lambda>e. e AND 0x700 \<le> 0x700) char_table" by (simp add: char_table_def)
  then have "char_table ! unat c AND 0x700 \<le> 0x700" by (simp add: list_all_length char_table_eq)
  moreover have "0x700 + 2 ^ 32 < (2 :: nat) ^ 64" by simp
  ultimately show ?thesis unfolding copy_offset_def by linarith
qed

lemma literal_length_less: "literal_length c ext < 2 ^ 32"
proof (cases "ext = []")
  case True
  have "unat c div 4 < 256" using unat_byte_less [of c] by linarith
  then show ?thesis using True by (simp add: literal_length_def)
next
  case False
  then show ?thesis using unsigned_less [of "ucast (le_word ext) + 1 :: u32", where ?'a = nat] by (simp add: literal_length_def)
qed

lemma ucast_byte_0: "(ucast (x :: byte) :: u32) = 0 \<longleftrightarrow> x = 0"
proof
  assume "(ucast x :: u32) = 0"
  then have "(ucast (ucast x :: u32) :: byte) = ucast (0 :: u32)" by (rule arg_cong)
  moreover have "(ucast (ucast x :: u32) :: byte) = x" by (rule bit_word_eqI) (simp add: bit_ucast_iff)
  ultimately show "x = 0" by simp
qed simp

lemma Parse32_shorter: "Parse32WithLimit p = Some (v, s) \<Longrightarrow> length s \<le> length p"
  unfolding Parse32WithLimit_def next_byte_def Let_def by (simp split: list.splits if_splits) auto

context decompression
begin

lemma finish_tag_step:
  assumes d: "dec_ok S content d" and "R w out lim" "decode lim (unread content d) out = res" "length (unread content d) < n"
  shows "one_step S content R lim res n (finish_tag S d w)"
proof -
  obtain ok d' where f: "MAYBE_REFILL S d = Some (Inr (ok, d'))" "fetched S content d (ok, d')" using MAYBE_REFILL_correct [OF d] by auto
  show ?thesis
  proof (cases ok)
    case True
    then show ?thesis using f assms by (auto simp: finish_tag_def lift_def one_step_def goes_on_def fetched_def)
  next
    case False
    have "reported R lim res (d', w)"
    proof (cases "unread content d")
      case Nil
      then show ?thesis using f(2) False assms(2,3) by (auto simp: fetched_def reported_def)
    next
      case (Cons c s)
      then have "length s < extra c" "\<not> d_eof d'" using f(2) False by (auto simp: fetched_def)
      moreover from this have "res = None" using assms(3) Cons by simp
      ultimately show ?thesis by (simp add: reported_def)
    qed
    then show ?thesis using f(1) False by (simp add: finish_tag_def lift_def one_step_def)
  qed
qed

lemma copy_tag_correct:
  assumes d: "dec_ok S content d" "extra c \<le> d_avail d" "4 \<le> length (d_ip d)" and w: "R w out lim" and c: "c AND 3 \<noteq> 0"
    and n: "length (unread content d) < n"
  shows "one_step S content R lim (decode lim (c # unread content d) out) n (copy_tag_step S W c d w)"
proof -
  let ?ext = "take (extra c) (unread content d)" let ?off = "copy_offset c ?ext"
  let ?d = "d\<lparr>d_ip := drop (extra c) (d_ip d), d_avail := d_avail d - extra c\<rparr>"
  have ext: "take (extra c) (d_ip d) = ?ext" "length ?ext = extra c" using d by (auto simp: unread_def dec_ok_def)
  obtain v where v: "Load32 (d_ip d) 0 = Inr v" "v AND wordmask ! extra c = ucast (le_word ?ext)"
    using Load32_masked [OF d(3) extra_le, of c] ext(1) by metis
  have t: "(char_table ! unat c AND 0x700) + unat (v AND wordmask ! extra c) = ?off"
    using unat_le_word_32 [of ?ext] ext(2) extra_le [of c] unfolding copy_offset_def v(2) by simp
  obtain ok w' where a: "AppendFromSelf W ?off (copy_length c) w = Some (Inr (ok, w'))"
    "ok \<longleftrightarrow> ?off \<noteq> 0 \<and> ?off \<le> length out \<and> length out + copy_length c \<le> lim" "ok \<longrightarrow> R w' (copy_back ?off (copy_length c) out) lim"
    using append_from_self [OF w copy_offset_less copy_fields(2), of ?ext c c] ext(2) extra_le [of c] by auto
  have step: "copy_tag_step S W c d w = (if ok then finish_tag S ?d w' else Some (Inr (Done (?d, w'))))"
    using a(1) d(2) v(1) t unfolding copy_tag_step_def extra_def [symmetric] copy_fields Let_def by (simp add: advance_ok lift_def)
  have u: "unread content ?d = drop (extra c) (unread content d)" using d unfolding dec_ok_def by (intro unread_advance) auto
  have "decode lim (c # unread content d) out = (if ok then decode lim (unread content ?d) (copy_back ?off (copy_length c) out) else None)"
    using c ext(2) unfolding u a(2) by (auto simp: Let_def)
  then show ?thesis
    using finish_tag_step [OF dec_ok_advance [OF d(1)], of w' "copy_back ?off (copy_length c) out" lim "extra c" _ n] a(3) u n d(1) one_step_stop [of ?d]
    by (cases ok) (simp_all add: step dec_ok_def)
qed

text \<open>A literal once its length is known.\<close>

lemma literal_rest_correct:
  assumes d: "dec_ok S content d" and w: "R w out lim" and l: "l < 2 ^ 32" and n: "length (unread content d) < n"
    and res: "res = (if length (unread content d) < l \<or> lim < length out + l then None else decode lim (drop l (unread content d)) (out @ take l (unread content d)))"
  shows "one_step S content R lim res n (literal_bytes S W d w l)"
proof -
  define U where "U = unread content d"
  obtain ok d' w' l' where x: "loop (literal_step S W) (d, w, l) = Some (Inr (ok, d', w', l'))"
    "if ok then \<exists>m. m + l' = l \<and> m \<le> length U \<and> dec_ok S content d' \<and> l' \<le> d_avail d' \<and> R w' (out @ take m U) lim \<and> unread content d' = drop m U
     else \<not> d_eof d' \<and> (length U < l \<or> lim < length out + l)"
    using literal_loop [OF d w l] unfolding U_def [symmetric] by auto
  show ?thesis
  proof (cases ok)
    case False
    then show ?thesis using x res one_step_stop [of d'] by (auto simp: U_def lift_def literal_bytes_def)
  next
    case True
    then obtain m where m: "m + l' = l" "m \<le> length U" "dec_ok S content d'" "l' \<le> d_avail d'" "R w' (out @ take m U) lim" "unread content d' = drop m U"
      using x(2) by auto
    have ip: "l' \<le> length (d_ip d')" "take l' (d_ip d') = take l' (drop m U)" "\<not> d_eof d'" using m(3,4) by (auto simp: m(6) [symmetric] unread_def dec_ok_def)
    have "l' \<le> length (unread content d')" using m(4) ip(1) m(3) by (simp add: unread_def dec_ok_def)
    then have lU: "l \<le> length U" using m(1,2) by (simp add: m(6))
    obtain w'' where a: "Append W (d_ip d') l' w' = Some (Inr (length out + l \<le> lim, w''))" "length out + l \<le> lim \<longrightarrow> R w'' (out @ take l U) lim"
      using append [OF m(5) ip(1)] m(1,2) l by (auto simp: ip(2) take_add [symmetric] add.assoc)
    let ?d = "d'\<lparr>d_ip := drop l' (d_ip d'), d_avail := d_avail d' - l'\<rparr>"
    show ?thesis
    proof (cases "length out + l \<le> lim")
      case False
      then show ?thesis using x(1) True a(1) ip(3) res one_step_stop [of d'] by (auto simp: lift_def literal_bytes_def)
    next
      case fits: True
      have u: "unread content ?d = drop l U"
        using unread_advance [OF m(4), of content] m(1,3) unfolding m(6) dec_ok_def by (simp add: add.commute)
      have "one_step S content R lim res n (finish_tag S ?d w'')"
        by (rule finish_tag_step [OF dec_ok_advance [OF m(3)]]) (use u a(2) fits res lU n in \<open>auto simp: U_def\<close>)
      then show ?thesis using x(1) True a(1) fits m(4) by (simp add: advance_ok literal_bytes_def)
    qed
  qed
qed

lemma literal_tag_correct:
  assumes d: "dec_ok S content d" "extra c \<le> d_avail d" "4 \<le> length (d_ip d)" and w: "R w out lim" and c: "c AND 3 = 0"
    and n: "length (unread content d) < n"
  shows "one_step S content R lim (decode lim (c # unread content d) out) n (literal_tag_step S W c d w)"
proof -
  define U where "U = unread content d"
  let ?ext = "take (extra c) U" let ?l = "literal_length c ?ext" let ?len = "unat c div 4 + 1"
  note e = extra_literal [OF c]
  have av: "d_avail d \<le> length (d_ip d)" using d by (simp add: dec_ok_def)
  have ext: "take (extra c) (d_ip d) = ?ext" "length ?ext = extra c" using d av by (auto simp: unread_def U_def)
  have dec: "decode lim (c # U) out = (let s = drop (extra c) U in if length s < ?l \<or> lim < length out + ?l then None
    else decode lim (drop ?l s) (out @ take ?l s))" using c ext(2) by (simp add: Let_def)
  obtain ok w' where f: "TryFastAppend W (d_ip d) (d_avail d) ?len w = Some (Inr (ok, w'))"
    "if ok then ?len < 61 \<and> ?len + kMaximumTagLength \<le> d_avail d \<and> length out + ?len \<le> lim \<and> R w' (out @ take ?len (d_ip d)) lim else w' = w"
    using fast_append [OF w av] by blast
  show ?thesis
  proof (cases ok)
    case True
    then have k: "?len < 61" "?len + 5 \<le> d_avail d" "length out + ?len \<le> lim" "R w' (out @ take ?len (d_ip d)) lim" using f(2) by (simp_all add: kMaximumTagLength_def)
    let ?d = "d\<lparr>d_ip := drop ?len (d_ip d), d_avail := d_avail d - ?len\<rparr>"
    have u: "unread content ?d = drop ?len U" "take ?len (d_ip d) = take ?len U" "?len \<le> length U"
      using unread_advance [of ?len d content] k(2) av by (auto simp: U_def unread_def)
    have "extra c = 0" using e k(1) by simp
    then have "decode lim (c # U) out = decode lim (drop ?len U) (out @ take ?len U)" using dec k(3) u(3) by (simp add: literal_length_def)
    moreover have "dec_ok S content ?d" by (rule dec_ok_advance [OF d(1)])
    moreover from this have "tag_ready ?d" by (rule tag_ready_avail) (use k(2) in simp)
    moreover have "literal_tag_step S W c d w = Some (Inr (Again (?d, w')))"
      using f(1) True k(1,2) by (simp add: literal_tag_step_def e(1) Let_def advance_ok lift_def)
    ultimately show ?thesis using k(4) u n unfolding one_step_def goes_on_def U_def [symmetric] by auto
  next
    case False
    let ?d = "d\<lparr>d_ip := drop (extra c) (d_ip d), d_avail := d_avail d - extra c\<rparr>"
    have u: "unread content ?d = drop (extra c) U" using unread_advance [OF d(2) av] by (simp add: U_def)
    have h: "long_length d ?len = Some (Inr (?d, ?l))"
    proof (cases "?len \<ge> 61")
      case True
      then have x: "?len - 60 = extra c" "?ext \<noteq> []" using e(2) ext(2) by auto
      obtain v where "Load32 (d_ip d) 0 = Inr v" "v AND wordmask ! extra c = ucast (le_word ?ext)"
        using Load32_masked [OF d(3) extra_le, of c] ext(1) by metis
      then show ?thesis using True x d(2) by (simp add: advance_ok lift_def literal_length_def Let_def long_length_def)
    next
      case False
      then have "extra c = 0" using e(2) by simp
      then show ?thesis using False by (simp add: lift_def literal_length_def long_length_def)
    qed
    have "one_step S content R lim (decode lim (c # U) out) n (literal_bytes S W ?d w ?l)"
      by (rule literal_rest_correct [OF dec_ok_advance [OF d(1)] w literal_length_less]) (use n dec u in \<open>auto simp: U_def Let_def\<close>)
    moreover have "literal_tag_step S W c d w = literal_bytes S W ?d w ?l"
      using f False unfolding literal_tag_step_def e(1) Let_def by (simp add: h [simplified])
    ultimately show ?thesis unfolding U_def by simp
  qed
qed

lemma tag_step_correct:
  assumes "goes_on S content R lim res (d, w)"
  shows "one_step S content R lim res (length (unread content d)) (tag_step S W (d, w))"
proof -
  from assms obtain out where d: "dec_ok S content d" "tag_ready d" and w: "R w out lim" and r: "decode lim (unread content d) out = res"
    by (auto simp: goes_on_def)
  obtain c cs where ip: "d_ip d = c # cs" using d(2) by (cases "d_ip d") (auto simp: tag_ready_def)
  have av: "0 < d_avail d" "extra c \<le> d_avail d - 1" "4 \<le> length cs" using d(2) by (auto simp: tag_ready_def ip)
  let ?d = "d\<lparr>d_ip := drop 1 (d_ip d), d_avail := d_avail d - 1\<rparr>"
  have u: "unread content d = c # unread content ?d" using av(1) by (cases "d_avail d") (auto simp: unread_def ip)
  have step: "tag_step S W (d, w) = (if c AND 3 = 0 then literal_tag_step S W c ?d w else copy_tag_step S W c ?d w)"
  proof -
    have z: "ucast (c AND 3) = LITERAL \<longleftrightarrow> c AND 3 = 0" unfolding LITERAL_def by (rule ucast_byte_0)
    show ?thesis unfolding tag_step_def ip using av(1) z by (simp add: read_at_def advance_ok Let_def ip)
  qed
  note dd = dec_ok_advance [OF d(1), of 1]
  show ?thesis
    using literal_tag_correct [OF dd _ _ w, of c "length (unread content d)"] copy_tag_correct [OF dd _ _ w, of c "length (unread content d)"] av r
    unfolding step u by (simp add: ip del: decode.simps)
qed

lemma DecompressAllTags_correct:
  assumes d: "dec_ok S content d" and w: "R w out lim"
  shows "\<exists>x. DecompressAllTags S W d w = Some (Inr x) \<and> reported R lim (decode lim (unread content d) out) x"
proof -
  let ?res = "decode lim (unread content d) out"
  have "one_step S content R lim ?res (Suc (length (unread content d))) (finish_tag S d w)"
    by (rule finish_tag_step [OF d w]) simp_all
  moreover obtain ok d' where f: "MAYBE_REFILL S d = Some (Inr (ok, d'))" using MAYBE_REFILL_correct [OF d] by auto
  ultimately consider "ok" "goes_on S content R lim ?res (d', w)" | "\<not> ok" "reported R lim ?res (d', w)"
    by (cases ok) (auto simp: one_step_def finish_tag_def lift_def)
  then show ?thesis
  proof cases
    case 1
    have "\<exists>x. loop (tag_step S W) (d', w) = Some (Inr x) \<and> reported R lim ?res x"
    proof (rule loop_rule [where I = "goes_on S content R lim ?res" and m = "\<lambda>x. length (unread content (fst x))"])
      fix x assume "goes_on S content R lim ?res x"
      then show "(\<exists>y. tag_step S W x = Some (Inr (Again y)) \<and> goes_on S content R lim ?res y \<and> length (unread content (fst y)) < length (unread content (fst x)))
        \<or> (\<exists>y. tag_step S W x = Some (Inr (Done y)) \<and> reported R lim ?res y)"
        using tag_step_correct [of lim ?res "fst x" "snd x"] unfolding one_step_def prod.collapse by blast
    qed (rule 1(2))
    then show ?thesis using 1 f by (simp add: DecompressAllTags_def)
  next
    case 2
    then show ?thesis using f by (simp add: DecompressAllTags_def lift_def)
  qed
qed

lemma InternalUncompress_correct:
  assumes "length (content r) < 2 ^ 32" "length scratch = 5"
    and "\<forall>n s. Parse32WithLimit (content r) = Some (n, s) \<longrightarrow> fresh w (unat n)"
  shows "\<exists>ok r' w'. InternalUncompress scratch S W r w = Some (Inr (ok, r', w')) \<and> (ok \<longleftrightarrow> uncompressed (content r) \<noteq> None)
    \<and> (\<forall>out. uncompressed (content r) = Some out \<longrightarrow> R w' out (length out))"
proof -
  note rl = read_length_correct [of r]
  obtain n r1 where l: "read_length S r 0 0 = (n, r1)" by fastforce
  show ?thesis
  proof (cases "Parse32WithLimit (content r)")
    case None
    then have "n = None" using rl l by (simp add: reads_def)
    then show ?thesis using None l
      by (intro exI [of _ False]) (simp add: InternalUncompress_def ReadUncompressedLength_def new_decompressor_def uncompressed_def lift_def)
  next
    case (Some p)
    obtain v s where p: "p = (v, s)" by fastforce
    then have n: "n = Some v" "content r1 = s" using rl l Some by (auto simp: reads_def)
    have ls: "length s < 2 ^ 32" using Parse32_shorter [of "content r" v s] Some assms(1) p by simp
    let ?d = "(new_decompressor scratch r)\<lparr>d_reader := r1\<rparr>" let ?w = "SetExpectedLength W (unat v) w"
    have d: "dec_ok S content ?d" "unread content ?d = s" using ls n(2) assms(2) by (simp_all add: dec_ok_def new_decompressor_def unread_def)
    have w: "R ?w [] (unat v)" by (rule set_expected) (use assms(3) Some p in blast)
    obtain d' w' where a: "DecompressAllTags S W ?d ?w = Some (Inr (d', w'))" "reported R (unat v) (decode (unat v) s []) (d', w')"
      using DecompressAllTags_correct [OF d(1) w] by (auto simp: d(2))
    have "InternalUncompress scratch S W r w = Some (Inr (d_eof d' \<and> CheckLength W w', close_decompressor S d', w'))"
      using a(1) by (simp add: InternalUncompress_def ReadUncompressedLength_def InternalUncompressAllTags_def new_decompressor_def l n(1) lift_def)
    then show ?thesis using a(2) check_length Some p
      by (cases "decode (unat v) s []") (auto simp: reported_def uncompressed_def)
  qed
qed

end

section \<open>Flat buffers, correct\<close>

interpretation raw: decompression ByteArraySource "\<lambda>s. s" SnappyArrayWriter array_holds array_fresh ..

interpretation validation: decompression ByteArraySource "\<lambda>s. s" SnappyDecompressionValidator counted counter_fresh ..

text \<open>The length a buffer announces, 0 when there is none.\<close>

definition announced :: "byte list \<Rightarrow> nat" where
  "announced c = (case GetUncompressedLength c of None \<Rightarrow> 0 | Some n \<Rightarrow> unat n)"

lemma RawUncompress_total:
  assumes "length c < 2 ^ 32" "length scratch = 5" "announced c \<le> blk_len dst"
  shows "\<exists>ok dst'. RawUncompress scratch c dst = Some (Inr (ok, dst')) \<and> (ok \<longleftrightarrow> uncompressed c \<noteq> None)
    \<and> (\<forall>out. uncompressed c = Some out \<longrightarrow> blk_bytes dst' (length out) = out)"
proof -
  have "unat n < 2 ^ 32" for n :: u32 using unsigned_less [of n, where ?'a = nat] by simp
  then have "\<forall>n s. Parse32WithLimit c = Some (n, s) \<longrightarrow> array_fresh (new_array_writer dst) (unat n)"
    using assms(3) by (auto simp: array_fresh_def new_array_writer_def announced_def GetUncompressedLength_def)
  from raw.InternalUncompress_correct [OF assms(1,2) this] obtain ok r' w' where "InternalUncompress scratch ByteArraySource SnappyArrayWriter c (new_array_writer dst) = Some (Inr (ok, r', w'))"
    "ok \<longleftrightarrow> uncompressed c \<noteq> None" "\<forall>out. uncompressed c = Some out \<longrightarrow> array_holds w' out (length out)"
    by blast
  then show ?thesis by (auto simp: RawUncompress_def lift_def array_holds_def)
qed

lemma IsValidCompressedBuffer_total:
  assumes "length c < 2 ^ 32" "length scratch = 5"
  shows "IsValidCompressedBuffer scratch c = Some (Inr (uncompressed c \<noteq> None))"
proof -
  have "unat n < 2 ^ 32" for n :: u32 using unsigned_less [of n, where ?'a = nat] by simp
  then have "\<forall>n s. Parse32WithLimit c = Some (n, s) \<longrightarrow> counter_fresh new_validator (unat n)" by (simp add: counter_fresh_def new_validator_def)
  from validation.InternalUncompress_correct [OF assms this] obtain ok r' w' where "InternalUncompress scratch ByteArraySource SnappyDecompressionValidator c new_validator = Some (Inr (ok, r', w'))"
    "ok \<longleftrightarrow> uncompressed c \<noteq> None"
    by blast
  then show ?thesis by (simp add: IsValidCompressedBuffer_def lift_def)
qed

lemma uncompressed_announced:
  assumes "uncompressed c = Some out"
  shows "GetUncompressedLength c = Some (of_nat (length out))" "announced c = length out"
proof -
  from assms obtain n s where p: "Parse32WithLimit c = Some (n, s)" "length out = unat n"
    by (auto simp: uncompressed_def split: option.splits if_splits)
  then show "GetUncompressedLength c = Some (of_nat (length out))" by (simp add: GetUncompressedLength_def)
  show "announced c = length out" using p by (simp add: announced_def GetUncompressedLength_def)
qed

end
