(* ===== verification/Snappy_C.thy ===== *)
theory Snappy_C
  imports Snappy_Uncompress
begin

text \<open>
  The entry points of snappy: the string versions of \<^verbatim>\<open>snappy.cc\<close> and the C interface
  (\<^verbatim>\<open>snappy-c.cc\<close>) the runtime calls. A buffer is a block, its size in and out is \<^verbatim>\<open>*length\<close>; a
  string is a list, and \<open>uninit n\<close> is the block of \<open>n\<close> indeterminate bytes a string resized
  without initialisation has.
\<close>

section \<open>Strings\<close>

definition Compress_string :: "(nat \<Rightarrow> block) \<Rightarrow> byte list \<Rightarrow> (byte list \<times> nat) run" where
  "Compress_string uninit input =
     obind (RawCompress input (uninit (MaxCompressedLength (length input)))) (\<lambda>(compressed, compressed_length).
       lift (Inr (blk_bytes compressed compressed_length, compressed_length)))"

definition Uncompress :: "(nat \<Rightarrow> block) \<Rightarrow> nat \<Rightarrow> byte list \<Rightarrow> byte list \<Rightarrow> byte list \<Rightarrow> (bool \<times> byte list) run" where
  "Uncompress uninit max_size scratch compressed s =
     (case GetUncompressedLength compressed of
        None \<Rightarrow> lift (Inr (False, s))
      | Some ulength \<Rightarrow>
          if unat ulength > max_size then lift (Inr (False, s))
          else obind (RawUncompress scratch compressed (uninit (unat ulength))) (\<lambda>(ok, dst).
            lift (Inr (ok, blk_bytes dst (unat ulength)))))"

section \<open>The C interface\<close>

datatype snappy_status = SNAPPY_OK | SNAPPY_INVALID_INPUT | SNAPPY_BUFFER_TOO_SMALL

definition snappy_max_compressed_length :: "nat \<Rightarrow> nat" where
  "snappy_max_compressed_length source_length = MaxCompressedLength source_length"

definition snappy_compress :: "byte list \<Rightarrow> block \<Rightarrow> nat \<Rightarrow> (snappy_status \<times> block \<times> nat) run" where
  "snappy_compress input compressed compressed_length =
     (if compressed_length < snappy_max_compressed_length (length input) then
        lift (Inr (SNAPPY_BUFFER_TOO_SMALL, compressed, compressed_length))
      else obind (RawCompress input compressed) (\<lambda>(compressed, compressed_length).
        lift (Inr (SNAPPY_OK, compressed, compressed_length))))"

definition snappy_uncompress :: "byte list \<Rightarrow> byte list \<Rightarrow> block \<Rightarrow> nat \<Rightarrow> (snappy_status \<times> block \<times> nat) run" where
  "snappy_uncompress scratch compressed dst uncompressed_length =
     (case GetUncompressedLength compressed of
        None \<Rightarrow> lift (Inr (SNAPPY_INVALID_INPUT, dst, uncompressed_length))
      | Some real_uncompressed_length \<Rightarrow>
          if uncompressed_length < unat real_uncompressed_length then
            lift (Inr (SNAPPY_BUFFER_TOO_SMALL, dst, uncompressed_length))
          else obind (RawUncompress scratch compressed dst) (\<lambda>(ok, dst).
            if \<not> ok then lift (Inr (SNAPPY_INVALID_INPUT, dst, uncompressed_length))
            else lift (Inr (SNAPPY_OK, dst, unat real_uncompressed_length))))"

definition snappy_uncompressed_length :: "byte list \<Rightarrow> nat \<Rightarrow> snappy_status \<times> nat" where
  "snappy_uncompressed_length compressed result =
     (case GetUncompressedLength compressed of
        Some n \<Rightarrow> (SNAPPY_OK, unat n)
      | None \<Rightarrow> (SNAPPY_INVALID_INPUT, result))"

definition snappy_validate_compressed_buffer :: "byte list \<Rightarrow> byte list \<Rightarrow> snappy_status run" where
  "snappy_validate_compressed_buffer scratch compressed =
     obind (IsValidCompressedBuffer scratch compressed) (\<lambda>ok.
       lift (Inr (if ok then SNAPPY_OK else SNAPPY_INVALID_INPUT)))"

section \<open>Properties\<close>

lemma snappy_compress_ok:
  assumes "length input < 2 ^ 32" "snappy_max_compressed_length (length input) \<le> n" "n \<le> blk_len k"
  shows "\<exists>k' m. snappy_compress input k n = Some (Inr (SNAPPY_OK, k', m)) \<and> m \<le> snappy_max_compressed_length (length input)
    \<and> uncompressed (blk_bytes k' m) = Some input"
proof -
  have "MaxCompressedLength (length input) \<le> blk_len k" using assms by (simp add: snappy_max_compressed_length_def)
  from RawCompress_correct [OF assms(1) this] obtain k' m where "RawCompress input k = Some (Inr (k', m))"
    "m \<le> MaxCompressedLength (length input)" "uncompressed (blk_bytes k' m) = Some input" by blast
  then show ?thesis using assms(2) by (simp add: snappy_compress_def snappy_max_compressed_length_def lift_def)
qed

lemma snappy_uncompress_ok:
  assumes "length c < 2 ^ 32" "length scratch = 5" "uncompressed c = Some out" "length out \<le> n" "n \<le> blk_len dst"
  obtains dst' where "snappy_uncompress scratch c dst n = Some (Inr (SNAPPY_OK, dst', length out))" "blk_bytes dst' (length out) = out"
proof -
  have a: "GetUncompressedLength c = Some (of_nat (length out))" "announced c = length out"
    using uncompressed_announced [OF assms(3)] by simp_all
  then have u: "unat (of_nat (length out) :: u32) = length out" by (simp add: announced_def)
  have "announced c \<le> blk_len dst" using a assms by simp
  from RawUncompress_total [OF assms(1,2) this] obtain dst' where "RawUncompress scratch c dst = Some (Inr (True, dst'))"
    "blk_bytes dst' (length out) = out" using assms(3) by auto
  then show thesis using that a u assms(4) by (simp add: snappy_uncompress_def lift_def)
qed

text \<open>
  C9. What \<^verbatim>\<open>snappy_compress\<close> writes fits the room it asks for, and \<^verbatim>\<open>snappy_uncompress\<close> turns it back
  into the input, for inputs whose compressed form is shorter than 4 GiB.
\<close>

theorem snappy_roundtrip:
  assumes "snappy_max_compressed_length (length input) < 2 ^ 32" "snappy_max_compressed_length (length input) \<le> clen" "clen \<le> blk_len k"
    and "length input \<le> ulen" "ulen \<le> blk_len dst" "length scratch = 5"
  shows "\<exists>k' n dst'. snappy_compress input k clen = Some (Inr (SNAPPY_OK, k', n))
    \<and> n \<le> snappy_max_compressed_length (length input)
    \<and> snappy_uncompress scratch (blk_bytes k' n) dst ulen = Some (Inr (SNAPPY_OK, dst', length input))
    \<and> blk_bytes dst' (length input) = input"
proof -
  have "length input < 2 ^ 32" using assms(1) by (simp add: snappy_max_compressed_length_def MaxCompressedLength_def)
  from snappy_compress_ok [OF this assms(2,3)] obtain k' n where c: "snappy_compress input k clen = Some (Inr (SNAPPY_OK, k', n))"
    "n \<le> snappy_max_compressed_length (length input)" "uncompressed (blk_bytes k' n) = Some input" by blast
  have "length (blk_bytes k' n) < 2 ^ 32" using c(2) assms(1) by simp
  from snappy_uncompress_ok [OF this assms(6) c(3) assms(4,5)] obtain dst' where
    "snappy_uncompress scratch (blk_bytes k' n) dst ulen = Some (Inr (SNAPPY_OK, dst', length input))" "blk_bytes dst' (length input) = input" by blast
  with c(1,2) show ?thesis by blast
qed

definition demo_block :: "nat \<Rightarrow> block" where
  "demo_block n = \<lparr>blk_len = n, blk_mem = (\<lambda>_. 0)\<rparr>"

theorem snappy_roundtrip_witness:
  "\<exists>k' n dst'. snappy_compress [1, 2, 3, 1, 2, 3] (demo_block 40) 40 = Some (Inr (SNAPPY_OK, k', n)) \<and> n \<le> 39
    \<and> snappy_uncompress [9, 9, 9, 9, 9] (blk_bytes k' n) (demo_block 6) 6 = Some (Inr (SNAPPY_OK, dst', 6))
    \<and> blk_bytes dst' 6 = [1, 2, 3, 1, 2, 3]"
proof -
  have l: "length [1, 2, 3, 1, 2, 3 :: byte] = 6" by simp
  show ?thesis
    using snappy_roundtrip [of "[1, 2, 3, 1, 2, 3]" 40 "demo_block 40" 6 "demo_block 6" "[9, 9, 9, 9, 9]"]
    unfolding l by (simp add: demo_block_def snappy_max_compressed_length_def MaxCompressedLength_def)
qed

text \<open>
  C10. The decompressor comes back on every buffer below 4 GiB, corrupt ones included, without leaving
  the input, the five bytes of its scratch space or an output that has the announced size; it
  accepts exactly what the format defines and then the output is what the format says.
\<close>

theorem uncompress_total:
  assumes "length c < 2 ^ 32" "length scratch = 5" "announced c \<le> blk_len dst"
  shows "\<exists>ok dst'. RawUncompress scratch c dst = Some (Inr (ok, dst')) \<and> (ok \<longleftrightarrow> uncompressed c \<noteq> None)
    \<and> (\<forall>out. uncompressed c = Some out \<longrightarrow> blk_bytes dst' (length out) = out)"
  using RawUncompress_total [OF assms] .

theorem uncompress_total_witness:
  "\<exists>ok dst'. RawUncompress [0, 0, 0, 0, 0] [3, 8, 7, 7] (demo_block 3) = Some (Inr (ok, dst'))
    \<and> (ok \<longleftrightarrow> uncompressed [3, 8, 7, 7] \<noteq> None) \<and> (\<forall>out. uncompressed [3, 8, 7, 7] = Some out \<longrightarrow> blk_bytes dst' (length out) = out)"
proof -
  have "announced [3, 8, 7, 7] = 3"
    by (simp add: announced_def GetUncompressedLength_def Parse32WithLimit_def)
  then show ?thesis using uncompress_total [of "[3, 8, 7, 7]" "[0, 0, 0, 0, 0]" "demo_block 3"] by (simp add: demo_block_def)
qed

text \<open>
  C12. \<^verbatim>\<open>snappy_validate_compressed_buffer\<close> accepts a buffer exactly if \<^verbatim>\<open>snappy_uncompress\<close> into a large
  enough output succeeds on it.
\<close>

theorem validate_iff_uncompress:
  assumes "length c < 2 ^ 32" "length scratch = 5" "length scratch' = 5" "announced c \<le> n" "n \<le> blk_len dst"
  shows "\<exists>st dst' m. snappy_uncompress scratch c dst n = Some (Inr (st, dst', m)) \<and> st \<noteq> SNAPPY_BUFFER_TOO_SMALL
    \<and> snappy_validate_compressed_buffer scratch' c = Some (Inr st)"
proof -
  have "announced c \<le> blk_len dst" using assms by simp
  from RawUncompress_total [OF assms(1,2) this] obtain ok dst' where r: "RawUncompress scratch c dst = Some (Inr (ok, dst'))" "ok \<longleftrightarrow> uncompressed c \<noteq> None" by blast
  have v: "snappy_validate_compressed_buffer scratch' c = Some (Inr (if ok then SNAPPY_OK else SNAPPY_INVALID_INPUT))"
    using IsValidCompressedBuffer_total [OF assms(1,3)] r(2) by (simp add: snappy_validate_compressed_buffer_def lift_def)
  show ?thesis
  proof (cases "GetUncompressedLength c")
    case None
    then have "uncompressed c = None" by (auto simp: GetUncompressedLength_def uncompressed_def split: option.splits)
    then show ?thesis using None v r(2) by (auto simp: snappy_uncompress_def lift_def)
  next
    case (Some u)
    then have "unat u \<le> n" using assms(4) by (simp add: announced_def)
    then show ?thesis using Some v r by (cases ok) (auto simp: snappy_uncompress_def lift_def)
  qed
qed

theorem validate_iff_uncompress_witness:
  "\<exists>st dst' m. snappy_uncompress [0, 0, 0, 0, 0] [3, 8, 7, 7] (demo_block 3) 3 = Some (Inr (st, dst', m)) \<and> st \<noteq> SNAPPY_BUFFER_TOO_SMALL
    \<and> snappy_validate_compressed_buffer [1, 1, 1, 1, 1] [3, 8, 7, 7] = Some (Inr st)"
proof -
  have "announced [3, 8, 7, 7] = 3"
    by (simp add: announced_def GetUncompressedLength_def Parse32WithLimit_def)
  then show ?thesis using validate_iff_uncompress [of "[3, 8, 7, 7]" "[0, 0, 0, 0, 0]" "[1, 1, 1, 1, 1]" 3 "demo_block 3"]
    by (simp add: demo_block_def)
qed

end
