(* ===== verification/Ufo_State.thy ===== *)
theory Ufo_State
  imports Ufo_Platform Ufo_Stat Snappy_C
begin

text \<open>
  The state of the runtime: one record per class of the source (\<^verbatim>\<open>TLBuffer\<close>,
  \<^verbatim>\<open>WriteTask\<close>, \<^verbatim>\<open>OutQueue\<close>, \<^verbatim>\<open>UFOContext\<close>) and the world they live in, which is what the
  handlers transform. \<^verbatim>\<open>this - G_BUF_BASE\<close> is the index of a buffer in \<^verbatim>\<open>tlbufs\<close>, so a
  method of \<^verbatim>\<open>TLBuffer\<close> takes that index.
\<close>

definition MAX_THREAD :: nat where "MAX_THREAD = 8192"
definition DIR_MAX_LEN :: nat where "DIR_MAX_LEN = 255"

record TLBuffer =
  tb_buf :: "block option"
  tb_size :: nat
  tb_capacity :: nat
  tb_fd :: int
  last_fe :: u64
  tls_height :: u32
  tls_bottom :: u64
  stack_height :: u32
  stack_bottom :: u64
  e_counter :: u64

record WriteTask =
  wt_fd :: int
  wt_data :: "block option"
  wt_size :: nat
  wt_cap :: nat

record OutQueue =
  q_length :: nat
  q_taskq :: "WriteTask list"
  q_head :: nat
  q_tail :: nat
  q_count :: int
  q_continue :: bool

record UFOContext =
  do_print_stat :: bool
  cur_pid :: u32
  p_pid :: u32
  is_subproc :: bool
  mudule_length :: u32
  tl_buf_size :: nat
  mem_t1 :: u64
  mem_t2 :: u64
  ratio_mem_x2 :: u16
  ratio_mem_x4 :: u16
  is_on :: bool
  no_stack :: bool
  no_data_value :: bool
  trace_func_call :: bool
  trace_ptr_prop :: bool
  trace_dir :: string
  time_started :: u64
  e_count :: u64
  use_io_q :: bool
  use_compression :: bool
  out_queue_length :: int

text \<open>
  The static function pointers of \<^verbatim>\<open>UFOContext\<close>: each is one of the functions that the
  source assigns to it.
\<close>

datatype fp_hook = Nop | Impl
datatype fp_mem = NopMem | ImplMem | ImplMemNv | NsMem | NsMemNv
datatype fp_range = NopRange | ImplRange | NsRange

record fns =
  fn_alloc :: fp_hook
  fn_dealloc :: fp_hook
  fn_thread_created :: fp_hook
  fn_thread_started :: fp_hook
  fn_thread_join :: fp_hook
  fn_thread_end :: fp_hook
  fn_mtx_lock :: fp_hook
  fn_mtx_unlock :: fp_hook
  fn_rd_lock :: fp_hook
  fn_rd_unlock :: fp_hook
  fn_rw_unlock :: fp_hook
  fn_cond_wait :: fp_hook
  fn_cond_signal :: fp_hook
  fn_cond_bc :: fp_hook
  fn_mem_acc :: fp_mem
  fn_mem_range_acc :: fp_range
  fn_enter_func :: fp_hook
  fn_exit_func :: fp_hook
  fn_ptr_prop :: fp_hook
  fn_ptr_deref :: fp_hook

text \<open>
  The world. \<open>w_mem\<close> is the memory of the traced program; \<open>w_tlbufs_ok\<close> and \<open>w_stat_ok\<close> say
  that the arrays are allocated. \<open>w_outlen\<close> is what an uninitialised \<^verbatim>\<open>size_t\<close> on the stack of the writer thread holds; \<open>w_path_junk\<close> is what an
  uninitialised \<^verbatim>\<open>char path[DIR_MAX_LEN]\<close> holds.
\<close>

record world =
  w_os :: os
  w_ctx :: UFOContext
  w_tlbufs :: "nat \<Rightarrow> TLBuffer"
  w_tlbufs_ok :: bool
  w_stat :: "nat \<Rightarrow> TLStatistic"
  w_stat_ok :: bool
  w_queue :: "OutQueue option"
  w_zip_len :: "nat option"
  w_fns :: fns
  w_started :: bool
  w_mem :: "u64 \<Rightarrow> byte"
  w_outlen :: nat
  w_path_junk :: string

definition tlb :: "world \<Rightarrow> nat \<Rightarrow> TLBuffer" where
  "tlb w tid = w_tlbufs w tid"

definition set_tlb :: "nat \<Rightarrow> TLBuffer \<Rightarrow> world \<Rightarrow> world" where
  "set_tlb tid b w = w\<lparr>w_tlbufs := (w_tlbufs w)(tid := b)\<rparr>"

definition upd_tlb :: "nat \<Rightarrow> (TLBuffer \<Rightarrow> TLBuffer) \<Rightarrow> world \<Rightarrow> world" where
  "upd_tlb tid f w = set_tlb tid (f (tlb w tid)) w"

text \<open>\<^verbatim>\<open>uctx->tlbufs[tid]\<close>: the array must exist and the index be inside it.\<close>

definition tlbufs_at :: "world \<Rightarrow> nat \<Rightarrow> unit res" where
  "tlbufs_at w tid =
     (if \<not> w_tlbufs_ok w then Inl NullDeref else if tid < MAX_THREAD then Inr () else Inl HeapOverflow)"

text \<open>\<^verbatim>\<open>uctx->stat[tid].field++\<close>.\<close>

definition bump :: "nat \<Rightarrow> (TLStatistic \<Rightarrow> TLStatistic) \<Rightarrow> world \<Rightarrow> world res" where
  "bump tid f w =
     (if \<not> w_stat_ok w then Inl NullDeref
      else if tid < MAX_THREAD then Inr (w\<lparr>w_stat := (w_stat w)(tid := f (w_stat w tid))\<rparr>)
      else Inl HeapOverflow)"

definition get_buf_size :: "world \<Rightarrow> nat" where
  "get_buf_size w = tl_buf_size (w_ctx w)"

definition get_time_ms :: "world \<Rightarrow> u64" where
  "get_time_ms w = of_nat (os_tv_sec (w_os w)) * 1000 + of_nat (os_tv_usec (w_os w)) div 1000"

definition elapsed :: "world \<Rightarrow> u32" where
  "elapsed w = ucast (get_time_ms w - time_started (w_ctx w))"

text \<open>The first \<open>n\<close> bytes behind a buffer pointer.\<close>

definition read_block :: "block option \<Rightarrow> nat \<Rightarrow> byte list res" where
  "read_block p n =
     (case p of
        None \<Rightarrow> if n = 0 then Inr [] else Inl NullDeref
      | Some k \<Rightarrow> if n \<le> blk_len k then Inr (blk_bytes k n) else Inl ObjectOverread)"

section \<open>Compression\<close>

text \<open>
  A call of \<^verbatim>\<open>snappy_compress\<close> as the writers make it: \<open>dest\<close> is the size the destination really
  has (it is written, never read, so its contents do not matter), \<open>compressed_length\<close> the size
  passed. The result is the status and the first bytes of the destination, as many as the call
  says it has written.
\<close>

definition status_code :: "snappy_status \<Rightarrow> int" where
  "status_code st = (case st of SNAPPY_OK \<Rightarrow> 0 | SNAPPY_INVALID_INPUT \<Rightarrow> 1 | SNAPPY_BUFFER_TOO_SMALL \<Rightarrow> 2)"

definition compress_into :: "byte list \<Rightarrow> nat option \<Rightarrow> nat \<Rightarrow> (int \<times> byte list) res" where
  "compress_into input dest compressed_length =
     (case dest of
        None \<Rightarrow> if compressed_length < snappy_max_compressed_length (length input) then Inr (status_code SNAPPY_BUFFER_TOO_SMALL, [])
                else Inl NullDeref
      | Some n \<Rightarrow>
          (case snappy_compress input \<lparr>blk_len = n, blk_mem = (\<lambda>_. 0)\<rparr> compressed_length of
             None \<Rightarrow> Inl NoReturn
           | Some r \<Rightarrow> rbind r (\<lambda>(st, compressed, len). Inr (status_code st, if st = SNAPPY_OK then blk_bytes compressed len else []))))"

lemma compress_into_ok:
  assumes "length input < 2 ^ 32" "snappy_max_compressed_length (length input) \<le> n" "n \<le> m"
  shows "\<exists>z. compress_into input (Some m) n = Inr (0, z) \<and> uncompressed z = Some input
    \<and> length z \<le> snappy_max_compressed_length (length input)"
proof -
  obtain k' l where "snappy_compress input \<lparr>blk_len = m, blk_mem = (\<lambda>_. 0)\<rparr> n = Some (Inr (SNAPPY_OK, k', l))"
    "l \<le> snappy_max_compressed_length (length input)" "uncompressed (blk_bytes k' l) = Some input"
    using snappy_compress_ok [OF assms(1,2), of "\<lparr>blk_len = m, blk_mem = (\<lambda>_. 0)\<rparr>"] assms(3) by auto
  then show ?thesis by (simp add: compress_into_def status_code_def)
qed

lemma compress_into_small:
  assumes "n < snappy_max_compressed_length (length input)"
  shows "compress_into input dest n = Inr (2, [])"
  using assms by (auto simp: compress_into_def snappy_compress_def status_code_def lift_def split: option.splits)

lemma set_tlb_simps [simp]:
  "tlb (set_tlb i b w) j = (if j = i then b else tlb w j)"
  "w_os (set_tlb i b w) = w_os w" "w_ctx (set_tlb i b w) = w_ctx w"
  "w_queue (set_tlb i b w) = w_queue w" "w_stat (set_tlb i b w) = w_stat w"
  "w_stat_ok (set_tlb i b w) = w_stat_ok w" "w_tlbufs_ok (set_tlb i b w) = w_tlbufs_ok w"
  "w_mem (set_tlb i b w) = w_mem w" "w_fns (set_tlb i b w) = w_fns w"
  "w_zip_len (set_tlb i b w) = w_zip_len w" "w_started (set_tlb i b w) = w_started w"
  "w_outlen (set_tlb i b w) = w_outlen w"
  by (auto simp: tlb_def set_tlb_def)

lemma set_tlb_set_tlb [simp]:
  "set_tlb i b (set_tlb i b' w) = set_tlb i b w"
  "(set_tlb i b w)\<lparr>w_os := x\<rparr> = set_tlb i b (w\<lparr>w_os := x\<rparr>)"
  "(set_tlb i b w)\<lparr>w_stat := y\<rparr> = set_tlb i b (w\<lparr>w_stat := y\<rparr>)"
  "(set_tlb i b w)\<lparr>w_ctx := c\<rparr> = set_tlb i b (w\<lparr>w_ctx := c\<rparr>)"
  "(set_tlb i b w)\<lparr>w_queue := q\<rparr> = set_tlb i b (w\<lparr>w_queue := q\<rparr>)"
  by (simp_all add: set_tlb_def)

lemma tlb_updates [simp]:
  "tlb (w\<lparr>w_os := x\<rparr>) i = tlb w i" "tlb (w\<lparr>w_queue := q\<rparr>) i = tlb w i"
  "tlb (w\<lparr>w_ctx := c\<rparr>) i = tlb w i" "tlb (w\<lparr>w_stat := s\<rparr>) i = tlb w i"
  "tlb (w\<lparr>w_fns := fs\<rparr>) i = tlb w i" "tlb (w\<lparr>w_zip_len := z\<rparr>) i = tlb w i"
  "tlb (w\<lparr>w_stat_ok := b\<rparr>) i = tlb w i" "tlb (w\<lparr>w_tlbufs_ok := b\<rparr>) i = tlb w i"
  "tlb (w\<lparr>w_started := b\<rparr>) i = tlb w i"
  by (simp_all add: tlb_def)

lemma tlbufs_at_Inr [simp]: "tlbufs_at w tid = Inr u \<longleftrightarrow> w_tlbufs_ok w \<and> tid < MAX_THREAD"
  by (simp add: tlbufs_at_def)

lemma bump_ok: "w_stat_ok w \<Longrightarrow> tid < MAX_THREAD \<Longrightarrow>
    bump tid f w = Inr (w\<lparr>w_stat := (w_stat w)(tid := f (w_stat w tid))\<rparr>)"
  by (simp add: bump_def)

lemma read_block_Some [simp]: "n \<le> blk_len k \<Longrightarrow> read_block (Some k) n = Inr (blk_bytes k n)"
  by (simp add: read_block_def)

end
