(* ===== verification/Ufo_IoQueue.thy ===== *)
theory Ufo_IoQueue
  imports Ufo_State
begin

text \<open>
  The asynchronous output queue (\<^verbatim>\<open>io_queue.h\<close>, \<^verbatim>\<open>io_queue.cc\<close>): a ring of write tasks, each
  owning a spare buffer that \<^verbatim>\<open>push\<close> exchanges with the full buffer of a thread. The
  operations here are the bodies of the critical sections; the locking and the worker
  thread around them are in \<open>Ufo_QueueThreads\<close>.
\<close>

section \<open>The contract of a bounded queue\<close>

text \<open>
  What the users of the queue rely on: it holds a sequence of at most \<open>bound\<close> tasks, tasks
  come out in the order they were put in, and the emptiness and fullness tests are exact.
\<close>

locale bounded_fifo =
  fixes inv :: "'q \<Rightarrow> bool"
    and content :: "'q \<Rightarrow> 'a list"
    and bound :: "'q \<Rightarrow> nat"
    and put :: "'a \<Rightarrow> 'q \<Rightarrow> 'q"
    and front :: "'q \<Rightarrow> 'a"
    and pop :: "'q \<Rightarrow> 'q"
    and empty :: "'q \<Rightarrow> bool"
    and full :: "'q \<Rightarrow> bool"
  assumes empty_iff: "inv q \<Longrightarrow> empty q \<longleftrightarrow> content q = []"
    and full_iff: "inv q \<Longrightarrow> full q \<longleftrightarrow> length (content q) = bound q"
    and content_le: "inv q \<Longrightarrow> length (content q) \<le> bound q"
    and put_inv: "inv q \<Longrightarrow> \<not> full q \<Longrightarrow> inv (put a q)"
    and put_content: "inv q \<Longrightarrow> \<not> full q \<Longrightarrow> content (put a q) = content q @ [a]"
    and put_bound: "bound (put a q) = bound q"
    and pop_inv: "inv q \<Longrightarrow> \<not> empty q \<Longrightarrow> inv (pop q)"
    and pop_content: "inv q \<Longrightarrow> \<not> empty q \<Longrightarrow> content q = front q # content (pop q)"
    and pop_bound: "bound (pop q) = bound q"
begin

lemma empty_not_full: "inv q \<Longrightarrow> 0 < bound q \<Longrightarrow> empty q \<Longrightarrow> \<not> full q"
  using empty_iff full_iff by fastforce

lemma pop_length: "inv q \<Longrightarrow> \<not> empty q \<Longrightarrow> length (content q) = Suc (length (content (pop q)))"
  by (simp add: pop_content)

lemma front_hd: "inv q \<Longrightarrow> \<not> empty q \<Longrightarrow> front q = hd (content q)"
  by (simp add: pop_content)

lemma pop_tl: "inv q \<Longrightarrow> \<not> empty q \<Longrightarrow> content (pop q) = tl (content q)"
  by (simp add: pop_content)

lemma pop_then_not_full: "inv q \<Longrightarrow> \<not> empty q \<Longrightarrow> \<not> full (pop q)"
  using content_le [of q] pop_length [of q] full_iff [of "pop q"] pop_inv [of q] pop_bound [of q] by auto

lemma put_pop_commute:
  assumes "inv q" "\<not> empty q" "\<not> full q"
  shows "content (pop (put a q)) = content (put a (pop q))" "front (put a q) = front q"
proof -
  have ne: "content q \<noteq> []" using assms empty_iff by simp
  have "\<not> empty (put a q)" using assms empty_iff [OF put_inv] put_content by simp
  then show "content (pop (put a q)) = content (put a (pop q))" "front (put a q) = front q"
    using assms ne pop_tl [OF put_inv] front_hd [OF put_inv] put_content
      put_content [OF pop_inv pop_then_not_full] pop_tl front_hd by auto
qed

end

section \<open>Write tasks and the ring\<close>

definition load_with :: "WriteTask \<Rightarrow> TLBuffer \<Rightarrow> WriteTask \<times> TLBuffer" where
  "load_with t b =
     (t\<lparr>wt_fd := tb_fd b, wt_size := tb_size b, wt_cap := tb_capacity b, wt_data := tb_buf b\<rparr>,
      b\<lparr>tb_size := 0, tb_capacity := wt_cap t, tb_buf := wt_data t\<rparr>)"

definition q_pop :: "OutQueue \<Rightarrow> nat \<times> OutQueue" where
  "q_pop q = (q_head q, q\<lparr>q_head := (q_head q + 1) mod q_length q, q_count := q_count q - 1\<rparr>)"

definition is_empty :: "OutQueue \<Rightarrow> bool" where
  "is_empty q \<longleftrightarrow> q_head q = q_tail q"

definition is_full :: "OutQueue \<Rightarrow> bool" where
  "is_full q \<longleftrightarrow>
     int (q_tail q) - int (q_head q) = int (q_length q) - 1 \<or> int (q_head q) - int (q_tail q) = 1"

definition q_size :: "OutQueue \<Rightarrow> int" where
  "q_size q = q_count q"

definition is_started :: "OutQueue \<Rightarrow> bool" where
  "is_started q = q_continue q"

text \<open>The slot at the tail takes the task, the tail and the count advance.\<close>

definition q_put :: "WriteTask \<Rightarrow> OutQueue \<Rightarrow> OutQueue" where
  "q_put t q = q\<lparr>q_taskq := (q_taskq q)[q_tail q := t],
                 q_tail := (q_tail q + 1) mod q_length q, q_count := q_count q + 1\<rparr>"

definition q_slot :: "OutQueue \<Rightarrow> WriteTask" where
  "q_slot q = q_taskq q ! q_tail q"

text \<open>The critical section of \<^verbatim>\<open>OutQueue::push\<close>.\<close>

definition push :: "TLBuffer \<Rightarrow> OutQueue \<Rightarrow> (TLBuffer \<times> OutQueue) res" where
  "push b q =
     (if is_full q then Inl MustWait
      else if q_tail q < length (q_taskq q)
      then (let (t, b) = load_with (q_slot q) b in Inr (b, q_put t q))
      else Inl HeapOverflow)"

section \<open>The ring is a bounded queue\<close>

definition q_span :: "OutQueue \<Rightarrow> nat" where
  "q_span q = (if q_head q \<le> q_tail q then q_tail q - q_head q else q_length q + q_tail q - q_head q)"

definition q_content :: "OutQueue \<Rightarrow> WriteTask list" where
  "q_content q = map (\<lambda>k. q_taskq q ! ((q_head q + k) mod q_length q)) [0..<q_span q]"

definition q_inv :: "OutQueue \<Rightarrow> bool" where
  "q_inv q \<longleftrightarrow> 0 < q_length q \<and> length (q_taskq q) = q_length q
     \<and> q_head q < q_length q \<and> q_tail q < q_length q \<and> q_count q = int (q_span q)"

definition q_front :: "OutQueue \<Rightarrow> WriteTask" where
  "q_front q = q_taskq q ! fst (q_pop q)"

definition q_bound :: "OutQueue \<Rightarrow> nat" where
  "q_bound q = q_length q - 1"

lemma length_q_content [simp]: "length (q_content q) = q_span q"
  by (simp add: q_content_def)

lemma mod_succ: "(n::nat) < m \<Longrightarrow> Suc n mod m = (if Suc n = m then 0 else Suc n)"
  by auto

lemma q_span_put: "q_inv q \<Longrightarrow> \<not> is_full q \<Longrightarrow> q_span (q_put t q) = Suc (q_span q)"
  unfolding q_inv_def is_full_def q_span_def q_put_def
  by (auto simp: mod_succ split: if_splits)

lemma q_span_pop: "q_inv q \<Longrightarrow> \<not> is_empty q \<Longrightarrow> Suc (q_span (snd (q_pop q))) = q_span q"
  unfolding q_inv_def is_empty_def q_span_def q_pop_def
  by (auto simp: mod_succ split: if_splits)

lemma q_span_full: "q_inv q \<Longrightarrow> is_full q \<longleftrightarrow> q_span q = q_length q - 1"
  unfolding q_inv_def is_full_def q_span_def by (auto split: if_splits)

lemma q_span_le: "q_inv q \<Longrightarrow> q_span q \<le> q_length q - 1"
  unfolding q_inv_def q_span_def by (auto split: if_splits)

lemma q_content_put:
  assumes "q_inv q" "\<not> is_full q"
  shows "q_content (q_put t q) = q_content q @ [t]"
proof -
  let ?n = "q_length q" and ?h = "q_head q" and ?s = "q_span q"
  have tail: "(?h + ?s) mod ?n = q_tail q"
    using assms(1) by (auto simp: q_inv_def q_span_def)
  have "(?h + k) mod ?n \<noteq> q_tail q" if k: "k < ?s" for k
  proof
    assume eq: "(?h + k) mod ?n = q_tail q"
    have "k < ?n" using k q_span_le [OF assms(1)] by simp
    moreover have "?h < ?n" "q_tail q < ?n" using assms(1) by (auto simp: q_inv_def)
    ultimately have "?h + k = q_tail q \<or> ?h + k = q_tail q + ?n"
      using eq by (cases "?h + k < ?n") (auto simp: mod_if split: if_splits)
    then show False using k \<open>q_tail q < ?n\<close> \<open>?h < ?n\<close> by (auto simp: q_span_def split: if_splits)
  qed
  moreover have "q_head (q_put t q) = ?h" "q_length (q_put t q) = ?n"
    "q_taskq (q_put t q) = (q_taskq q)[q_tail q := t]"
    by (simp_all add: q_put_def)
  moreover have "q_tail q < length (q_taskq q)" using assms(1) by (simp add: q_inv_def)
  ultimately show ?thesis
    using assms tail by (simp add: q_content_def q_span_put nth_list_update) (metis atLeastLessThan_iff)
qed

lemma q_content_pop:
  assumes "q_inv q" "\<not> is_empty q"
  shows "q_content q = q_front q # q_content (snd (q_pop q))"
proof -
  let ?n = "q_length q" and ?h = "q_head q" and ?q = "snd (q_pop q)"
  have s: "q_span q = Suc (q_span ?q)" using q_span_pop [OF assms] by simp
  have "q_taskq q ! ((?h + Suc k) mod ?n) = q_taskq ?q ! ((q_head ?q + k) mod q_length ?q)" for k
    by (simp add: q_pop_def mod_simps)
  moreover have "?h mod ?n = ?h" using assms(1) by (simp add: q_inv_def)
  ultimately show ?thesis
    by (simp add: q_content_def s upt_conv_Cons map_Suc_upt [symmetric] q_front_def q_pop_def
        del: upt_Suc)
qed

lemma q_inv_put: "q_inv q \<Longrightarrow> \<not> is_full q \<Longrightarrow> q_inv (q_put t q)"
  using q_span_put [of q t] by (auto simp: q_inv_def q_put_def)

lemma q_inv_pop: "q_inv q \<Longrightarrow> \<not> is_empty q \<Longrightarrow> q_inv (snd (q_pop q))"
  using q_span_pop [of q] by (auto simp: q_inv_def q_pop_def)

lemma q_empty_iff: "q_inv q \<Longrightarrow> is_empty q \<longleftrightarrow> q_content q = []"
  by (auto simp: q_inv_def is_empty_def q_content_def q_span_def)

interpretation ring: bounded_fifo q_inv q_content q_bound q_put q_front "\<lambda>q. snd (q_pop q)" is_empty is_full
proof unfold_locales
  show "is_empty q \<longleftrightarrow> q_content q = []" if "q_inv q" for q
    using that by (rule q_empty_iff)
  show "is_full q \<longleftrightarrow> length (q_content q) = q_bound q" if "q_inv q" for q
    using that by (simp add: q_span_full q_bound_def)
  show "length (q_content q) \<le> q_bound q" if "q_inv q" for q
    using q_span_le [OF that] by (simp add: q_bound_def)
  show "q_inv (q_put t q)" if "q_inv q" "\<not> is_full q" for q t
    using that by (rule q_inv_put)
  show "q_content (q_put t q) = q_content q @ [t]" if "q_inv q" "\<not> is_full q" for q t
    using that by (rule q_content_put)
  show "q_bound (q_put t q) = q_bound q" for t q
    by (simp add: q_bound_def q_put_def)
  show "q_inv (snd (q_pop q))" if "q_inv q" "\<not> is_empty q" for q
    using that by (rule q_inv_pop)
  show "q_content q = q_front q # q_content (snd (q_pop q))" if "q_inv q" "\<not> is_empty q" for q
    using that by (rule q_content_pop)
  show "q_bound (snd (q_pop q)) = q_bound q" for q
    by (simp add: q_bound_def q_pop_def)
qed

lemma q_size_content: "q_inv q \<Longrightarrow> q_size q = int (length (q_content q))"
  by (simp add: q_size_def q_inv_def)

lemma push_eq:
  assumes "q_inv q" "\<not> is_full q"
  shows "push b q = Inr (snd (load_with (q_slot q) b), q_put (fst (load_with (q_slot q) b)) q)"
  using assms by (simp add: push_def q_inv_def case_prod_beta)

section \<open>Writing\<close>

definition os_write :: "int \<Rightarrow> byte list \<Rightarrow> world \<Rightarrow> world" where
  "os_write fd data w = w\<lparr>w_os := snd (sys_write fd data (w_os w))\<rparr>"

text \<open>
  \<^verbatim>\<open>_do_write\<close>, called by the writer thread. With compression on, \<^verbatim>\<open>outlen\<close> is passed to
  \<^verbatim>\<open>snappy_compress\<close> without having been set.
\<close>

definition do_write :: "int \<Rightarrow> block option \<Rightarrow> nat \<Rightarrow> world \<Rightarrow> world res" where
  "do_write fd p len w =
     rbind (read_block p len) (\<lambda>data.
       if use_compression (w_ctx w) then
         rbind (compress_into data (w_zip_len w) (w_outlen w)) (\<lambda>(err, out).
           if err \<noteq> 0 then Inl DieCalled
           else Inr (os_write fd out (os_write fd (le_bytes 4 (of_nat (length out))) w)))
       else Inr (os_write fd data w))"

text \<open>One round of \<^verbatim>\<open>_work_loop\<close> with the lock held: it waits while the queue is empty.\<close>

definition work_round :: "world \<Rightarrow> world res" where
  "work_round w =
     (case w_queue w of
        None \<Rightarrow> Inl NullDeref
      | Some q \<Rightarrow>
          if is_empty q then Inl MustWait
          else (let (i, q') = q_pop q; t = q_taskq q ! i
                in rbind (do_write (wt_fd t) (wt_data t) (wt_size t) w) (\<lambda>w.
                   Inr (w\<lparr>w_queue := Some (q'\<lparr>q_taskq := (q_taskq q')[i := t\<lparr>wt_size := 0\<rparr>]\<rparr>)\<rparr>))))"

section \<open>Start and stop\<close>

definition fresh_task :: "world \<Rightarrow> WriteTask" where
  "fresh_task w = \<lparr>wt_fd = -1, wt_data = Some (alloc_block (w_os w) (get_buf_size w)),
                   wt_size = 0, wt_cap = get_buf_size w\<rparr>"

definition q_start :: "int \<Rightarrow> world \<Rightarrow> world" where
  "q_start len w =
     w\<lparr>w_queue := Some \<lparr>q_length = nat len, q_taskq = replicate (nat len) (fresh_task w),
                        q_head = 0, q_tail = 0, q_count = 0, q_continue = True\<rparr>,
       w_zip_len := (if use_compression (w_ctx w) then Some (snappy_max_compressed_length (get_buf_size w))
                     else w_zip_len w)\<rparr>"

definition release_mem :: "OutQueue \<Rightarrow> world \<Rightarrow> OutQueue \<times> world" where
  "release_mem q w =
     (q\<lparr>q_taskq := []\<rparr>, if use_compression (w_ctx w) then w\<lparr>w_zip_len := None\<rparr> else w)"

text \<open>
  The loop of \<^verbatim>\<open>OutQueue::stop\<close> that finishes the remaining tasks. It gets as many rounds as
  the ring has slots; \<open>drain_total\<close> shows that they are enough.
\<close>

fun drain :: "nat \<Rightarrow> OutQueue \<Rightarrow> world \<Rightarrow> (OutQueue \<times> world) res" where
  "drain n q w =
     (if is_empty q then Inr (q, w)
      else (case n of
              0 \<Rightarrow> Inl MustWait
            | Suc m \<Rightarrow>
                (let (i, q') = q_pop q; t = q_taskq q ! i
                 in rbind (if wt_size t > 0 then do_write (wt_fd t) (wt_data t) (wt_size t) w else Inr w)
                      (drain m q'))))"

declare drain.simps [simp del]

text \<open>
  \<^verbatim>\<open>OutQueue::stop\<close> as one operation, for the state in which the writer thread has been joined and nobody
  else has the mutex: the flag, the drain and the release of the memory. Its signal, the join and the
  mutex are steps of \<open>stopper_step\<close> in \<^verbatim>\<open>Ufo_QueueThreads\<close>.
\<close>

definition q_stop :: "world \<Rightarrow> world res" where
  "q_stop w =
     (case w_queue w of
        None \<Rightarrow> Inl NullDeref
      | Some q \<Rightarrow>
          rbind (drain (q_length q) (q\<lparr>q_continue := False\<rparr>) w) (\<lambda>(q, w).
            (let (q, w) = release_mem q w in Inr (w\<lparr>w_queue := Some q\<rparr>))))"

section \<open>The queue as a log\<close>

text \<open>
  A queued task stands for bytes that still have to reach the file its descriptor names.
\<close>

definition task_ok :: "WriteTask \<Rightarrow> bool" where
  "task_ok t \<longleftrightarrow> (case wt_data t of None \<Rightarrow> False | Some k \<Rightarrow> wt_size t \<le> wt_cap t \<and> blk_len k = wt_cap t)"

definition task_bytes :: "WriteTask \<Rightarrow> byte list" where
  "task_bytes t = (case wt_data t of None \<Rightarrow> [] | Some k \<Rightarrow> blk_bytes k (wt_size t))"

definition pending :: "os \<Rightarrow> string \<Rightarrow> WriteTask list \<Rightarrow> byte list" where
  "pending s p ts = concat (map (\<lambda>t. if fd_path s (wt_fd t) = Some p then task_bytes t else []) ts)"

definition q_ok :: "OutQueue \<Rightarrow> bool" where
  "q_ok q \<longleftrightarrow> q_inv q \<and> (\<forall>t\<in>set (q_taskq q). task_ok t)"

lemma pending_simps [simp]:
  "pending s p [] = []"
  "pending s p (t # ts) = (if fd_path s (wt_fd t) = Some p then task_bytes t else []) @ pending s p ts"
  "pending s p (ts @ us) = pending s p ts @ pending s p us"
  by (simp_all add: pending_def)

lemma pending_cong: "(\<And>k. fd_path s k = fd_path s' k) \<Longrightarrow> pending s p ts = pending s' p ts"
  by (simp add: pending_def)

lemma os_write_simps [simp]:
  "w_queue (os_write fd data w) = w_queue w" "w_ctx (os_write fd data w) = w_ctx w"
  "tlb (os_write fd data w) i = tlb w i" "w_tlbufs_ok (os_write fd data w) = w_tlbufs_ok w"
  "w_stat (os_write fd data w) = w_stat w" "w_stat_ok (os_write fd data w) = w_stat_ok w"
  "w_zip_len (os_write fd data w) = w_zip_len w" "w_fns (os_write fd data w) = w_fns w"
  "w_mem (os_write fd data w) = w_mem w" "w_started (os_write fd data w) = w_started w"
  "fd_path (w_os (os_write fd data w)) k = fd_path (w_os w) k"
  "full_writes (w_os (os_write fd data w)) = full_writes (w_os w)"
  by (simp_all add: os_write_def)

lemma os_write_file:
  "full_writes (w_os w) \<Longrightarrow>
   file_bytes (w_os (os_write fd data w)) p =
     file_bytes (w_os w) p @ (if fd_path (w_os w) fd = Some p then data else [])"
  by (simp add: os_write_def file_bytes_write)

lemma do_write_plain:
  "\<not> use_compression (w_ctx w) \<Longrightarrow> task_ok t \<Longrightarrow>
   do_write (wt_fd t) (wt_data t) (wt_size t) w = Inr (os_write (wt_fd t) (task_bytes t) w)"
  by (auto simp: do_write_def task_ok_def task_bytes_def split: option.splits)

lemma q_front_ok: "q_ok q \<Longrightarrow> task_ok (q_front q)"
  by (auto simp: q_ok_def q_inv_def q_front_def q_pop_def)

lemma q_content_ok: "q_ok q \<Longrightarrow> t \<in> set (q_content q) \<Longrightarrow> task_ok t"
  by (auto simp: q_ok_def q_inv_def q_content_def)

lemma q_ok_pop: "q_ok q \<Longrightarrow> \<not> is_empty q \<Longrightarrow> q_ok (snd (q_pop q))"
  using q_inv_pop by (auto simp: q_ok_def q_pop_def)

lemma q_ok_put: "q_ok q \<Longrightarrow> \<not> is_full q \<Longrightarrow> task_ok t \<Longrightarrow> q_ok (q_put t q)"
  using q_inv_put [of q t] by (auto simp: q_ok_def q_put_def dest!: set_update_subset_insert [THEN subsetD])

lemma q_ok_continue [simp]: "q_ok (q\<lparr>q_continue := b\<rparr>) = q_ok q" "q_content (q\<lparr>q_continue := b\<rparr>) = q_content q"
  by (simp_all add: q_ok_def q_inv_def q_span_def q_content_def)

text \<open>Clearing the slot that was just popped does not touch the queued tasks.\<close>

lemma pop_clear:
  assumes "q_ok q" "\<not> is_empty q"
  defines "q' \<equiv> snd (q_pop q)" and "i \<equiv> q_head q"
  shows "q_ok (q'\<lparr>q_taskq := (q_taskq q')[i := (q_front q)\<lparr>wt_size := 0\<rparr>]\<rparr>)" (is "q_ok ?q")
    and "q_content (q'\<lparr>q_taskq := (q_taskq q')[i := (q_front q)\<lparr>wt_size := 0\<rparr>]\<rparr>) = q_content q'"
proof -
  have ok: "task_ok ((q_front q)\<lparr>wt_size := 0\<rparr>)"
    using q_front_ok [OF assms(1)] by (auto simp: task_ok_def split: option.splits)
  show "q_ok ?q"
    using q_ok_pop [OF assms(1,2)] ok
    by (auto simp: q_ok_def q_inv_def q_span_def q'_def dest!: set_update_subset_insert [THEN subsetD])
  have inv: "q_inv q" using assms(1) by (simp add: q_ok_def)
  have "(q_head q' + k) mod q_length q' \<noteq> i" if "k < q_span q'" for k
  proof
    assume eq: "(q_head q' + k) mod q_length q' = i"
    have n: "i < q_length q" "Suc k < q_length q"
      using inv that q_span_pop [OF inv assms(2)] q_span_le [OF inv] by (auto simp: q_inv_def i_def q'_def)
    have "(i + Suc k) mod q_length q = i" using eq by (simp add: q'_def i_def q_pop_def mod_simps)
    then show False using n by (cases "i + Suc k < q_length q") (auto simp: mod_if split: if_splits)
  qed
  moreover have "q_span ?q = q_span q'" by (simp add: q_span_def)
  ultimately show "q_content ?q = q_content q'"
    by (auto simp: q_content_def) (metis nth_list_update_neq)
qed

text \<open>A round of the worker moves the bytes of the oldest task to its file.\<close>

lemma work_round_log:
  assumes "w_queue w = Some q" "q_ok q" "\<not> is_empty q" "\<not> use_compression (w_ctx w)" "full_writes (w_os w)"
  obtains q' where
    "work_round w = Inr ((os_write (wt_fd (q_front q)) (task_bytes (q_front q)) w)\<lparr>w_queue := Some q'\<rparr>)"
    "q_ok q'" "q_content q = q_front q # q_content q'" "q_length q' = q_length q"
    "map wt_cap (q_taskq q') = map wt_cap (q_taskq q)"
proof
  let ?q' = "(snd (q_pop q))\<lparr>q_taskq := (q_taskq (snd (q_pop q)))[q_head q := (q_front q)\<lparr>wt_size := 0\<rparr>]\<rparr>"
  show "work_round w = Inr ((os_write (wt_fd (q_front q)) (task_bytes (q_front q)) w)\<lparr>w_queue := Some ?q'\<rparr>)"
    using assms do_write_plain [OF assms(4) q_front_ok [OF assms(2)]]
    by (simp add: work_round_def q_front_def q_pop_def Let_def)
  show "q_ok ?q'" by (rule pop_clear(1) [OF assms(2,3)])
  show "q_content q = q_front q # q_content ?q'"
    using pop_clear(2) [OF assms(2,3)] q_content_pop [of q] assms(2,3) by (simp add: q_ok_def)
  show "q_length ?q' = q_length q" by (simp add: q_pop_def)
  have "map wt_cap (q_taskq q) ! q_head q = wt_cap (q_front q)" "q_head q < length (q_taskq q)"
    using assms(2) by (simp_all add: q_front_def q_pop_def q_ok_def q_inv_def)
  then show "map wt_cap (q_taskq ?q') = map wt_cap (q_taskq q)"
    by (simp add: q_pop_def map_update list_update_same_conv)
qed

lemma drain_total:
  assumes "q_ok q" "\<not> use_compression (w_ctx w)" "full_writes (w_os w)" "length (q_content q) \<le> n"
  shows "\<exists>q' s. drain n q w = Inr (q', w\<lparr>w_os := s\<rparr>) \<and> is_empty q' \<and> q_length q' = q_length q
    \<and> (\<forall>k. fd_path s k = fd_path (w_os w) k) \<and> full_writes s
    \<and> (\<forall>p. file_bytes s p = file_bytes (w_os w) p @ pending (w_os w) p (q_content q))"
  using assms
proof (induction n arbitrary: q w)
  case 0
  then have "q_content q = []" by (metis le_0_eq length_0_conv)
  moreover from this have "is_empty q" using 0 by (simp add: q_empty_iff q_ok_def)
  moreover note 0
  ultimately show ?case by (auto simp: drain.simps intro!: exI [of _ "w_os w"])
next
  case (Suc n)
  show ?case
  proof (cases "is_empty q")
    case True
    then have "q_content q = []" using Suc.prems by (simp add: q_empty_iff q_ok_def)
    with True Suc.prems show ?thesis by (auto simp: drain.simps intro!: exI [of _ "w_os w"])
  next
    case False
    let ?t = "q_front q" and ?q = "snd (q_pop q)"
    let ?w = "os_write (wt_fd ?t) (task_bytes ?t) w"
    have c: "q_content q = ?t # q_content ?q" using q_content_pop False Suc.prems by (simp add: q_ok_def)
    have e: "wt_size ?t = 0 \<Longrightarrow> task_bytes ?t = []" by (simp add: task_bytes_def split: option.splits)
    define s0 where "s0 = (if wt_size ?t > 0 then w_os ?w else w_os w)"
    have s0: "\<forall>k. fd_path s0 k = fd_path (w_os w) k" "full_writes s0"
      "\<forall>p. file_bytes s0 p = file_bytes (w_os w) p @ (if fd_path (w_os w) (wt_fd ?t) = Some p then task_bytes ?t else [])"
      using Suc.prems e by (auto simp: s0_def os_write_file)
    have "drain (Suc n) q w = drain n ?q (w\<lparr>w_os := s0\<rparr>)"
      using False do_write_plain [OF Suc.prems(2) q_front_ok [OF Suc.prems(1)]]
      by (subst drain.simps) (auto simp: q_pop_def q_front_def s0_def os_write_def Let_def)
    moreover have "pending s0 p (q_content ?q) = pending (w_os w) p (q_content ?q)" for p
      using s0 by (intro pending_cong) simp
    ultimately show ?thesis
      using Suc.IH [of ?q "w\<lparr>w_os := s0\<rparr>"] Suc.prems q_ok_pop [OF Suc.prems(1) False] c s0
      by (auto simp: q_pop_def)
  qed
qed

section \<open>Properties\<close>

text \<open>
  C7. The ring of \<^verbatim>\<open>OutQueue\<close> refines a bounded FIFO: the emptiness and fullness tests are exact
  for a bound of one less than the number of slots, \<^verbatim>\<open>push\<close> on a ring that is not full appends
  the task made from the thread's buffer and hands back the spare buffer of the slot, \<^verbatim>\<open>pop\<close> takes
  the oldest task, and \<^verbatim>\<open>size\<close> is the number of queued tasks.
\<close>

theorem ring_refines_fifo:
  assumes "q_inv q"
  shows "(is_empty q \<longleftrightarrow> q_content q = []) \<and> (is_full q \<longleftrightarrow> length (q_content q) = q_length q - 1)
    \<and> q_size q = int (length (q_content q))
    \<and> push b q = (if is_full q then Inl MustWait
        else Inr (b\<lparr>tb_size := 0, tb_capacity := wt_cap (q_slot q), tb_buf := wt_data (q_slot q)\<rparr>,
          q_put ((q_slot q)\<lparr>wt_fd := tb_fd b, wt_size := tb_size b, wt_cap := tb_capacity b, wt_data := tb_buf b\<rparr>) q))
    \<and> (\<not> is_full q \<longrightarrow> q_inv (q_put t q) \<and> q_content (q_put t q) = q_content q @ [t])
    \<and> (\<not> is_empty q \<longrightarrow> q_inv (snd (q_pop q)) \<and> q_taskq q ! fst (q_pop q) = hd (q_content q)
        \<and> q_content (snd (q_pop q)) = tl (q_content q) \<and> \<not> is_full (snd (q_pop q)))"
proof (intro conjI impI)
  show "is_empty q \<longleftrightarrow> q_content q = []" by (rule ring.empty_iff [OF assms])
  show "is_full q \<longleftrightarrow> length (q_content q) = q_length q - 1" using ring.full_iff [OF assms] by (simp add: q_bound_def)
  show "q_size q = int (length (q_content q))" by (rule q_size_content [OF assms])
  show "push b q = (if is_full q then Inl MustWait
      else Inr (b\<lparr>tb_size := 0, tb_capacity := wt_cap (q_slot q), tb_buf := wt_data (q_slot q)\<rparr>,
        q_put ((q_slot q)\<lparr>wt_fd := tb_fd b, wt_size := tb_size b, wt_cap := tb_capacity b, wt_data := tb_buf b\<rparr>) q))"
    using push_eq [OF assms] by (simp add: load_with_def push_def)
  assume ne: "\<not> is_empty q"
  show "q_taskq q ! fst (q_pop q) = hd (q_content q)" using ring.front_hd [OF assms ne] by (simp add: q_front_def)
  show "q_inv (snd (q_pop q))" "q_content (snd (q_pop q)) = tl (q_content q)" "\<not> is_full (snd (q_pop q))"
    using ring.pop_inv ring.pop_tl ring.pop_then_not_full assms ne by blast+
qed (use ring.put_inv ring.put_content assms in blast)+

definition small_ring :: OutQueue where
  "small_ring = \<lparr>q_length = 3, q_taskq = replicate 3 \<lparr>wt_fd = 4, wt_data = None, wt_size = 0, wt_cap = 0\<rparr>,
     q_head = 2, q_tail = 0, q_count = 1, q_continue = True\<rparr>"

theorem ring_refines_fifo_witness:
  "q_content (q_put (q_slot small_ring) small_ring) = q_content small_ring @ [q_slot small_ring]
   \<and> q_content (snd (q_pop small_ring)) = [] \<and> q_size small_ring = 1"
proof -
  have inv: "q_inv small_ring" by (simp add: small_ring_def q_inv_def q_span_def)
  have st: "\<not> is_full small_ring" "\<not> is_empty small_ring" "q_size small_ring = 1"
    by (simp_all add: small_ring_def is_full_def is_empty_def q_size_def)
  note r = ring_refines_fifo [OF inv, of undefined "q_slot small_ring"]
  have "length (q_content small_ring) = 1" using r st(3) by simp
  then have "tl (q_content small_ring) = []" by (cases "q_content small_ring") auto
  then show ?thesis using r st by simp
qed

text \<open>
  A ring of one slot, which \<^verbatim>\<open>read_config\<close> accepts (\<^verbatim>\<open>UFO_IO_Q=1\<close>), counts as full while it is
  empty: every \<^verbatim>\<open>push\<close> waits, and a round of the writer thread waits too, so the first flush
  blocks its thread for good.
\<close>

theorem ring_of_one_blocks:
  assumes "q_inv q" "q_length q = 1" "w_queue w = Some q"
  shows "push b q = Inl MustWait \<and> work_round w = Inl MustWait"
  using assms by (auto simp: q_inv_def push_def is_full_def work_round_def is_empty_def)

definition ring_of_one :: "world \<Rightarrow> OutQueue" where
  "ring_of_one w = \<lparr>q_length = 1, q_taskq = [fresh_task w], q_head = 0, q_tail = 0, q_count = 0, q_continue = True\<rparr>"

theorem ring_of_one_blocks_witness:
  "\<forall>b w. push b (ring_of_one w) = Inl MustWait \<and> work_round (q_start 1 w) = Inl MustWait"
proof (intro allI)
  fix b w
  have "q_inv (ring_of_one w)" "w_queue (q_start 1 w) = Some (ring_of_one w)"
    by (simp_all add: ring_of_one_def q_inv_def q_span_def q_start_def)
  then show "push b (ring_of_one w) = Inl MustWait \<and> work_round (q_start 1 w) = Inl MustWait"
    using ring_of_one_blocks [of "ring_of_one w" "q_start 1 w" b] by (simp add: ring_of_one_def)
qed

end
