(* ===== verification/Ufo_Demo.thy ===== *)
theory Ufo_Demo
  imports Ufo_State
begin

text \<open>
  A concrete world for examples. They start from one traced thread: its file \<^verbatim>\<open>t/0\<close> is open with \<open>hdr\<close> written, its
  buffer of 64 bytes holds \<open>n\<close> bytes, and the queue \<open>q\<close> is in use if \<open>asyn\<close> holds.
\<close>

definition demo_os :: "byte list \<Rightarrow> os" where
  "demo_os hdr = \<lparr>os_env = (\<lambda>_. None), os_pid = 7, os_ppid = 1, os_tv_sec = 0, os_tv_usec = 0,
     os_stack_tls = (\<lambda>_. (0, 0, 0, 0)), os_open_err = (\<lambda>_. 0), os_mkdir_ok = (\<lambda>_. True), os_dirs = [],
     os_listing = (\<lambda>_. []), os_accept = (\<lambda>n. n), os_junk = (\<lambda>_. 0), os_files = [''t/0'' \<mapsto> hdr],
     os_fds = [Some ''t/0''], os_modules = []\<rparr>"

definition demo_ctx :: "bool \<Rightarrow> UFOContext" where
  "demo_ctx asyn = \<lparr>do_print_stat = False, cur_pid = 7, p_pid = 1, is_subproc = False, mudule_length = 0,
     tl_buf_size = 64, mem_t1 = 1, mem_t2 = 2, ratio_mem_x2 = 0, ratio_mem_x4 = 0, is_on = True,
     no_stack = True, no_data_value = False, trace_func_call = True, trace_ptr_prop = False,
     trace_dir = ''t'' @ replicate 254 NUL, time_started = 0, e_count = 0, use_io_q = asyn,
     use_compression = False, out_queue_length = 2\<rparr>"

definition demo_buf :: "nat \<Rightarrow> TLBuffer" where
  "demo_buf n = \<lparr>tb_buf = Some \<lparr>blk_len = 64, blk_mem = (\<lambda>_. 0)\<rparr>, tb_size = n, tb_capacity = 64, tb_fd = 0,
     last_fe = 0, tls_height = 0, tls_bottom = 0, stack_height = 0, stack_bottom = 0, e_counter = 1\<rparr>"

definition idle_buf :: TLBuffer where
  "idle_buf = \<lparr>tb_buf = None, tb_size = 0, tb_capacity = 0, tb_fd = -1, last_fe = 0, tls_height = -1,
     tls_bottom = -1, stack_height = -1, stack_bottom = -1, e_counter = 0\<rparr>"

definition impl_fns :: fns where
  "impl_fns = \<lparr>fn_alloc = Impl, fn_dealloc = Impl, fn_thread_created = Impl, fn_thread_started = Impl,
     fn_thread_join = Impl, fn_thread_end = Impl, fn_mtx_lock = Impl, fn_mtx_unlock = Impl, fn_rd_lock = Impl,
     fn_rd_unlock = Impl, fn_rw_unlock = Impl, fn_cond_wait = Impl, fn_cond_signal = Impl, fn_cond_bc = Impl,
     fn_mem_acc = NsMem, fn_mem_range_acc = NsRange, fn_enter_func = Impl, fn_exit_func = Impl,
     fn_ptr_prop = Nop, fn_ptr_deref = Nop\<rparr>"

definition demo_world :: "bool \<Rightarrow> byte list \<Rightarrow> nat \<Rightarrow> OutQueue \<Rightarrow> world" where
  "demo_world asyn hdr n q = \<lparr>w_os = demo_os hdr, w_ctx = demo_ctx asyn,
     w_tlbufs = (\<lambda>i. if i = 0 then demo_buf n else idle_buf), w_tlbufs_ok = True,
     w_stat = (\<lambda>_. stat_init), w_stat_ok = True, w_queue = Some q, w_zip_len = None, w_fns = impl_fns,
     w_started = True, w_mem = (\<lambda>_. 7), w_outlen = 0, w_path_junk = replicate 255 NUL\<rparr>"

definition demo_task :: "nat \<Rightarrow> WriteTask" where
  "demo_task n = \<lparr>wt_fd = 0, wt_data = Some \<lparr>blk_len = 64, blk_mem = (\<lambda>_. 5)\<rparr>, wt_size = n, wt_cap = 64\<rparr>"

text \<open>A ring of two slots with \<open>k\<close> tasks of \<open>n\<close> bytes in it.\<close>

definition demo_queue :: "nat \<Rightarrow> nat \<Rightarrow> OutQueue" where
  "demo_queue k n = \<lparr>q_length = 2, q_taskq = [demo_task n, demo_task n], q_head = 0, q_tail = k,
     q_count = int k, q_continue = True\<rparr>"

lemma demo_tlb [simp]: "tlb (demo_world asyn hdr n q) i = (if i = 0 then demo_buf n else idle_buf)"
  by (simp add: demo_world_def tlb_def)

lemma demo_fields [simp]:
  "w_os (demo_world asyn hdr n q) = demo_os hdr" "w_ctx (demo_world asyn hdr n q) = demo_ctx asyn"
  "w_queue (demo_world asyn hdr n q) = Some q" "w_fns (demo_world asyn hdr n q) = impl_fns"
  "w_tlbufs_ok (demo_world asyn hdr n q)" "w_stat_ok (demo_world asyn hdr n q)"
  "w_mem (demo_world asyn hdr n q) = (\<lambda>_. 7)" "w_path_junk (demo_world asyn hdr n q) = replicate 255 NUL"
  by (simp_all add: demo_world_def)

lemma demo_dir [simp]: "cstr (trace_dir (demo_ctx asyn)) = ''t''" "terminated (trace_dir (demo_ctx asyn))"
proof -
  have "replicate 254 NUL = NUL # replicate 253 NUL" by (simp add: numeral_eq_Suc)
  then have d: "trace_dir (demo_ctx asyn) = ''t'' @ NUL # replicate 253 NUL" by (simp add: demo_ctx_def)
  show "cstr (trace_dir (demo_ctx asyn)) = ''t''" "terminated (trace_dir (demo_ctx asyn))" unfolding d by simp_all
qed

lemma demo_fd [simp]: "fd_path (demo_os hdr) k = (if k = 0 then Some ''t/0'' else None)"
  by (auto simp: demo_os_def fd_path_def)

end
