(* ===== verification/Ufo_TLBuffer.thy ===== *)
theory Ufo_TLBuffer
  imports Ufo_IoQueue Ufo_Events Ufo_Demo
begin

text \<open>
  The per-thread event buffer (\<^verbatim>\<open>tlbuffer.h\<close>, \<^verbatim>\<open>tlbuffer.cc\<close>): opening the buffer and the trace
  file, storing an event, flushing to the file or to the output queue, finishing. The
  lemmas show that a buffer whose file is open is a log: storing an event appends exactly
  the bytes of the event to what the file, the queue and the buffer hold together.
\<close>

section \<open>Operations\<close>

definition tlb_init :: "TLBuffer \<Rightarrow> TLBuffer" where
  "tlb_init b = b\<lparr>tb_buf := None, tb_size := 0, tb_capacity := 0, tb_fd := -1, e_counter := 0,
     tls_height := -1, tls_bottom := -1, stack_height := -1, stack_bottom := -1\<rparr>"

definition tlb_reset :: "TLBuffer \<Rightarrow> TLBuffer" where
  "tlb_reset b = b\<lparr>tb_size := 0, tb_fd := -1, e_counter := 0\<rparr>"

definition is_file_open :: "os \<Rightarrow> TLBuffer \<Rightarrow> bool" where
  "is_file_open s b \<longleftrightarrow> tb_fd b \<noteq> -1 \<and> sys_fd_valid (tb_fd b) s"

definition write_file :: "int \<Rightarrow> block option \<Rightarrow> nat \<Rightarrow> world \<Rightarrow> world res" where
  "write_file fd p len w =
     (if fd < 0 then Inr w
      else rbind (read_block p len) (\<lambda>data.
        if use_compression (w_ctx w) then
          (let outlen = snappy_max_compressed_length len
           in rbind (compress_into data (Some outlen) outlen) (\<lambda>(err, out).
                if err \<noteq> 0 then Inl DieCalled
                else Inr (os_write fd out (os_write fd (le_bytes 4 (of_nat (length out))) w))))
        else Inr (os_write fd data w)))"

definition open_buf :: "nat \<Rightarrow> world \<Rightarrow> world" where
  "open_buf tid w =
     upd_tlb tid (\<lambda>b. b\<lparr>tb_buf := Some (alloc_block (w_os w) (get_buf_size w)),
                       tb_capacity := get_buf_size w, tb_size := 0\<rparr>) w"

definition trace_file_name :: "world \<Rightarrow> nat \<Rightarrow> string res" where
  "trace_file_name w tid =
     rbind (internal_strlen (trace_dir (w_ctx w))) (\<lambda>pre_len.
     rbind (internal_snprintf (pre_len + 5) ''%s/%d''
              [VStr (Some (cstr (trace_dir (w_ctx w)))), VInt (int tid)])
       (\<lambda>(file_name, _). Inr file_name))"

definition open_file :: "nat \<Rightarrow> world \<Rightarrow> world res" where
  "open_file tid w =
     (let (stk_addr, stk_size, tls_addr, tls_size) = os_stack_tls (w_os w) (tid = 0);
          w = (if no_stack (w_ctx w)
               then upd_tlb tid (\<lambda>b. b\<lparr>stack_bottom := stk_addr, tls_bottom := tls_addr,
                                       stack_height := ucast stk_size, tls_height := ucast stk_size\<rparr>) w
               else w)
      in rbind (trace_file_name w tid) (\<lambda>file_name.
        (let (fd, s) = sys_open file_name (w_os w);
             w = upd_tlb tid (\<lambda>b. b\<lparr>tb_fd := fd\<rparr>) (w\<lparr>w_os := s\<rparr>);
             data = (if use_compression (w_ctx w) then 1 else 0)
         in Inr (os_write fd (UFOHeader_bytes (of_nat tid) (time_started (w_ctx w)) data) w))))"

text \<open>\<^verbatim>\<open>uctx->out_queue->push(this)\<close>.\<close>

definition push_buf :: "nat \<Rightarrow> world \<Rightarrow> world res" where
  "push_buf tid w =
     (case w_queue w of
        None \<Rightarrow> Inl NullDeref
      | Some q \<Rightarrow> rbind (push (tlb w tid) q) (\<lambda>(b, q). Inr (set_tlb tid b (w\<lparr>w_queue := Some q\<rparr>))))"

definition flush :: "nat \<Rightarrow> world \<Rightarrow> world res" where
  "flush tid w =
     rbind (if \<not> is_file_open (w_os w) (tlb w tid) then open_file tid w else Inr w) (\<lambda>w.
       if tb_fd (tlb w tid) < 0 then Inr w
       else rbind (if use_io_q (w_ctx w) then push_buf tid w
                   else write_file (tb_fd (tlb w tid)) (tb_buf (tlb w tid)) (tb_size (tlb w tid)) w) (\<lambda>w.
         Inr (upd_tlb tid (\<lambda>b. b\<lparr>tb_size := 0\<rparr>) w)))"

text \<open>The tail of \<^verbatim>\<open>finish\<close>: capacity cleared, file synced and closed if it is open.\<close>

definition finish_close :: "nat \<Rightarrow> world \<Rightarrow> world" where
  "finish_close tid w =
     (let w = upd_tlb tid (\<lambda>b. b\<lparr>tb_capacity := 0\<rparr>) w
      in if is_file_open (w_os w) (tlb w tid)
         then w\<lparr>w_os := sys_close (tb_fd (tlb w tid)) (w_os w)\<rparr> else w)"

definition finish :: "nat \<Rightarrow> world \<Rightarrow> world res" where
  "finish tid w =
     (if tb_buf (tlb w tid) \<noteq> None then
        if tb_size (tlb w tid) > 0 then
          rbind (if \<not> is_file_open (w_os w) (tlb w tid) then open_file tid w else Inr w) (\<lambda>w.
            if tb_fd (tlb w tid) < 0 then Inr w
            else rbind (write_file (tb_fd (tlb w tid)) (tb_buf (tlb w tid)) (tb_size (tlb w tid)) w) (\<lambda>w.
              Inr (finish_close tid (upd_tlb tid (\<lambda>b. b\<lparr>tb_size := 0, tb_buf := None\<rparr>) w))))
        else Inr (finish_close tid (upd_tlb tid (\<lambda>b. b\<lparr>tb_buf := None\<rparr>) w))
      else Inr (finish_close tid w))"

text \<open>
  The copy loop of \<^verbatim>\<open>put_event\<close>: one byte, then two at a time until the offset reaches the
  size; an even size would read one byte past the event.
\<close>

fun copy_pairs :: "block \<Rightarrow> nat \<Rightarrow> byte list \<Rightarrow> block res" where
  "copy_pairs k i [] = Inr k"
| "copy_pairs k i [x] = Inl ObjectOverread"
| "copy_pairs k i (x # y # r) =
     rbind (poke k i x) (\<lambda>k. rbind (poke k (Suc i) y) (\<lambda>k. copy_pairs k (Suc (Suc i)) r))"

definition copy_event :: "block option \<Rightarrow> nat \<Rightarrow> byte list \<Rightarrow> block res" where
  "copy_event p at ev =
     (case p of
        None \<Rightarrow> Inl NullDeref
      | Some k \<Rightarrow>
          (case ev of
             [] \<Rightarrow> Inl ObjectOverread
           | x # r \<Rightarrow> rbind (poke k at x) (\<lambda>k. copy_pairs k (Suc at) r)))"

definition put_event :: "nat \<Rightarrow> event \<Rightarrow> world \<Rightarrow> world res" where
  "put_event tid e w =
     (if tb_fd (tlb w tid) < 0 then Inr w
      else
        rbind (if tb_buf (tlb w tid) = None then open_file tid (open_buf tid w)
               else if wrap32 (tb_size (tlb w tid) + length (encode e)) \<ge> tb_capacity (tlb w tid)
               then flush tid w else Inr w) (\<lambda>w.
        rbind (copy_event (tb_buf (tlb w tid)) (tb_size (tlb w tid)) (encode e)) (\<lambda>k.
          Inr (upd_tlb tid (\<lambda>b. b\<lparr>tb_buf := Some k, tb_size := wrap32 (tb_size b + length (encode e)),
                                  e_counter := e_counter b + 1\<rparr>) w))))"

section \<open>Copying\<close>

lemma copy_pairs_eq:
  "even (length bs) \<Longrightarrow> i + length bs \<le> blk_len k \<Longrightarrow> copy_pairs k i bs = Inr (blk_put k i bs)"
proof (induction k i bs rule: copy_pairs.induct)
  case (3 k i x y r)
  then have "i < blk_len k" "Suc i < blk_len k" by auto
  moreover have "blk_put (blk_put k i [x, y]) (Suc (Suc i)) r = blk_put k i (x # y # r)"
    using blk_put_append [of k i "[x, y]" r] by simp
  moreover have "(k\<lparr>blk_mem := (blk_mem k)(i := x)\<rparr>)\<lparr>blk_mem := ((blk_mem k)(i := x))(Suc i := y)\<rparr> = blk_put k i [x, y]"
    using poke_list_fits [of i "[x, y]" k] \<open>Suc i < blk_len k\<close> by (simp add: poke_def)
  ultimately show ?case
    using 3 by (simp add: poke_def)
qed simp_all

lemma copy_event_eq:
  assumes "odd (length bs)" "i + length bs \<le> blk_len k"
  shows "copy_event (Some k) i bs = Inr (blk_put k i bs)"
proof -
  obtain x r where bs: "bs = x # r" using assms(1) by (cases bs) auto
  have "blk_put (k\<lparr>blk_mem := (blk_mem k)(i := x)\<rparr>) (Suc i) r = blk_put k i bs"
    by (simp add: blk_put_Cons bs)
  moreover have "copy_pairs (k\<lparr>blk_mem := (blk_mem k)(i := x)\<rparr>) (Suc i) r =
      Inr (blk_put (k\<lparr>blk_mem := (blk_mem k)(i := x)\<rparr>) (Suc i) r)"
    using assms by (intro copy_pairs_eq) (auto simp: bs)
  ultimately show ?thesis
    using assms by (simp add: copy_event_def bs poke_def)
qed

section \<open>The log of a thread\<close>

text \<open>
  A buffer size a configuration can give (see \<^verbatim>\<open>read_config\<close>: between 1 and 4095 megabytes)
  leaves room for the largest event and never makes the \<^verbatim>\<open>u32\<close> sum wrap.
\<close>

definition roomy :: "nat \<Rightarrow> bool" where
  "roomy n \<longleftrightarrow> 64 \<le> n \<and> n + 64 < 2 ^ 32"

definition queue_ok :: "world \<Rightarrow> bool" where
  "queue_ok w \<longleftrightarrow>
     (use_io_q (w_ctx w) \<longrightarrow>
      (case w_queue w of None \<Rightarrow> False | Some q \<Rightarrow> q_ok q \<and> (\<forall>t\<in>set (q_taskq q). roomy (wt_cap t))))"

text \<open>Writes are taken in full and go out as they are.\<close>

definition plain_io :: "world \<Rightarrow> bool" where
  "plain_io w \<longleftrightarrow> full_writes (w_os w) \<and> \<not> use_compression (w_ctx w)"

definition sys_ok :: "world \<Rightarrow> bool" where
  "sys_ok w \<longleftrightarrow> plain_io w \<and> queue_ok w"

text \<open>The queue has a free slot, so a flush does not have to wait.\<close>

definition ready :: "world \<Rightarrow> bool" where
  "ready w \<longleftrightarrow> (use_io_q (w_ctx w) \<longrightarrow> (case w_queue w of None \<Rightarrow> False | Some q \<Rightarrow> \<not> is_full q))"

definition queued :: "world \<Rightarrow> WriteTask list" where
  "queued w = (if use_io_q (w_ctx w) then (case w_queue w of None \<Rightarrow> [] | Some q \<Rightarrow> q_content q) else [])"

text \<open>What has reached a file or is on its way to it in the queue.\<close>

definition disk :: "world \<Rightarrow> string \<Rightarrow> byte list" where
  "disk w p = file_bytes (w_os w) p @ pending (w_os w) p (queued w)"

definition buf_bytes :: "TLBuffer \<Rightarrow> byte list" where
  "buf_bytes b = (case tb_buf b of None \<Rightarrow> [] | Some k \<Rightarrow> blk_bytes k (tb_size b))"

definition buf_ok :: "TLBuffer \<Rightarrow> bool" where
  "buf_ok b \<longleftrightarrow>
     (case tb_buf b of None \<Rightarrow> False
      | Some k \<Rightarrow> blk_len k = tb_capacity b \<and> tb_size b \<le> tb_capacity b \<and> roomy (tb_capacity b))"

definition live :: "world \<Rightarrow> nat \<Rightarrow> string \<Rightarrow> bool" where
  "live w tid p \<longleftrightarrow> buf_ok (tlb w tid) \<and> fd_path (w_os w) (tb_fd (tlb w tid)) = Some p"

definition tlog :: "world \<Rightarrow> nat \<Rightarrow> string \<Rightarrow> byte list" where
  "tlog w tid p = disk w p @ buf_bytes (tlb w tid)"

text \<open>The fields of a buffer that storing and flushing do not concern.\<close>

definition tb_rest :: "TLBuffer \<Rightarrow> int \<times> u64 \<times> u32 \<times> u64 \<times> u32 \<times> u64" where
  "tb_rest b = (tb_fd b, last_fe b, tls_height b, tls_bottom b, stack_height b, stack_bottom b)"

text \<open>
  \<open>quiet tid p w w'\<close>: the step touched only the buffer of \<open>tid\<close> and the log of file \<open>p\<close>.
\<close>

definition same_env :: "world \<Rightarrow> world \<Rightarrow> bool" where
  "same_env w w' \<longleftrightarrow> w_ctx w' = w_ctx w \<and> w_stat w' = w_stat w \<and> w_stat_ok w' = w_stat_ok w
     \<and> w_tlbufs_ok w' = w_tlbufs_ok w \<and> w_mem w' = w_mem w \<and> w_fns w' = w_fns w
     \<and> w_started w' = w_started w \<and> (\<forall>k. fd_path (w_os w') k = fd_path (w_os w) k)"

definition quiet :: "nat \<Rightarrow> string \<Rightarrow> world \<Rightarrow> world \<Rightarrow> bool" where
  "quiet tid p w w' \<longleftrightarrow> same_env w w' \<and> (\<forall>j. j \<noteq> tid \<longrightarrow> tlb w' j = tlb w j)
     \<and> (\<forall>r. r \<noteq> p \<longrightarrow> disk w' r = disk w r)
     \<and> (\<forall>t\<in>set (queued w'). t \<in> set (queued w) \<or> fd_path (w_os w) (wt_fd t) = Some p)"

lemma quiet_refl [simp]: "quiet tid p w w"
  by (simp add: quiet_def same_env_def)

lemma quiet_trans: "quiet tid p w w' \<Longrightarrow> quiet tid p w' w'' \<Longrightarrow> quiet tid p w w''"
  by (fastforce simp: quiet_def same_env_def)

lemma sys_ok_set_tlb [simp]: "sys_ok (set_tlb i b w) = sys_ok w" "disk (set_tlb i b w) p = disk w p"
  "ready (set_tlb i b w) = ready w" "queued (set_tlb i b w) = queued w"
  by (simp_all add: sys_ok_def plain_io_def queue_ok_def disk_def queued_def ready_def)

lemma sys_ok_plain [simp]: "sys_ok w \<Longrightarrow> plain_io w"
  by (simp add: sys_ok_def)

lemma quiet_set_tlb: "quiet tid p w (set_tlb tid b w)"
  by (simp add: quiet_def same_env_def)

lemma buf_okE:
  assumes "buf_ok b"
  obtains k where "tb_buf b = Some k" "blk_len k = tb_capacity b" "tb_size b \<le> tb_capacity b"
    "roomy (tb_capacity b)"
  using assms by (auto simp: buf_ok_def split: option.splits)

lemma live_open: "live w tid p \<Longrightarrow> is_file_open (w_os w) (tlb w tid) \<and> 0 \<le> tb_fd (tlb w tid)"
  by (auto simp: live_def is_file_open_def sys_fd_valid_def fd_path_def split: if_splits)

text \<open>Without the queue, a flush writes the buffer to the file.\<close>

lemma write_file_log:
  assumes "live w tid p" "plain_io w"
  defines "b \<equiv> tlb w tid"
  shows "write_file (tb_fd b) (tb_buf b) (tb_size b) w = Inr (os_write (tb_fd b) (buf_bytes b) w)"
    and "disk (os_write (tb_fd b) (buf_bytes b) w) r =
         file_bytes (w_os w) r @ (if r = p then buf_bytes b else []) @ pending (w_os w) r (queued w)"
proof -
  obtain k where k: "tb_buf b = Some k" "blk_len k = tb_capacity b" "tb_size b \<le> tb_capacity b"
    using assms(1) by (auto simp: live_def b_def elim: buf_okE)
  have "0 \<le> tb_fd b" using live_open [OF assms(1)] by (simp add: b_def)
  then show "write_file (tb_fd b) (tb_buf b) (tb_size b) w = Inr (os_write (tb_fd b) (buf_bytes b) w)"
    using k assms(2) by (simp add: write_file_def plain_io_def buf_bytes_def)
  have "queued (os_write (tb_fd b) (buf_bytes b) w) = queued w" by (simp add: queued_def)
  moreover have "pending (w_os (os_write (tb_fd b) (buf_bytes b) w)) r ts = pending (w_os w) r ts" for ts
    by (intro pending_cong) simp
  ultimately show "disk (os_write (tb_fd b) (buf_bytes b) w) r =
      file_bytes (w_os w) r @ (if r = p then buf_bytes b else []) @ pending (w_os w) r (queued w)"
    using assms(1,2) by (auto simp: disk_def os_write_file plain_io_def live_def b_def)
qed

text \<open>With the queue, a flush hands the buffer over and takes the spare one of the slot.\<close>

lemma push_buf_log:
  assumes "live w tid p" "sys_ok w" "ready w" "use_io_q (w_ctx w)"
  shows "\<exists>w'. push_buf tid w = Inr w' \<and> live w' tid p \<and> sys_ok w' \<and> tb_size (tlb w' tid) = 0
    \<and> disk w' p = tlog w tid p \<and> quiet tid p w w'
    \<and> tb_rest (tlb w' tid) = tb_rest (tlb w tid) \<and> e_counter (tlb w' tid) = e_counter (tlb w tid)"
proof -
  obtain q where q: "w_queue w = Some q" "q_ok q" "\<forall>t\<in>set (q_taskq q). roomy (wt_cap t)" "\<not> is_full q"
    using assms(2-4) by (auto simp: sys_ok_def queue_ok_def ready_def split: option.splits)
  obtain k where k: "tb_buf (tlb w tid) = Some k" "blk_len k = tb_capacity (tlb w tid)"
    "tb_size (tlb w tid) \<le> tb_capacity (tlb w tid)" "roomy (tb_capacity (tlb w tid))"
    using assms(1) by (auto simp: live_def elim: buf_okE)
  define t where "t = fst (load_with (q_slot q) (tlb w tid))"
  define b where "b = snd (load_with (q_slot q) (tlb w tid))"
  define w' where "w' = set_tlb tid b (w\<lparr>w_queue := Some (q_put t q)\<rparr>)"
  have push: "push_buf tid w = Inr w'"
    using q by (simp add: push_buf_def push_eq q_ok_def t_def b_def w'_def)
  have t: "task_ok t" "task_bytes t = buf_bytes (tlb w tid)" "wt_fd t = tb_fd (tlb w tid)" "roomy (wt_cap t)"
    using k by (simp_all add: t_def load_with_def task_ok_def task_bytes_def buf_bytes_def)
  have "q_slot q \<in> set (q_taskq q)" using q(2) by (simp add: q_ok_def q_inv_def q_slot_def)
  then have b: "buf_ok b" "tb_size b = 0"
    using q(2,3) by (auto simp: q_ok_def b_def load_with_def buf_ok_def task_ok_def split: option.splits)
  have c: "queued w' = queued w @ [t]"
    using assms(4) q by (simp add: queued_def w'_def q_content_put q_ok_def)
  have "queue_ok w'"
    using q q_ok_put [OF q(2,4) t(1)] t(4)
    by (auto simp: queue_ok_def w'_def q_put_def dest!: set_update_subset_insert [THEN subsetD])
  then have "sys_ok w'" using assms(2) by (simp add: sys_ok_def plain_io_def w'_def)
  moreover have "live w' tid p" using b assms(1) by (simp add: live_def w'_def b_def load_with_def)
  moreover have "disk w' r = disk w r @ (if r = p then buf_bytes (tlb w tid) else [])" for r
    using c t assms(1) by (auto simp: disk_def w'_def live_def)
  moreover have "tb_rest b = tb_rest (tlb w tid)" "e_counter b = e_counter (tlb w tid)"
    by (simp_all add: b_def load_with_def tb_rest_def)
  ultimately show ?thesis
    using push b(2) c t(3) assms(1) by (auto simp: w'_def quiet_def same_env_def tlog_def live_def)
qed

text \<open>A round of the writer thread moves bytes from the queue to the files and changes no log.\<close>

lemma work_round_keeps:
  assumes "sys_ok w" "use_io_q (w_ctx w)" "work_round w = Inr w'"
  shows "sys_ok w'" "disk w' p = disk w p" "tlb w' i = tlb w i" "fd_path (w_os w') k = fd_path (w_os w) k"
    "w_ctx w' = w_ctx w" "w_tlbufs_ok w' = w_tlbufs_ok w" "w_stat_ok w' = w_stat_ok w"
proof -
  obtain q where q: "w_queue w = Some q" "q_ok q" "\<forall>t\<in>set (q_taskq q). roomy (wt_cap t)"
    using assms(1,2) by (auto simp: sys_ok_def queue_ok_def split: option.splits)
  then have ne: "\<not> is_empty q" using assms(3) by (auto simp: work_round_def)
  have pl: "\<not> use_compression (w_ctx w)" "full_writes (w_os w)" using assms(1) by (auto simp: sys_ok_def plain_io_def)
  let ?w = "os_write (wt_fd (q_front q)) (task_bytes (q_front q)) w"
  obtain q' where q': "work_round w = Inr (?w\<lparr>w_queue := Some q'\<rparr>)" "q_ok q'"
    "q_content q = q_front q # q_content q'" "map wt_cap (q_taskq q') = map wt_cap (q_taskq q)"
    using work_round_log [OF q(1,2) ne pl] .
  have "\<forall>c\<in>set (map wt_cap (q_taskq q')). roomy c" using q(3) unfolding q'(4) by simp
  have w': "w' = ?w\<lparr>w_queue := Some q'\<rparr>" using q'(1) assms(3) by simp
  have pend: "pending (w_os ?w) p ts = pending (w_os w) p ts" for ts by (intro pending_cong) simp
  show "sys_ok w'" using assms(1,2) q'(2) \<open>\<forall>c\<in>set (map wt_cap (q_taskq q')). roomy c\<close> pl by (simp add: w' sys_ok_def plain_io_def queue_ok_def)
  show "disk w' p = disk w p"
    using assms(2) q(1) q'(3) pl(2) pend by (simp add: w' disk_def queued_def os_write_file)
  show "tlb w' i = tlb w i" "fd_path (w_os w') k = fd_path (w_os w) k" "w_ctx w' = w_ctx w"
    "w_tlbufs_ok w' = w_tlbufs_ok w" "w_stat_ok w' = w_stat_ok w"
    by (simp_all add: w')
qed

lemma flush_log:
  assumes "live w tid p" "sys_ok w" "ready w"
  shows "\<exists>w'. flush tid w = Inr w' \<and> live w' tid p \<and> sys_ok w' \<and> tb_size (tlb w' tid) = 0
    \<and> disk w' p = tlog w tid p \<and> quiet tid p w w'
    \<and> tb_rest (tlb w' tid) = tb_rest (tlb w tid) \<and> e_counter (tlb w' tid) = e_counter (tlb w tid)"
proof (cases "use_io_q (w_ctx w)")
  case True
  obtain w' where w': "push_buf tid w = Inr w'" "live w' tid p" "sys_ok w'" "tb_size (tlb w' tid) = 0"
    "disk w' p = tlog w tid p" "quiet tid p w w'" "tb_rest (tlb w' tid) = tb_rest (tlb w tid)"
    "e_counter (tlb w' tid) = e_counter (tlb w tid)"
    using push_buf_log [OF assms True] by blast
  have "upd_tlb tid (\<lambda>b. b\<lparr>tb_size := 0\<rparr>) w' = w'"
    using w'(4) by (simp add: upd_tlb_def set_tlb_def tlb_def fun_upd_idem)
  then show ?thesis
    using w' True live_open [OF assms(1)] by (auto simp: flush_def)
next
  case False
  let ?b = "tlb w tid"
  let ?w = "set_tlb tid (?b\<lparr>tb_size := 0\<rparr>) (os_write (tb_fd ?b) (buf_bytes ?b) w)"
  have "flush tid w = Inr ?w"
    using False live_open [OF assms(1)] write_file_log(1) [OF assms(1) sys_ok_plain [OF assms(2)]] by (auto simp: flush_def upd_tlb_def)
  moreover have "queued w = []" using False by (simp add: queued_def)
  then have "disk ?w r = disk w r @ (if r = p then buf_bytes ?b else [])" for r
    using write_file_log(2) [OF assms(1) sys_ok_plain [OF assms(2)], of r] by (simp add: disk_def [of w])
  moreover have "live ?w tid p" using assms(1) by (auto simp: live_def buf_ok_def split: option.splits)
  moreover have "sys_ok ?w" using assms(2) by (simp add: sys_ok_def plain_io_def queue_ok_def)
  moreover have "queued ?w = []" using False by (simp add: queued_def)
  ultimately show ?thesis
    by (auto simp: quiet_def same_env_def tb_rest_def tlog_def)
qed

section \<open>Storing an event\<close>

text \<open>Bytes that fit behind the stored ones extend the log by themselves.\<close>

lemma store_log:
  assumes "live w tid p" "tb_buf (tlb w tid) = Some k" "tb_size (tlb w tid) + length bs \<le> tb_capacity (tlb w tid)"
  defines "w' \<equiv> \<lambda>c. set_tlb tid ((tlb w tid)\<lparr>tb_buf := Some (blk_put k (tb_size (tlb w tid)) bs),
      tb_size := tb_size (tlb w tid) + length bs, e_counter := c\<rparr>) w"
  shows "live (w' c) tid p" "tlog (w' c) tid p = tlog w tid p @ bs" "quiet tid p w (w' c)"
  using assms by (auto simp: live_def buf_ok_def tlog_def buf_bytes_def quiet_set_tlb)

lemma put_event_room:
  assumes "live w tid p" "tb_size (tlb w tid) + length (encode e) < tb_capacity (tlb w tid)"
  shows "\<exists>w'. put_event tid e w = Inr w' \<and> live w' tid p \<and> tlog w' tid p = tlog w tid p @ encode e
    \<and> quiet tid p w w' \<and> (sys_ok w' \<longleftrightarrow> sys_ok w) \<and> (ready w' \<longleftrightarrow> ready w)
    \<and> tb_rest (tlb w' tid) = tb_rest (tlb w tid) \<and> e_counter (tlb w' tid) = e_counter (tlb w tid) + 1
    \<and> tb_size (tlb w' tid) = tb_size (tlb w tid) + length (encode e)
    \<and> tb_capacity (tlb w' tid) = tb_capacity (tlb w tid)
    \<and> buf_bytes (tlb w' tid) = buf_bytes (tlb w tid) @ encode e
    \<and> w_queue w' = w_queue w \<and> w_os w' = w_os w"
proof -
  obtain k where k: "tb_buf (tlb w tid) = Some k" "blk_len k = tb_capacity (tlb w tid)" "roomy (tb_capacity (tlb w tid))"
    using assms(1) by (auto simp: live_def elim: buf_okE)
  have wr: "wrap32 (tb_size (tlb w tid) + length (encode e)) = tb_size (tlb w tid) + length (encode e)"
    using assms(2) k(3) by (simp add: roomy_def)
  have "copy_event (Some k) (tb_size (tlb w tid)) (encode e) = Inr (blk_put k (tb_size (tlb w tid)) (encode e))"
    using assms(2) k(2) by (simp add: copy_event_eq)
  moreover have "0 \<le> tb_fd (tlb w tid)" using live_open [OF assms(1)] by simp
  ultimately have put: "put_event tid e w =
      Inr (set_tlb tid ((tlb w tid)\<lparr>tb_buf := Some (blk_put k (tb_size (tlb w tid)) (encode e)),
        tb_size := tb_size (tlb w tid) + length (encode e), e_counter := e_counter (tlb w tid) + 1\<rparr>) w)"
    using k assms(2) wr by (simp add: put_event_def upd_tlb_def)
  show ?thesis
    unfolding put using store_log [OF assms(1) k(1), of "encode e"] assms(2) k(1)
    by (simp add: tb_rest_def buf_bytes_def)
qed

lemma put_event_log:
  assumes "live w tid p" "sys_ok w" "ready w"
  shows "\<exists>w'. put_event tid e w = Inr w' \<and> live w' tid p \<and> sys_ok w' \<and> tlog w' tid p = tlog w tid p @ encode e
    \<and> quiet tid p w w' \<and> tb_rest (tlb w' tid) = tb_rest (tlb w tid)
    \<and> e_counter (tlb w' tid) = e_counter (tlb w tid) + 1
    \<and> (\<exists>xs. buf_bytes (tlb w' tid) = xs @ encode e)"
proof (cases "tb_size (tlb w tid) + length (encode e) < tb_capacity (tlb w tid)")
  case True
  then show ?thesis using put_event_room [OF assms(1) True] assms(2) by blast
next
  case False
  obtain k where k: "tb_buf (tlb w tid) = Some k" "roomy (tb_capacity (tlb w tid))"
    "tb_size (tlb w tid) \<le> tb_capacity (tlb w tid)"
    using assms(1) by (auto simp: live_def elim: buf_okE)
  obtain w1 where w1: "flush tid w = Inr w1" "live w1 tid p" "sys_ok w1" "tb_size (tlb w1 tid) = 0"
    "disk w1 p = tlog w tid p" "quiet tid p w w1" "tb_rest (tlb w1 tid) = tb_rest (tlb w tid)"
    "e_counter (tlb w1 tid) = e_counter (tlb w tid)"
    using flush_log [OF assms] by blast
  have cap: "length (encode e) < tb_capacity (tlb w1 tid)"
    using w1(2) encode_bounds(2) [of e] by (auto simp: live_def roomy_def elim!: buf_okE)
  have fd: "0 \<le> tb_fd (tlb w tid)" "0 \<le> tb_fd (tlb w1 tid)"
    using live_open [OF assms(1)] live_open [OF w1(2)] by simp_all
  obtain k1 where k1: "tb_buf (tlb w1 tid) = Some k1" using w1(2) by (auto simp: live_def elim: buf_okE)
  have "wrap32 (tb_size (tlb w tid) + length (encode e)) = tb_size (tlb w tid) + length (encode e)"
    using k encode_bounds(2) [of e] by (simp add: roomy_def)
  moreover have "\<not> wrap32 (tb_size (tlb w1 tid) + length (encode e)) \<ge> tb_capacity (tlb w1 tid)"
    using cap w1(4) by (simp add: wrap32_def le_less_trans [OF mod_less_eq_dividend])
  ultimately have "put_event tid e w = put_event tid e w1"
    using False k k1 fd w1(1) by (simp add: put_event_def)
  moreover have "tlog w1 tid p = tlog w tid p"
    using w1(4,5) k1 by (simp add: tlog_def buf_bytes_def)
  ultimately show ?thesis
    using put_event_room [of w1 tid p e] w1 cap quiet_trans [OF w1(6)] by auto
qed

text \<open>Only a flush into a full queue makes the thread wait.\<close>

lemma flush_waits:
  assumes "live w tid p" "sys_ok w" "\<not> ready w"
  shows "flush tid w = Inl MustWait"
  using assms live_open [OF assms(1)]
  by (auto simp: flush_def push_buf_def ready_def push_def sys_ok_def queue_ok_def split: option.splits)

lemma put_event_waits:
  assumes "live w tid p" "sys_ok w" "\<not> ready w" "tb_capacity (tlb w tid) \<le> tb_size (tlb w tid) + length (encode e)"
  shows "put_event tid e w = Inl MustWait"
proof -
  obtain k where k: "tb_buf (tlb w tid) = Some k" "roomy (tb_capacity (tlb w tid))"
    "tb_size (tlb w tid) \<le> tb_capacity (tlb w tid)"
    using assms(1) by (auto simp: live_def elim: buf_okE)
  have "wrap32 (tb_size (tlb w tid) + length (encode e)) = tb_size (tlb w tid) + length (encode e)"
    using k encode_bounds(2) [of e] by (simp add: roomy_def)
  then show ?thesis
    using k assms(4) live_open [OF assms(1)] flush_waits [OF assms(1-3)] by (simp add: put_event_def)
qed

text \<open>With a closed file nothing is stored.\<close>

lemma put_event_closed: "tb_fd (tlb w tid) < 0 \<Longrightarrow> put_event tid e w = Inr w"
  by (simp add: put_event_def)

section \<open>Opening and finishing\<close>

text \<open>Every queued task belongs to a file that is still open.\<close>

definition no_stale :: "world \<Rightarrow> bool" where
  "no_stale w \<longleftrightarrow> (\<forall>t\<in>set (queued w). fd_path (w_os w) (wt_fd t) \<noteq> None)"

lemma no_stale_quiet: "quiet tid p w w' \<Longrightarrow> no_stale w \<Longrightarrow> no_stale w'"
  by (fastforce simp: quiet_def same_env_def no_stale_def)

definition header :: "world \<Rightarrow> nat \<Rightarrow> byte list" where
  "header w tid = UFOHeader_bytes (of_nat tid) (time_started (w_ctx w)) 0"

lemma open_file_log:
  assumes "sys_ok w" "no_stale w" "trace_file_name w tid = Inr f" "os_open_err (w_os w) f = 0" "buf_ok (tlb w tid)"
    and "pending (w_os w) f (queued w) = []"
  shows "\<exists>w'. open_file tid w = Inr w' \<and> live w' tid f \<and> sys_ok w' \<and> no_stale w'
    \<and> (\<forall>r. disk w' r = disk w r @ (if r = f then header w tid else []))
    \<and> (\<forall>j. j \<noteq> tid \<longrightarrow> tlb w' j = tlb w j) \<and> queued w' = queued w \<and> w_queue w' = w_queue w
    \<and> tb_buf (tlb w' tid) = tb_buf (tlb w tid) \<and> tb_size (tlb w' tid) = tb_size (tlb w tid)
    \<and> w_ctx w' = w_ctx w \<and> w_stat_ok w' = w_stat_ok w \<and> w_tlbufs_ok w' = w_tlbufs_ok w
    \<and> (\<forall>k. fd_path (w_os w) k \<noteq> None \<longrightarrow> fd_path (w_os w') k = fd_path (w_os w) k)"
proof -
  obtain sa ss ta ts where st: "os_stack_tls (w_os w) (tid = 0) = (sa, ss, ta, ts)" by (metis prod_cases4)
  define b1 where "b1 = (if no_stack (w_ctx w) then (tlb w tid)\<lparr>stack_bottom := sa, tls_bottom := ta,
      stack_height := ucast ss, tls_height := ucast ss\<rparr> else tlb w tid)"
  obtain fd s where op: "sys_open f (w_os w) = (fd, s)" by fastforce
  have fd: "0 \<le> fd" using op assms(4) by (auto simp: sys_open_def)
  define w1 where "w1 = set_tlb tid (b1\<lparr>tb_fd := fd\<rparr>) (w\<lparr>w_os := s\<rparr>)"
  have nm: "trace_file_name (set_tlb tid b w) tid = Inr f" for b
    using assms(3) by (simp add: trace_file_name_def)
  have "open_file tid w = Inr (os_write fd (header w tid) w1)"
    using assms(1,3) nm st op
    by (auto simp: open_file_def b1_def w1_def upd_tlb_def header_def sys_ok_def plain_io_def split: prod.splits)
  moreover have path: "fd_path s k = (if k = fd then Some f else fd_path (w_os w) k)" "fd_path (w_os w) fd = None" for k
    using fd_path_open [OF op fd] by auto
  moreover have q: "queued (os_write fd (header w tid) w1) = queued w" by (simp add: queued_def w1_def)
  moreover have pend: "pending s r (queued w) = pending (w_os w) r (queued w)" for r
    unfolding pending_def
  proof (intro arg_cong [where f = concat] map_cong refl)
    fix t assume "t \<in> set (queued w)"
    then have "wt_fd t \<noteq> fd" using assms(2) path(2) by (auto simp: no_stale_def)
    then show "(if fd_path s (wt_fd t) = Some r then task_bytes t else []) =
        (if fd_path (w_os w) (wt_fd t) = Some r then task_bytes t else [])" by (simp add: path(1))
  qed
  moreover have fw: "full_writes s" using assms(1) full_writes_open [OF op] by (simp add: sys_ok_def plain_io_def)
  moreover have "pending (w_os (os_write fd (header w tid) w1)) r (queued w) = pending (w_os w) r (queued w)" for r
    using pend pending_cong [of "w_os (os_write fd (header w tid) w1)" s r] by (simp add: w1_def)
  then have "disk (os_write fd (header w tid) w1) r = disk w r @ (if r = f then header w tid else [])" for r
    using q fw path assms(6) by (auto simp: disk_def os_write_file file_bytes_open [OF op] w1_def)
  moreover have "tb_fd b1 = tb_fd (tlb w tid)" "tb_buf b1 = tb_buf (tlb w tid)" "tb_size b1 = tb_size (tlb w tid)"
    "buf_ok (b1\<lparr>tb_fd := fd\<rparr>)"
    using assms(5) by (auto simp: b1_def buf_ok_def split: option.splits)
  moreover have "sys_ok (os_write fd (header w tid) w1)"
    using assms(1) fw by (simp add: sys_ok_def plain_io_def queue_ok_def w1_def)
  moreover have "no_stale (os_write fd (header w tid) w1)"
    using assms(2) q path by (auto simp: no_stale_def w1_def)
  ultimately show ?thesis
    by (auto simp: w1_def live_def)
qed

text \<open>\<open>finish\<close> writes the buffer to the file and closes it; it does not look at the queue.\<close>

lemma finish_os:
  assumes "live w tid p" "plain_io w"
  shows "\<exists>w'. finish tid w = Inr w' \<and> plain_io w' \<and> (queue_ok w' \<longleftrightarrow> queue_ok w) \<and> tb_buf (tlb w' tid) = None \<and> tb_fd (tlb w' tid) = tb_fd (tlb w tid)
    \<and> (\<forall>r. file_bytes (w_os w') r = file_bytes (w_os w) r @ (if r = p then buf_bytes (tlb w tid) else []))
    \<and> (\<forall>j. j \<noteq> tid \<longrightarrow> tlb w' j = tlb w j) \<and> queued w' = queued w \<and> w_queue w' = w_queue w
    \<and> (\<forall>k. fd_path (w_os w') k = (if k = tb_fd (tlb w tid) then None else fd_path (w_os w) k))
    \<and> w_ctx w' = w_ctx w \<and> w_tlbufs_ok w' = w_tlbufs_ok w"
proof -
  let ?b = "tlb w tid"
  obtain k where k: "tb_buf ?b = Some k" using assms(1) by (auto simp: live_def elim: buf_okE)
  let ?w1 = "if tb_size ?b > 0 then os_write (tb_fd ?b) (buf_bytes ?b) w else w"
  let ?w = "set_tlb tid (?b\<lparr>tb_size := 0, tb_buf := None, tb_capacity := 0\<rparr>)
      (?w1\<lparr>w_os := sys_close (tb_fd ?b) (w_os ?w1)\<rparr>)"
  have op: "is_file_open (w_os ?w1) (?b\<lparr>tb_size := a, tb_buf := c, tb_capacity := d\<rparr>)" for a c d
    using live_open [OF assms(1)] by (auto simp: is_file_open_def sys_fd_valid_def)
  have "finish tid w = Inr ?w"
    using k live_open [OF assms(1)] write_file_log(1) [OF assms] op
    by (cases ?b) (auto simp: finish_def finish_close_def upd_tlb_def Let_def is_file_open_def sys_fd_valid_def)
  moreover have "buf_bytes ?b = []" if "tb_size ?b = 0"
    using that k by (simp add: buf_bytes_def)
  then have "file_bytes (w_os ?w) r = file_bytes (w_os w) r @ (if r = p then buf_bytes ?b else [])" for r
    using assms by (auto simp: os_write_file plain_io_def live_def)
  moreover have "plain_io ?w" "queue_ok ?w = queue_ok w" using assms(2) by (auto simp: plain_io_def queue_ok_def)
  moreover have "queued ?w = queued w" by (simp add: queued_def)
  ultimately show ?thesis
    by (auto simp: fd_path_close)
qed

lemma finish_log:
  assumes "live w tid p" "plain_io w" "queued w = []"
  shows "\<exists>w'. finish tid w = Inr w' \<and> file_bytes (w_os w') p = tlog w tid p
    \<and> tb_buf (tlb w' tid) = None \<and> fd_path (w_os w') (tb_fd (tlb w' tid)) = None"
  using finish_os [OF assms(1,2)] assms(3) by (auto simp: tlog_def disk_def)

section \<open>The example world\<close>

lemma demo_queue_ok: "k < 2 \<Longrightarrow> n \<le> 64 \<Longrightarrow> q_ok (demo_queue k n)"
  by (simp add: demo_queue_def q_ok_def q_inv_def q_span_def task_ok_def demo_task_def)

lemma demo_live: "n \<le> 64 \<Longrightarrow> live (demo_world asyn hdr n q) 0 ''t/0''"
  by (simp add: live_def buf_ok_def demo_buf_def roomy_def)

lemma demo_sys_ok: "k < 2 \<Longrightarrow> m \<le> 64 \<Longrightarrow> sys_ok (demo_world asyn hdr n (demo_queue k m))"
  using demo_queue_ok [of k m]
  by (auto simp: sys_ok_def plain_io_def full_writes_def demo_os_def demo_ctx_def queue_ok_def demo_queue_def
      demo_task_def roomy_def)

lemma demo_ready: "\<not> asyn \<or> k = 0 \<Longrightarrow> ready (demo_world asyn hdr n (demo_queue k m))"
  by (auto simp: ready_def demo_ctx_def is_full_def demo_queue_def)

lemma demo_buf_bytes: "n \<le> 64 \<Longrightarrow> buf_bytes (demo_buf n) = replicate n 0"
  by (simp add: buf_bytes_def demo_buf_def blk_bytes_def map_replicate_trivial map_replicate_const)

section \<open>Properties\<close>

text \<open>
  C6. \<^verbatim>\<open>TLBuffer::put_event\<close> on a thread whose trace file is open and whose queue has room returns
  without fault and appends exactly the encoding of the event to the thread's log (file, then
  queued chunks, then buffer), whether or not it has to flush; no other buffer and no other
  file changes, the event counter advances by one, and the event is at the end of the buffer.
\<close>

theorem put_event_appends:
  assumes "live w tid p" "sys_ok w" "ready w"
  shows "\<exists>w'. put_event tid e w = Inr w' \<and> live w' tid p \<and> sys_ok w' \<and> tlog w' tid p = tlog w tid p @ encode e
    \<and> quiet tid p w w' \<and> e_counter (tlb w' tid) = e_counter (tlb w tid) + 1
    \<and> (\<exists>xs. buf_bytes (tlb w' tid) = xs @ encode e)"
  using put_event_log [OF assms] by blast

theorem put_event_appends_witness:
  "\<exists>w'. put_event 0 (LockEvent 5 6) (demo_world True [] 60 (demo_queue 0 0)) = Inr w'
    \<and> tlog w' 0 ''t/0'' = tlog (demo_world True [] 60 (demo_queue 0 0)) 0 ''t/0'' @ encode (LockEvent 5 6)"
  using put_event_appends [of "demo_world True [] 60 (demo_queue 0 0)" 0 "''t/0''" "LockEvent 5 6"]
    demo_live demo_sys_ok demo_ready by auto

text \<open>
  C19. \<^verbatim>\<open>TLBuffer::finish\<close> with an empty queue, no compression and complete writes leaves the whole log in
  the file, releases the buffer and closes the descriptor.
\<close>

theorem finish_writes_log:
  assumes "live w tid p" "plain_io w" "queued w = []"
  shows "\<exists>w'. finish tid w = Inr w' \<and> file_bytes (w_os w') p = tlog w tid p
    \<and> tb_buf (tlb w' tid) = None \<and> fd_path (w_os w') (tb_fd (tlb w' tid)) = None"
  using assms by (rule finish_log)

theorem finish_writes_log_witness:
  "\<exists>w'. finish 0 (demo_world False [1, 2] 3 (demo_queue 0 0)) = Inr w' \<and> file_bytes (w_os w') ''t/0'' = [1, 2, 0, 0, 0]"
  using finish_writes_log [of "demo_world False [1, 2] 3 (demo_queue 0 0)" 0 "''t/0''"]
    demo_live [of 3] demo_sys_ok [of 0 0 False "[1, 2]" 3] demo_buf_bytes [of 3]
  by (auto simp: queued_def demo_ctx_def tlog_def disk_def file_bytes_def demo_os_def numeral_eq_Suc)

text \<open>
  C11. With compression on and no queue, a flush appends to the trace file one block: four bytes with a
  length and as many bytes, which decompress to what the buffer held; the buffer is empty then.
\<close>

theorem flush_compressed:
  assumes "live w tid p" "full_writes (w_os w)" "use_compression (w_ctx w)" "\<not> use_io_q (w_ctx w)"
    and "snappy_max_compressed_length (tb_size (tlb w tid)) < 2 ^ 32"
  shows "\<exists>w' z. flush tid w = Inr w' \<and> tb_size (tlb w' tid) = 0 \<and> length z < 2 ^ 32
    \<and> file_bytes (w_os w') p = file_bytes (w_os w) p @ le_bytes 4 (of_nat (length z)) @ z
    \<and> uncompressed z = Some (buf_bytes (tlb w tid))"
proof -
  define b where "b = tlb w tid"
  obtain k where k: "tb_buf b = Some k" "blk_len k = tb_capacity b" "tb_size b \<le> tb_capacity b"
    using assms(1) by (auto simp: live_def b_def elim: buf_okE)
  have fd: "0 \<le> tb_fd b" "is_file_open (w_os w) b" "fd_path (w_os w) (tb_fd b) = Some p"
    using live_open [OF assms(1)] assms(1) by (auto simp: b_def live_def)
  have r: "read_block (tb_buf b) (tb_size b) = Inr (buf_bytes b)" "length (buf_bytes b) = tb_size b"
    using k by (simp_all add: read_block_def buf_bytes_def)
  have "length (buf_bytes b) < 2 ^ 32" using assms(5) r(2) by (simp add: b_def snappy_max_compressed_length_def MaxCompressedLength_def)
  then obtain z where z: "compress_into (buf_bytes b) (Some (snappy_max_compressed_length (tb_size b))) (snappy_max_compressed_length (tb_size b)) = Inr (0, z)"
    "uncompressed z = Some (buf_bytes b)" "length z \<le> snappy_max_compressed_length (tb_size b)"
    using compress_into_ok [of "buf_bytes b"] r(2) by auto
  let ?w = "os_write (tb_fd b) z (os_write (tb_fd b) (le_bytes 4 (of_nat (length z))) w)"
  have "flush tid w = Inr (upd_tlb tid (\<lambda>b. b\<lparr>tb_size := 0\<rparr>) ?w)"
    using fd r(1) z(1) assms(3,4) by (simp add: flush_def write_file_def b_def [symmetric] Let_def)
  moreover have "file_bytes (w_os ?w) p = file_bytes (w_os w) p @ le_bytes 4 (of_nat (length z)) @ z"
    using assms(2) fd(3) by (simp add: os_write_file)
  ultimately show ?thesis using z(2,3) assms(5) unfolding b_def by (auto simp: upd_tlb_def)
qed

theorem flush_compressed_witness:
  "\<exists>w w' z. flush 0 w = Inr w' \<and> file_bytes (w_os w') ''t/0'' = [1, 2] @ le_bytes 4 (of_nat (length z)) @ z
    \<and> uncompressed z = Some (replicate 20 0)"
proof -
  let ?w = "(demo_world False [1, 2] 20 (demo_queue 0 0))\<lparr>w_ctx := (demo_ctx False)\<lparr>use_compression := True\<rparr>\<rparr>"
  have l: "live ?w 0 ''t/0''" using demo_live [of 20 False "[1, 2]" "demo_queue 0 0"] by (simp add: live_def)
  have "\<exists>w' z. flush 0 ?w = Inr w' \<and> tb_size (tlb w' 0) = 0 \<and> length z < 2 ^ 32
    \<and> file_bytes (w_os w') ''t/0'' = file_bytes (w_os ?w) ''t/0'' @ le_bytes 4 (of_nat (length z)) @ z
    \<and> uncompressed z = Some (buf_bytes (tlb ?w 0))"
    by (rule flush_compressed [OF l])
      (simp_all add: demo_ctx_def demo_buf_def demo_os_def full_writes_def snappy_max_compressed_length_def MaxCompressedLength_def)
  moreover have "buf_bytes (tlb ?w 0) = replicate 20 0" using demo_buf_bytes [of 20] by simp
  moreover have "file_bytes (w_os ?w) ''t/0'' = [1, 2]" by (simp add: demo_os_def file_bytes_def)
  ultimately show ?thesis by auto
qed

text \<open>
  C37. With compression on, the writer thread passes an \<^verbatim>\<open>outlen\<close> it never set: when that happens to be
  below the room the compressor asks for, the process dies on the first task, whatever the task is.
\<close>

theorem do_write_dies:
  assumes "use_compression (w_ctx w)" "task_ok t" "w_outlen w < snappy_max_compressed_length (wt_size t)"
  shows "do_write (wt_fd t) (wt_data t) (wt_size t) w = Inl DieCalled"
proof -
  obtain k where "wt_data t = Some k" "wt_size t \<le> blk_len k" using assms(2) by (auto simp: task_ok_def split: option.splits)
  then show ?thesis using assms(1,3) by (simp add: do_write_def read_block_def compress_into_small)
qed

theorem do_write_dies_witness:
  "do_write (wt_fd (demo_task 4)) (wt_data (demo_task 4)) (wt_size (demo_task 4))
     ((demo_world True [] 0 (demo_queue 1 4))\<lparr>w_ctx := (demo_ctx True)\<lparr>use_compression := True\<rparr>\<rparr>) = Inl DieCalled"
  by (rule do_write_dies)
    (simp_all add: demo_task_def task_ok_def demo_world_def snappy_max_compressed_length_def MaxCompressedLength_def)

end
