(* ===== verification/San_Sort.thy ===== *)
theory San_Sort
  imports Main "HOL-Library.Multiset"
begin

text \<open>
  The heap sort and the binary search of \<^verbatim>\<open>sanitizer_common.h\<close> (\<^verbatim>\<open>Sort\<close>, which
  \<^verbatim>\<open>InternalSort\<close> repeats for containers, and \<^verbatim>\<open>InternalLowerBound\<close>), for any comparison that
  is a strict weak order.
\<close>

section \<open>The algorithms\<close>

definition Swap :: "'a list \<Rightarrow> nat \<Rightarrow> nat \<Rightarrow> 'a list" where
  "Swap v i j = v[i := v ! j, j := v ! i]"

fun sift_up :: "('a \<Rightarrow> 'a \<Rightarrow> bool) \<Rightarrow> 'a list \<Rightarrow> nat \<Rightarrow> 'a list" where
  "sift_up cmp v j =
     (if j > 0 then
        (let p = (j - 1) div 2
         in if cmp (v ! p) (v ! j) then sift_up cmp (Swap v j p) p else v)
      else v)"

declare sift_up.simps [simp del]

definition max_child :: "('a \<Rightarrow> 'a \<Rightarrow> bool) \<Rightarrow> 'a list \<Rightarrow> nat \<Rightarrow> nat \<Rightarrow> nat" where
  "max_child cmp v i j =
     (let left = 2 * j + 1; right = 2 * j + 2;
          max_ind = (if left < i \<and> cmp (v ! j) (v ! left) then left else j);
          max_ind = (if right < i \<and> cmp (v ! max_ind) (v ! right) then right else max_ind)
      in max_ind)"

lemma max_child_cases:
  "max_child cmp v i j = j \<or>
   (max_child cmp v i j < i \<and> (max_child cmp v i j = 2 * j + 1 \<or> max_child cmp v i j = 2 * j + 2))"
  by (auto simp: max_child_def Let_def)

function sink :: "('a \<Rightarrow> 'a \<Rightarrow> bool) \<Rightarrow> 'a list \<Rightarrow> nat \<Rightarrow> nat \<Rightarrow> 'a list" where
  "sink cmp v i j =
     (if j < i \<and> max_child cmp v i j \<noteq> j
      then sink cmp (Swap v j (max_child cmp v i j)) i (max_child cmp v i j) else v)"
  by pat_completeness auto
termination
proof (relation "measure (\<lambda>(cmp, v, i, j). i - j)")
  show "((cmp, Swap v j (max_child cmp v i j), i, max_child cmp v i j), cmp, v, i, j)
      \<in> measure (\<lambda>(cmp, v, i, j). i - j)" if "j < i \<and> max_child cmp v i j \<noteq> j" for cmp v i j
    using that max_child_cases [of cmp v i j] by (simp, linarith)
qed simp

declare sink.simps [simp del]

fun heap_stage :: "('a \<Rightarrow> 'a \<Rightarrow> bool) \<Rightarrow> nat list \<Rightarrow> 'a list \<Rightarrow> 'a list" where
  "heap_stage cmp [] v = v"
| "heap_stage cmp (i # is) v = heap_stage cmp is (sift_up cmp v i)"

fun sort_stage :: "('a \<Rightarrow> 'a \<Rightarrow> bool) \<Rightarrow> nat \<Rightarrow> 'a list \<Rightarrow> 'a list" where
  "sort_stage cmp 0 v = v"
| "sort_stage cmp (Suc i) v = sort_stage cmp i (sink cmp (Swap v 0 (Suc i)) (Suc i) 0)"

definition Sort :: "('a \<Rightarrow> 'a \<Rightarrow> bool) \<Rightarrow> 'a list \<Rightarrow> 'a list" where
  "Sort cmp v =
     (if length v < 2 then v
      else sort_stage cmp (length v - 1) (heap_stage cmp [1..<length v] v))"

definition InternalSort :: "'a list \<Rightarrow> nat \<Rightarrow> ('a \<Rightarrow> 'a \<Rightarrow> bool) \<Rightarrow> 'a list" where
  "InternalSort v n cmp =
     (if n < 2 then v else sort_stage cmp (n - 1) (heap_stage cmp [1..<n] v))"

lemma InternalSort_eq: "InternalSort v (length v) cmp = Sort cmp v"
  by (simp add: InternalSort_def Sort_def)

function InternalLowerBound :: "('a \<Rightarrow> 'b \<Rightarrow> bool) \<Rightarrow> 'a list \<Rightarrow> nat \<Rightarrow> nat \<Rightarrow> 'b \<Rightarrow> nat" where
  "InternalLowerBound cmp v first_ix last_ix val =
     (if last_ix > first_ix then
        (let mid = (first_ix + last_ix) div 2
         in if cmp (v ! mid) val then InternalLowerBound cmp v (mid + 1) last_ix val
            else InternalLowerBound cmp v first_ix mid val)
      else first_ix)"
  by pat_completeness auto
termination by (relation "measure (\<lambda>(cmp, v, first_ix, last_ix, val). last_ix - first_ix)") auto

declare InternalLowerBound.simps [simp del]

section \<open>Permutation\<close>

lemma length_Swap [simp]: "length (Swap v i j) = length v"
  by (simp add: Swap_def)

lemma nth_Swap: "i < length v \<Longrightarrow> j < length v \<Longrightarrow> k < length v \<Longrightarrow>
   Swap v i j ! k = (if k = j then v ! i else if k = i then v ! j else v ! k)"
  by (auto simp: Swap_def nth_list_update)

lemma mset_Swap [simp]: "i < length v \<Longrightarrow> j < length v \<Longrightarrow> mset (Swap v i j) = mset v"
  by (simp add: Swap_def mset_swap)

lemma sift_up_mset: "j < length v \<Longrightarrow> mset (sift_up cmp v j) = mset v \<and> length (sift_up cmp v j) = length v"
proof (induction cmp v j rule: sift_up.induct)
  case (1 cmp v j)
  then show ?case by (subst (1 2) sift_up.simps) (auto simp: Let_def)
qed

lemma sink_mset: "i \<le> length v \<Longrightarrow> mset (sink cmp v i j) = mset v \<and> length (sink cmp v i j) = length v"
proof (induction cmp v i j rule: sink.induct)
  case (1 cmp v i j)
  then show ?case
    using max_child_cases [of cmp v i j] by (subst (1 2) sink.simps) auto
qed

lemma sink_other: "i \<le> k \<Longrightarrow> i \<le> length v \<Longrightarrow> k < length v \<Longrightarrow> sink cmp v i j ! k = v ! k"
proof (induction cmp v i j rule: sink.induct)
  case (1 cmp v i j)
  then show ?case
    using max_child_cases [of cmp v i j] by (subst sink.simps) (auto simp: nth_Swap)
qed

lemma sink_in:
  "a < i \<Longrightarrow> i \<le> length v \<Longrightarrow> \<exists>a'<i. sink cmp v i j ! a = v ! a'"
proof (induction cmp v i j rule: sink.induct)
  case (1 cmp v i j)
  show ?case
  proof (cases "j < i \<and> max_child cmp v i j \<noteq> j")
    case True
    let ?m = "max_child cmp v i j"
    have m: "?m < i" using True max_child_cases [of cmp v i j] by auto
    obtain a' where a': "a' < i" "sink cmp (Swap v j ?m) i ?m ! a = Swap v j ?m ! a'"
      using 1 True by auto
    have "Swap v j ?m ! a' = v ! (if a' = ?m then j else if a' = j then ?m else a')"
      using a' m True 1(3) by (auto simp: nth_Swap)
    moreover have "(if a' = ?m then j else if a' = j then ?m else a') < i" using a' m True by simp
    ultimately show ?thesis using a'(2) True by (subst sink.simps) auto
  qed (use 1 in \<open>subst sink.simps, auto\<close>)
qed

section \<open>Correctness for a strict weak order\<close>

text \<open>A heap on the first \<open>n\<close> places, possibly broken above (or below) the place \<open>j\<close>.\<close>

definition heap_upto :: "('a \<Rightarrow> 'a \<Rightarrow> bool) \<Rightarrow> nat \<Rightarrow> 'a list \<Rightarrow> bool" where
  "heap_upto cmp n v \<longleftrightarrow> (\<forall>k. 0 < k \<and> k < n \<longrightarrow> \<not> cmp (v ! ((k - 1) div 2)) (v ! k))"

definition broken_up :: "('a \<Rightarrow> 'a \<Rightarrow> bool) \<Rightarrow> nat \<Rightarrow> 'a list \<Rightarrow> nat \<Rightarrow> bool" where
  "broken_up cmp n v j \<longleftrightarrow>
     (\<forall>k. 0 < k \<and> k < n \<and> k \<noteq> j \<longrightarrow> \<not> cmp (v ! ((k - 1) div 2)) (v ! k)) \<and>
     (\<forall>k. 0 < k \<and> k < n \<and> (k - 1) div 2 = j \<and> 0 < j \<longrightarrow> \<not> cmp (v ! ((j - 1) div 2)) (v ! k))"

definition broken_down :: "('a \<Rightarrow> 'a \<Rightarrow> bool) \<Rightarrow> nat \<Rightarrow> 'a list \<Rightarrow> nat \<Rightarrow> bool" where
  "broken_down cmp n v j \<longleftrightarrow>
     (\<forall>k. 0 < k \<and> k < n \<and> (k - 1) div 2 \<noteq> j \<longrightarrow> \<not> cmp (v ! ((k - 1) div 2)) (v ! k)) \<and>
     (\<forall>k. 0 < k \<and> k < n \<and> (k - 1) div 2 = j \<and> 0 < j \<longrightarrow> \<not> cmp (v ! ((j - 1) div 2)) (v ! k))"

definition tail_ok :: "('a \<Rightarrow> 'a \<Rightarrow> bool) \<Rightarrow> nat \<Rightarrow> 'a list \<Rightarrow> bool" where
  "tail_ok cmp i v \<longleftrightarrow> (\<forall>a b. a < b \<and> b < length v \<and> i < b \<longrightarrow> \<not> cmp (v ! b) (v ! a))"

locale weak_order =
  fixes cmp :: "'a \<Rightarrow> 'a \<Rightarrow> bool"
  assumes asym: "cmp a b \<Longrightarrow> \<not> cmp b a"
    and neg_trans: "\<not> cmp a b \<Longrightarrow> \<not> cmp b c \<Longrightarrow> \<not> cmp a c"
begin

lemma irrefl: "\<not> cmp a a"
  using asym by blast

lemma sift_up_heap:
  "broken_up cmp n v j \<Longrightarrow> j < n \<Longrightarrow> n \<le> length v \<Longrightarrow> heap_upto cmp n (sift_up cmp v j)"
proof (induction j arbitrary: v rule: less_induct)
  case (less j)
  define p where "p = (j - 1) div 2"
  show ?case
  proof (cases "0 < j \<and> cmp (v ! p) (v ! j)")
    case False
    then have "sift_up cmp v j = v" by (subst sift_up.simps) (auto simp: p_def)
    moreover have "heap_upto cmp n v"
      using False less.prems(1) unfolding heap_upto_def broken_up_def p_def by blast
    ultimately show ?thesis by simp
  next
    case True
    have lt: "p < j" using True by (simp add: p_def) linarith
    have nth: "Swap v j p ! k = (if k = p then v ! j else if k = j then v ! p else v ! k)" if "k < n" for k
      using that less.prems lt by (simp add: nth_Swap)
    have b1: "\<not> cmp (v ! ((k - 1) div 2)) (v ! k)" if "0 < k" "k < n" "k \<noteq> j" for k
      using less.prems(1) that unfolding broken_up_def by blast
    have b2: "\<not> cmp (v ! p) (v ! k)" if "0 < k" "k < n" "(k - 1) div 2 = j" for k
      using less.prems(1) True that unfolding broken_up_def p_def by blast
    have up: "\<not> cmp (v ! j) (v ! k)" if "\<not> cmp (v ! p) (v ! k)" for k
      using True that asym neg_trans by blast
    have "broken_up cmp n (Swap v j p) p"
      unfolding broken_up_def
    proof (intro conjI allI impI)
      fix k assume k: "0 < k \<and> k < n \<and> k \<noteq> p"
      have "(k - 1) div 2 < n" using k by linarith
      moreover have "\<not> cmp (v ! j) (v ! k)" if "k \<noteq> j" "(k - 1) div 2 = p"
        using b1 [of k] k that up by simp
      moreover have "\<not> cmp (v ! j) (v ! p)" using True asym by blast
      moreover have "(j - 1) div 2 = p" by (simp add: p_def)
      ultimately show "\<not> cmp (Swap v j p ! ((k - 1) div 2)) (Swap v j p ! k)"
        using k lt less.prems(2) b1 [of k] b2 [of k] by (auto simp: nth)
    next
      fix k assume k: "0 < k \<and> k < n \<and> (k - 1) div 2 = p \<and> 0 < p"
      define g where "g = (p - 1) div 2"
      have g: "g < p" "g < n" "p < n" "k \<noteq> p" using k lt less.prems(2) unfolding g_def by linarith+
      have gp: "\<not> cmp (v ! g) (v ! p)" using b1 [of p] k g lt by (simp add: g_def)
      then have "\<not> cmp (v ! g) (v ! k)" if "k \<noteq> j" using b1 [of k] k that neg_trans by metis
      then show "\<not> cmp (Swap v j p ! ((p - 1) div 2)) (Swap v j p ! k)"
        unfolding g_def [symmetric] using gp g lt k by (simp add: nth)
    qed
    moreover have "sift_up cmp v j = sift_up cmp (Swap v j p) p"
      using True by (subst sift_up.simps) (simp add: Let_def p_def)
    ultimately show ?thesis
      using less.IH [OF lt] less.prems lt by simp
  qed
qed

lemma cmp_trans: "cmp a b \<Longrightarrow> cmp b c \<Longrightarrow> cmp a c"
  using asym neg_trans by blast

lemma child_iff: "0 < k \<Longrightarrow> (k - 1) div 2 = j \<longleftrightarrow> k = 2 * j + 1 \<or> k = 2 * j + 2" for k j :: nat
  by presburger

lemma max_child_less: "max_child cmp v n j \<noteq> j \<Longrightarrow> cmp (v ! j) (v ! max_child cmp v n j)"
  using cmp_trans [of "v ! j" "v ! (2 * j + 1)" "v ! (2 * j + 2)"] by (auto simp: max_child_def Let_def)

lemma max_child_max:
  assumes "0 < k" "k < n" "(k - 1) div 2 = j"
  shows "\<not> cmp (v ! max_child cmp v n j) (v ! k)"
proof -
  let ?l = "2 * j + 1" and ?r = "2 * j + 2"
  have rl: "\<not> cmp (v ! ?r) (v ! ?l)" if "cmp (v ! j) (v ! ?r)" "\<not> cmp (v ! j) (v ! ?l)"
    using that asym neg_trans by blast
  have lr: "\<not> cmp (v ! ?r) (v ! ?l)" if "cmp (v ! ?l) (v ! ?r)"
    using that asym by blast
  consider "k = ?l" | "k = ?r" using assms(1,3) child_iff by blast
  then show ?thesis
    by cases (use assms(2) irrefl rl lr in \<open>auto simp: max_child_def Let_def\<close>)
qed

lemma sink_heap:
  "broken_down cmp n v j \<Longrightarrow> j < n \<Longrightarrow> n \<le> length v \<Longrightarrow> heap_upto cmp n (sink cmp v n j)"
proof (induction "n - j" arbitrary: v j rule: less_induct)
  case less
  define m where "m = max_child cmp v n j"
  have d1: "\<not> cmp (v ! ((k - 1) div 2)) (v ! k)" if "0 < k" "k < n" "(k - 1) div 2 \<noteq> j" for k
    using less.prems(1) that unfolding broken_down_def by blast
  show ?case
  proof (cases "m = j")
    case True
    then have "heap_upto cmp n v"
      using d1 max_child_max [of _ n j v] unfolding heap_upto_def m_def [symmetric] by auto
    then show ?thesis using True by (subst sink.simps) (simp add: m_def)
  next
    case False
    have m: "m < n" "m = 2 * j + 1 \<or> m = 2 * j + 2" "j < m"
      using False max_child_cases [of cmp v n j] by (auto simp: m_def)
    have pm: "(m - 1) div 2 = j" using m(2) by auto
    have nth: "Swap v j m ! k = (if k = m then v ! j else if k = j then v ! m else v ! k)" if "k < n" for k
      using that less.prems m by (simp add: nth_Swap)
    have mx: "\<not> cmp (v ! m) (v ! k)" if "0 < k" "k < n" "(k - 1) div 2 = j" for k
      using max_child_max that by (simp add: m_def)
    have jm: "\<not> cmp (v ! m) (v ! j)" using max_child_less False asym by (simp add: m_def)
    have up: "\<not> cmp (v ! ((j - 1) div 2)) (v ! m)" if "0 < j"
      using less.prems(1) that m pm unfolding broken_down_def by auto
    have "broken_down cmp n (Swap v j m) m"
      unfolding broken_down_def
    proof (intro conjI allI impI)
      fix k assume k: "0 < k \<and> k < n \<and> (k - 1) div 2 \<noteq> m"
      have kp: "(k - 1) div 2 < n" using k by linarith
      have "k \<noteq> j" if "(k - 1) div 2 = j" using k that by linarith
      then show "\<not> cmp (Swap v j m ! ((k - 1) div 2)) (Swap v j m ! k)"
        using k kp mx [of k] jm up d1 [of k] pm by (auto simp: nth)
    next
      fix k assume k: "0 < k \<and> k < n \<and> (k - 1) div 2 = m \<and> 0 < m"
      have "k \<noteq> j" "k \<noteq> m" using k m by linarith+
      then show "\<not> cmp (Swap v j m ! ((m - 1) div 2)) (Swap v j m ! k)"
        using k m pm d1 [of k] less.prems(2) by (auto simp: nth)
    qed
    moreover have "sink cmp v n j = sink cmp (Swap v j m) n m"
      using False less.prems(2) by (subst sink.simps) (simp add: m_def)
    ultimately show ?thesis
      using less.hyps [of m "Swap v j m"] m less.prems by simp
  qed
qed

lemma heap_root: "heap_upto cmp n v \<Longrightarrow> k < n \<Longrightarrow> \<not> cmp (v ! 0) (v ! k)"
proof (induction k rule: less_induct)
  case (less k)
  show ?case
  proof (cases "k = 0")
    case False
    then have "(k - 1) div 2 < k" by linarith
    then have "\<not> cmp (v ! 0) (v ! ((k - 1) div 2))" using less by simp
    moreover have "\<not> cmp (v ! ((k - 1) div 2)) (v ! k)"
      using less.prems False unfolding heap_upto_def by blast
    ultimately show ?thesis using neg_trans by blast
  qed (simp add: irrefl)
qed

lemma heap_stage_heap:
  "heap_upto cmp i v \<Longrightarrow> i \<le> n \<Longrightarrow> n \<le> length v \<Longrightarrow>
   heap_upto cmp n (heap_stage cmp [i..<n] v) \<and> mset (heap_stage cmp [i..<n] v) = mset v"
proof (induction "n - i" arbitrary: i v)
  case (Suc d)
  then have up: "[i..<n] = i # [Suc i..<n]" by (simp add: upt_conv_Cons)
  have "broken_up cmp (Suc i) v i"
    using Suc.prems(1) unfolding heap_upto_def broken_up_def by (auto simp: less_Suc_eq)
  then have "heap_upto cmp (Suc i) (sift_up cmp v i)"
    using sift_up_heap Suc by simp
  then show ?case
    using Suc.hyps(1) [of "Suc i" "sift_up cmp v i"] Suc.hyps(2) Suc.prems sift_up_mset [of i v cmp] up by simp
qed simp

text \<open>Everything from place \<open>i + 1\<close> on is in its final position.\<close>

lemma sort_step:
  assumes "heap_upto cmp (Suc (Suc i)) v" "Suc i < length v" "tail_ok cmp (Suc i) v"
  defines "v' \<equiv> sink cmp (Swap v 0 (Suc i)) (Suc i) 0"
  shows "heap_upto cmp (Suc i) v'" "tail_ok cmp i v'" "mset v' = mset v"
proof -
  let ?s = "Swap v 0 (Suc i)"
  have nth: "?s ! k = (if k = Suc i then v ! 0 else if k = 0 then v ! Suc i else v ! k)" if "k < length v" for k
    using that assms(2) by (subst nth_Swap) auto
  have "broken_down cmp (Suc i) ?s 0"
    unfolding broken_down_def
  proof (intro conjI allI impI)
    fix k assume k: "0 < k \<and> k < Suc i \<and> (k - 1) div 2 \<noteq> 0"
    have "\<not> cmp (v ! ((k - 1) div 2)) (v ! k)" using assms(1) k unfolding heap_upto_def by auto
    moreover have "(k - 1) div 2 < k" using k by linarith
    ultimately show "\<not> cmp (?s ! ((k - 1) div 2)) (?s ! k)" using k assms(2) by (simp add: nth)
  qed simp
  then show "heap_upto cmp (Suc i) v'" unfolding v'_def using sink_heap assms(2) by simp
  have pos: "v \<noteq> []" using assms(2) by auto
  have "mset ?s = mset v" using assms(2) by (intro mset_Swap) linarith+
  then show m: "mset v' = mset v" unfolding v'_def using sink_mset [of "Suc i" ?s cmp 0] assms(2) by simp
  have len: "length v' = length v" using m by (metis size_mset)
  show "tail_ok cmp i v'"
    unfolding tail_ok_def
  proof (intro allI impI)
    fix a b assume ab: "a < b \<and> b < length v' \<and> i < b"
    have vb: "v' ! b = ?s ! b" unfolding v'_def using sink_other [of "Suc i" b ?s cmp 0] ab len assms(2) by simp
    obtain a' where a': "v' ! a = v ! a'" "a' \<le> b" "b = Suc i \<or> a' < b"
    proof (cases "a < Suc i")
      case True
      then obtain c where "c < Suc i" "v' ! a = ?s ! c"
        unfolding v'_def using sink_in [of a "Suc i" ?s cmp 0] assms(2) by auto
      then show ?thesis
        using that [of "Suc i"] that [of c] assms(2) pos ab by (cases "c = 0"; cases "b = Suc i") (auto simp: nth)
    next
      case False
      then have "v' ! a = v ! (if a = Suc i then 0 else a)"
        unfolding v'_def using sink_other [of "Suc i" a ?s cmp 0] ab len assms(2) by (simp add: nth)
      then show ?thesis using that [of "if a = Suc i then 0 else a"] ab by auto
    qed
    show "\<not> cmp (v' ! b) (v' ! a)"
    proof (cases "b = Suc i")
      case True
      then show ?thesis
        using vb a' heap_root [OF assms(1), of a'] assms(2) by (simp add: nth)
    next
      case False
      then show ?thesis
        using vb a' ab len assms(2,3) by (auto simp: nth tail_ok_def)
    qed
  qed
qed

lemma sort_stage_sorted:
  "heap_upto cmp (Suc i) v \<Longrightarrow> i < length v \<Longrightarrow> tail_ok cmp i v \<Longrightarrow>
   tail_ok cmp 0 (sort_stage cmp i v) \<and> mset (sort_stage cmp i v) = mset v"
proof (induction i arbitrary: v)
  case (Suc i)
  let ?v = "sink cmp (Swap v 0 (Suc i)) (Suc i) 0"
  have "length ?v = length v" using sort_step(3) [OF Suc.prems] by (metis size_mset)
  then show ?case using Suc.IH [of ?v] sort_step [OF Suc.prems] Suc.prems(2) by simp
qed simp

lemma Sort_sorts: "sorted_wrt (\<lambda>a b. \<not> cmp b a) (Sort cmp v) \<and> mset (Sort cmp v) = mset v"
proof (cases "length v < 2")
  case True
  then show ?thesis by (cases v rule: list.exhaust [case_product list.exhaust]) (auto simp: Sort_def split: list.splits)
next
  case False
  let ?h = "heap_stage cmp [1..<length v] v"
  have h: "heap_upto cmp (length v) ?h" "mset ?h = mset v"
    using heap_stage_heap [of 1 v "length v"] False by (auto simp: heap_upto_def)
  have len: "length ?h = length v" using h(2) by (metis size_mset)
  have "tail_ok cmp (length v - 1) ?h" using len by (auto simp: tail_ok_def)
  moreover have "Suc (length v - 1) = length v" using False by linarith
  ultimately have "tail_ok cmp 0 (Sort cmp v)" "mset (Sort cmp v) = mset v"
    using sort_stage_sorted [of "length v - 1" ?h] h len False unfolding Sort_def by simp_all
  then show ?thesis by (auto simp: tail_ok_def sorted_wrt_iff_nth_less)
qed

end

section \<open>Binary search\<close>

lemma lower_bound_range:
  "f \<le> l \<Longrightarrow> f \<le> InternalLowerBound cmp v f l x \<and> InternalLowerBound cmp v f l x \<le> l"
proof (induction cmp v f l x rule: InternalLowerBound.induct)
  case (1 cmp v f l x)
  let ?m = "(f + l) div 2"
  show ?case
  proof (cases "f < l")
    case True
    have m: "f \<le> ?m" "?m < l" using True by linarith+
    show ?thesis
      using 1(1) [OF True refl] 1(2) [OF True refl] m True
      by (subst (1 2) InternalLowerBound.simps) (auto simp: Let_def)
  qed (use 1 in \<open>subst (1 2) InternalLowerBound.simps, auto\<close>)
qed

lemma lower_bound_split:
  assumes "\<forall>i j. i \<le> j \<and> j < length v \<and> cmp (v ! j) x \<longrightarrow> cmp (v ! i) x"
  shows "f \<le> l \<Longrightarrow> l \<le> length v \<Longrightarrow>
     (\<forall>i. f \<le> i \<and> i < InternalLowerBound cmp v f l x \<longrightarrow> cmp (v ! i) x) \<and>
     (\<forall>i. InternalLowerBound cmp v f l x \<le> i \<and> i < l \<longrightarrow> \<not> cmp (v ! i) x)"
  using assms
proof (induction cmp v f l x rule: InternalLowerBound.induct)
  case (1 cmp v f l x)
  let ?m = "(f + l) div 2"
  show ?case
  proof (cases "f < l")
    case True
    have m: "f \<le> ?m" "?m < l" using True by linarith+
    show ?thesis
    proof (cases "cmp (v ! ?m) x")
      case True
      then have "InternalLowerBound cmp v f l x = InternalLowerBound cmp v (?m + 1) l x"
        using \<open>f < l\<close> by (subst InternalLowerBound.simps) (simp add: Let_def)
      moreover have "cmp (v ! i) x" if "i < ?m + 1" for i
      proof -
        have "i \<le> ?m" "?m < length v" using that m 1(4) by simp_all
        then show ?thesis using 1(5) True by blast
      qed
      moreover have "?m + 1 \<le> l" using m by simp
      ultimately show ?thesis
        using 1(1) [OF \<open>f < l\<close> refl True \<open>?m + 1 \<le> l\<close> 1(4,5)] by (simp only:) (meson not_le_imp_less)
    next
      case False
      then have "InternalLowerBound cmp v f l x = InternalLowerBound cmp v f ?m x"
        using \<open>f < l\<close> by (subst InternalLowerBound.simps) (simp add: Let_def)
      moreover have "\<not> cmp (v ! i) x" if "?m \<le> i" "i < l" for i
        using 1(5) that False 1(4) by (meson less_le_trans)
      moreover have "?m \<le> length v" using m 1(4) by simp
      ultimately show ?thesis
        using 1(2) [OF \<open>f < l\<close> refl False m(1) \<open>?m \<le> length v\<close> 1(5)] by (simp only:) (meson not_le_imp_less)
    qed
  next
    case False
    then have "InternalLowerBound cmp v f l x = f" by (subst InternalLowerBound.simps) simp
    with False show ?thesis by auto
  qed
qed

section \<open>Properties\<close>

text \<open>
  C32. The heap sort \<^verbatim>\<open>Sort\<close> returns a permutation of its input in which no element compares
  less than an earlier one, for every comparison that is a strict weak order, and
  \<^verbatim>\<open>InternalSort\<close> on a whole container returns the same.
\<close>

theorem sort_correct:
  assumes "weak_order cmp"
  shows "sorted_wrt (\<lambda>a b. \<not> cmp b a) (Sort cmp v) \<and> mset (Sort cmp v) = mset v
    \<and> InternalSort v (length v) cmp = Sort cmp v"
  using weak_order.Sort_sorts [OF assms, of v] by (simp add: InternalSort_eq)

theorem sort_correct_witness:
  "sorted_wrt (\<lambda>a b. \<not> b < a) (Sort (<) [3, 1, 2, 1 :: nat]) \<and> mset (Sort (<) [3, 1, 2, 1 :: nat]) = mset [3, 1, 2, 1]"
proof -
  have "weak_order ((<) :: nat \<Rightarrow> nat \<Rightarrow> bool)" by unfold_locales auto
  from sort_correct [OF this, of "[3, 1, 2, 1]"] show ?thesis by blast
qed

text \<open>
  \<^verbatim>\<open>InternalLowerBound\<close> on a range that is partitioned by \<^verbatim>\<open>comp(_, val)\<close> returns the partition point:
  everything before it compares less than the value, nothing from it on does, and the result
  stays within the bounds.
\<close>

theorem lower_bound_correct:
  assumes "f \<le> l" "l \<le> length v" "\<forall>i j. i \<le> j \<and> j < length v \<and> cmp (v ! j) x \<longrightarrow> cmp (v ! i) x"
  shows "f \<le> InternalLowerBound cmp v f l x \<and> InternalLowerBound cmp v f l x \<le> l
    \<and> (\<forall>i. f \<le> i \<and> i < l \<longrightarrow> cmp (v ! i) x = (i < InternalLowerBound cmp v f l x))"
  using lower_bound_range [OF assms(1), of cmp v x] lower_bound_split [where cmp = cmp and x = x, OF assms(3,1,2)] by (meson not_less)

theorem lower_bound_correct_witness:
  "InternalLowerBound (<) [1, 3, 3, 7 :: nat] 0 4 3 = 1"
proof -
  let ?v = "[1, 3, 3, 7 :: nat]"
  have s: "\<forall>i j. i \<le> j \<and> j < length ?v \<and> ?v ! j < 3 \<longrightarrow> ?v ! i < 3" by (auto simp: less_Suc_eq nth_Cons')
  define r where "r = InternalLowerBound (<) ?v 0 4 3"
  have r: "0 \<le> r \<and> r \<le> 4 \<and> (\<forall>i. 0 \<le> i \<and> i < 4 \<longrightarrow> (?v ! i < 3) = (i < r))"
    unfolding r_def by (rule lower_bound_correct [of 0 4 ?v "(<)" 3]) (use s in simp_all)
  have "(?v ! 0 < 3) = (0 < r)" "(?v ! 1 < 3) = (1 < r)" using r [THEN conjunct2, THEN conjunct2, rule_format, of 0] r [THEN conjunct2, THEN conjunct2, rule_format, of 1] by simp_all
  then have "r = 1" by simp
  then show ?thesis by (simp only: r_def)
qed

end
