(* ===== verification/Ufo_Modules.thy ===== *)
theory Ufo_Modules
  imports Ufo_Demo San_Sort
begin

text \<open>
  \<^verbatim>\<open>UFOContext::save_module_info\<close> (\<^verbatim>\<open>ufo.cc\<close>): the list of loaded modules, sorted by base
  address, is written next to the traces whenever the number of modules has changed.
\<close>

definition CompareBaseAddressJEFF :: "LoadedModule \<Rightarrow> LoadedModule \<Rightarrow> bool" where
  "CompareBaseAddressJEFF a b \<longleftrightarrow> base_address a < base_address b"

interpretation modules: weak_order CompareBaseAddressJEFF
  by unfold_locales (auto simp: CompareBaseAddressJEFF_def)

definition NAME_MODULE_INFO :: string where "NAME_MODULE_INFO = ''/_module_info.txt''"

text \<open>
  \<^verbatim>\<open>internal_strncpy(path, dir, 200); internal_strncat(path, name, 50)\<close> on an uninitialised
  \<^verbatim>\<open>char path[DIR_MAX_LEN]\<close>.
\<close>

definition make_path :: "string \<Rightarrow> string \<Rightarrow> string \<Rightarrow> string res" where
  "make_path junk dir name =
     rbind (internal_strncpy junk dir 200) (\<lambda>path.
     rbind (internal_strncat path (name @ [NUL]) 50) (\<lambda>path. Inr (cstr path)))"

definition hex_text :: "u64 \<Rightarrow> string" where
  "hex_text w = number_text (unat w) 16 0 False False False"

definition module_row :: "LoadedModule \<Rightarrow> string" where
  "module_row m = full_name m @ ''|'' @ hex_text (base_address m) @ ''|'' @
     hex_text (max_executable_address m) @ ''|'' @ CRLF"

definition save_module_info :: "world \<Rightarrow> world res" where
  "save_module_info w =
     (let mods = Sort CompareBaseAddressJEFF (os_modules (w_os w));
          cur_len = (of_nat (length mods) :: u32)
      in if mudule_length (w_ctx w) = cur_len then Inr w
         else
           (let w = w\<lparr>w_ctx := (w_ctx w)\<lparr>mudule_length := cur_len\<rparr>\<rparr>
            in rbind (make_path (w_path_junk w) (trace_dir (w_ctx w)) NAME_MODULE_INFO) (\<lambda>path.
                 (let (ok, s) = sys_fopen_w path (w_os w)
                  in if \<not> ok then Inl NullDeref
                     else Inr (w\<lparr>w_os := sys_fprintf path (concat (map module_row mods)) s\<rparr>)))))"

section \<open>Paths\<close>

lemma make_path_eq:
  assumes "length junk = 255" "terminated dir" "length (cstr dir) < 200" "length name \<le> 50" "NUL \<notin> set name"
  shows "make_path junk dir name = Inr (cstr dir @ name)"
proof -
  let ?d = "cstr dir"
  let ?p = "?d @ replicate (200 - length ?d) NUL @ drop 200 junk"
  have cpy: "internal_strncpy junk dir 200 = Inr ?p"
    using assms by (simp add: strncpy_eq)
  have rep: "replicate (200 - length ?d) NUL = NUL # replicate (199 - length ?d) NUL"
    using assms(3) by (cases "200 - length ?d") (auto simp: Suc_diff_Suc)
  have c: "cstr ?p = ?d" "terminated ?p" by (simp_all add: rep)
  have n: "cstr (name @ [NUL]) = name" "terminated (name @ [NUL])" using assms(5) by simp_all
  have "internal_strncat ?p (name @ [NUL]) 50 = Inr (?d @ name @ NUL # drop (Suc (length ?d + length name)) ?p)"
    using strncat_eq [of ?p "name @ [NUL]" 50] c n assms by (simp add: min_absorb2)
  then show ?thesis
    using cpy assms(5) by (simp add: make_path_def)
qed

text \<open>
  A trace directory of 200 characters or more leaves the copy without a terminating zero;
  the append then starts wherever the uninitialised rest of the array has one, if at all.
\<close>

lemma make_path_unterminated:
  assumes "length junk = 255" "200 \<le> length (cstr dir)" "NUL \<notin> set (drop 200 junk)"
  shows "make_path junk dir name = Inl ObjectOverread"
proof -
  have "terminated dir \<or> 200 \<le> length dir" using assms(2) length_cstr_le [of dir] by linarith
  then have "internal_strncpy junk dir 200 = Inr (take 200 (cstr dir) @ drop 200 junk)"
    using assms by (simp add: strncpy_eq)
  moreover have "\<not> terminated (take 200 (cstr dir) @ drop 200 junk)"
    using assms(3) NUL_cstr [of dir] by (auto simp: terminated_def dest: in_set_takeD)
  ultimately show ?thesis
    by (simp add: make_path_def internal_strncat_def strlen_eq)
qed

section \<open>Properties\<close>

text \<open>
  C23. \<^verbatim>\<open>save_module_info\<close> with a trace directory shorter than 200 characters and an openable file
  writes one row per loaded module, in an order sorted by base address and with exactly the
  loaded modules as its elements, whenever their number differs from the one last saved; it
  does nothing otherwise.
\<close>

theorem save_module_info_sorted:
  assumes "length (w_path_junk w) = 255" "terminated (trace_dir (w_ctx w))" "length (cstr (trace_dir (w_ctx w))) < 200"
    and "os_open_err (w_os w) (cstr (trace_dir (w_ctx w)) @ NAME_MODULE_INFO) = 0"
  shows "\<exists>w' mods. save_module_info w = Inr w' \<and> mset mods = mset (os_modules (w_os w))
    \<and> sorted (map base_address mods)
    \<and> (if mudule_length (w_ctx w) = of_nat (length (os_modules (w_os w))) then w' = w
       else file_bytes (w_os w') (cstr (trace_dir (w_ctx w)) @ NAME_MODULE_INFO) = text_bytes (concat (map module_row mods))
         \<and> mudule_length (w_ctx w') = of_nat (length mods))"
proof -
  let ?mods = "Sort CompareBaseAddressJEFF (os_modules (w_os w))"
  have m: "mset ?mods = mset (os_modules (w_os w))" using modules.Sort_sorts by blast
  then have len: "length ?mods = length (os_modules (w_os w))" by (rule mset_eq_length)
  have "sorted_wrt (\<lambda>a b. base_address a \<le> base_address b) ?mods"
    using modules.Sort_sorts [of "os_modules (w_os w)"] by (simp add: CompareBaseAddressJEFF_def not_less)
  then have s: "sorted (map base_address ?mods)" by (simp add: sorted_map)
  have "make_path (w_path_junk w) (trace_dir (w_ctx w)) NAME_MODULE_INFO = Inr (cstr (trace_dir (w_ctx w)) @ NAME_MODULE_INFO)"
    using assms(1-3) by (intro make_path_eq) (simp_all add: NAME_MODULE_INFO_def)
  note path = this
  show ?thesis
  proof (cases "mudule_length (w_ctx w) = of_nat (length (os_modules (w_os w)))")
    case True
    then have "save_module_info w = Inr w" using len by (simp add: save_module_info_def)
    with True m s show ?thesis by auto
  next
    case False
    let ?p = "cstr (trace_dir (w_ctx w)) @ NAME_MODULE_INFO"
    let ?w = "w\<lparr>w_ctx := (w_ctx w)\<lparr>mudule_length := of_nat (length ?mods)\<rparr>,
      w_os := (w_os w)\<lparr>os_files := (os_files (w_os w))(?p := Some (text_bytes (concat (map module_row ?mods))))\<rparr>\<rparr>"
    have "save_module_info w = Inr ?w"
      using False len path assms(4)
      by (simp add: save_module_info_def Let_def sys_fopen_w_def sys_fprintf_def file_bytes_def)
    with False m s show ?thesis by (auto simp: file_bytes_def)
  qed
qed

definition demo_modules :: "LoadedModule list" where
  "demo_modules = [\<lparr>full_name = ''b'', base_address = 9, max_executable_address = 10\<rparr>,
                   \<lparr>full_name = ''a'', base_address = 4, max_executable_address = 5\<rparr>]"

definition demo_module_world :: world where
  "demo_module_world = (demo_world False [] 0 (demo_queue 0 0))\<lparr>w_os := (demo_os [])\<lparr>os_modules := demo_modules\<rparr>\<rparr>"

theorem save_module_info_sorted_witness:
  "\<exists>w' mods. save_module_info demo_module_world = Inr w' \<and> mset mods = mset demo_modules
    \<and> sorted (map base_address mods)
    \<and> file_bytes (w_os w') ''t/_module_info.txt'' = text_bytes (concat (map module_row mods))"
proof -
  let ?w = demo_module_world
  have f: "w_path_junk ?w = replicate 255 NUL" "w_ctx ?w = demo_ctx False" "os_modules (w_os ?w) = demo_modules"
    "os_open_err (w_os ?w) p = 0" for p
    by (simp_all add: demo_module_world_def demo_world_def demo_os_def)
  have "mudule_length (demo_ctx False) = 0" "length demo_modules = 2" by (simp_all add: demo_ctx_def demo_modules_def)
  then show ?thesis
    using save_module_info_sorted [of ?w] by (simp add: f NAME_MODULE_INFO_def) blast
qed

text \<open>
  With a trace directory of 200 characters or more the path buffer of the module and
  statistics files is left without a terminator: unless the uninitialised rest of the array
  happens to contain a zero, the append reads past the end of the array.
\<close>

theorem long_dir_path_overread:
  assumes "length junk = 255" "200 \<le> length (cstr dir)" "NUL \<notin> set (drop 200 junk)"
  shows "make_path junk dir name = Inl ObjectOverread"
  using assms by (rule make_path_unterminated)

theorem long_dir_path_overread_witness:
  "make_path (replicate 255 (CHR ''x'')) (replicate 210 (CHR ''d'') @ [NUL]) NAME_MODULE_INFO = Inl ObjectOverread"
  by (rule long_dir_path_overread) simp_all

end
