(* ===== verification/Ufo_Rtl.thy ===== *)
theory Ufo_Rtl
  imports Ufo_TLBuffer Ufo_Modules
begin

text \<open>
  The event handlers (\<^verbatim>\<open>rtl_impl.h\<close>, \<^verbatim>\<open>impl_mem_acc.h\<close>): one function per \<^verbatim>\<open>impl_\<close> and
  \<^verbatim>\<open>ns_\<close> function, on the world. A handler runs on the thread whose buffer it writes (thread
  creation runs on the parent and also fills the buffer of the child, which is not yet
  running), so it is one transition; \<open>Inl MustWait\<close> says that the output queue is full and
  the thread blocks in \<^verbatim>\<open>push\<close>.
\<close>

section \<open>Reading back stored bytes\<close>

definition peek :: "TLBuffer \<Rightarrow> nat \<Rightarrow> byte res" where
  "peek b i =
     (case tb_buf b of None \<Rightarrow> Inl NullDeref
      | Some k \<Rightarrow> if i < blk_len k then Inr (blk_mem k i) else Inl ObjectOverread)"

definition peek_word :: "TLBuffer \<Rightarrow> nat \<Rightarrow> nat \<Rightarrow> u64 res" where
  "peek_word b i n =
     (case tb_buf b of None \<Rightarrow> Inl NullDeref
      | Some k \<Rightarrow> if i + n \<le> blk_len k then Inr (le_word (map (blk_mem k) [i..<i + n])) else Inl ObjectOverread)"

definition drop_last :: "nat \<Rightarrow> nat \<Rightarrow> world \<Rightarrow> world" where
  "drop_last tid n w = upd_tlb tid (\<lambda>b. b\<lparr>tb_size := tb_size b - n\<rparr>) w"

section \<open>Locks and condition variables\<close>

definition reset_read :: "nat \<Rightarrow> u64 \<Rightarrow> world \<Rightarrow> world res" where
  "reset_read tid mtx_id w =
     (let b = tlb w tid; esz = 14
      in if tb_size b \<ge> esz then
           rbind (peek b (tb_size b - esz)) (\<lambda>ty.
             if ty = 8 then
               rbind (peek_word b (tb_size b - esz + 6) 8) (\<lambda>addr.
                 if addr AND 0x0000ffffffffffff = mtx_id
                 then bump tid (\<lambda>s. s\<lparr>c_read := (c_read s)(0 := c_read s 0 - 1)\<rparr>) (drop_last tid esz w)
                 else Inr w)
             else Inr w)
         else Inr w)"

definition impl_mtx_lock :: "nat \<Rightarrow> u64 \<Rightarrow> u64 \<Rightarrow> world \<Rightarrow> world res" where
  "impl_mtx_lock tid pc mutex_id w =
     rbind (bump tid (\<lambda>s. s\<lparr>c_lock := c_lock s + 1\<rparr>) w) (\<lambda>w.
     rbind (tlbufs_at w tid) (\<lambda>_.
     rbind (reset_read tid mutex_id w) (put_event tid (LockEvent mutex_id pc))))"

definition impl_mtx_unlock :: "nat \<Rightarrow> u64 \<Rightarrow> u64 \<Rightarrow> world \<Rightarrow> world res" where
  "impl_mtx_unlock tid pc mutex_id w =
     rbind (bump tid (\<lambda>s. s\<lparr>c_unlock := c_unlock s + 1\<rparr>) w) (\<lambda>w.
     rbind (tlbufs_at w tid) (\<lambda>_.
     rbind (reset_read tid mutex_id w) (put_event tid (UnlockEvent mutex_id pc))))"

text \<open>The reader-writer handlers only print debug output.\<close>

definition impl_rd_lock :: "nat \<Rightarrow> u64 \<Rightarrow> u64 \<Rightarrow> world \<Rightarrow> world res" where
  "impl_rd_lock tid pc mutex_id w = Inr w"

definition impl_rd_unlock :: "nat \<Rightarrow> u64 \<Rightarrow> u64 \<Rightarrow> world \<Rightarrow> world res" where
  "impl_rd_unlock tid pc mutex_id w = Inr w"

definition impl_rw_unlock :: "nat \<Rightarrow> u64 \<Rightarrow> u64 \<Rightarrow> world \<Rightarrow> world res" where
  "impl_rw_unlock tid pc mutex_id w = Inr w"

text \<open>\<^verbatim>\<open>__sync_add_and_fetch(&uctx->e_count, 1)\<close>.\<close>

definition next_idx :: "world \<Rightarrow> u64 \<times> world" where
  "next_idx w = (e_count (w_ctx w) + 1, w\<lparr>w_ctx := (w_ctx w)\<lparr>e_count := e_count (w_ctx w) + 1\<rparr>\<rparr>)"

definition impl_cond_wait :: "nat \<Rightarrow> u64 \<Rightarrow> u64 \<Rightarrow> u64 \<Rightarrow> world \<Rightarrow> world res" where
  "impl_cond_wait tid pc addr_cond addr_mtx w =
     rbind (bump tid (\<lambda>s. s\<lparr>c_cond_wait := c_cond_wait s + 1\<rparr>) w) (\<lambda>w.
       (let (idx, w) = next_idx w
        in rbind (tlbufs_at w tid) (\<lambda>_. put_event tid (ThrCondWaitEvent idx addr_cond addr_mtx pc) w)))"

definition impl_cond_signal :: "nat \<Rightarrow> u64 \<Rightarrow> u64 \<Rightarrow> world \<Rightarrow> world res" where
  "impl_cond_signal tid pc addr_cond w =
     rbind (bump tid (\<lambda>s. s\<lparr>c_cond_signal := c_cond_signal s + 1\<rparr>) w) (\<lambda>w.
       (let (idx, w) = next_idx w
        in rbind (tlbufs_at w tid) (\<lambda>_. put_event tid (ThrCondSignalEvent idx addr_cond pc) w)))"

definition impl_cond_broadcast :: "nat \<Rightarrow> u64 \<Rightarrow> u64 \<Rightarrow> world \<Rightarrow> world res" where
  "impl_cond_broadcast tid pc addr_cond w =
     rbind (bump tid (\<lambda>s. s\<lparr>c_cond_bc := c_cond_bc s + 1\<rparr>) w) (\<lambda>w.
       (let (idx, w) = next_idx w
        in rbind (tlbufs_at w tid) (\<lambda>_. put_event tid (ThrCondBCEvent idx addr_cond pc) w)))"

section \<open>Allocation\<close>

definition impl_alloc :: "nat \<Rightarrow> u64 \<Rightarrow> u64 \<Rightarrow> u64 \<Rightarrow> world \<Rightarrow> (u64 \<times> world) res" where
  "impl_alloc tid pc addr_left sz w =
     rbind (bump tid (\<lambda>s. s\<lparr>c_alloc := c_alloc s + 1\<rparr>) w) (\<lambda>w.
     rbind (tlbufs_at w tid) (\<lambda>_.
     rbind (put_event tid (AllocEvent addr_left pc (ucast sz)) w) (\<lambda>w. Inr (addr_left, w))))"

definition impl_dealloc :: "nat \<Rightarrow> u64 \<Rightarrow> u64 \<Rightarrow> u64 \<Rightarrow> world \<Rightarrow> world res" where
  "impl_dealloc tid pc addr sz w =
     rbind (bump tid (\<lambda>s. s\<lparr>c_dealloc := c_dealloc s + 1\<rparr>) w) (\<lambda>w.
     rbind (tlbufs_at w tid) (\<lambda>_. put_event tid (DeallocEvent addr pc (ucast sz)) w))"

text \<open>The value behind an address, for the debug output.\<close>

definition read_addr :: "world \<Rightarrow> u64 \<Rightarrow> nat \<Rightarrow> u64" where
  "read_addr w addr kAccessSizeLog =
     (if kAccessSizeLog \<le> 3
      then le_word (map (\<lambda>i. w_mem w (addr + of_nat i)) [0..<2 ^ kAccessSizeLog]) else -1)"

section \<open>Threads\<close>

text \<open>An allocation of 288 bytes right before a thread is created is dropped.\<close>

definition reset_alloc :: "nat \<Rightarrow> world \<Rightarrow> world res" where
  "reset_alloc tid w =
     (let b = tlb w tid; esz = 17
      in if tb_size b \<ge> esz then
           rbind (peek b (tb_size b - esz)) (\<lambda>ty.
             if ty = type_code MemAlloc then
               rbind (peek_word b (tb_size b - 4) 4) (\<lambda>sz.
                 if sz = 288
                 then bump tid (\<lambda>s. s\<lparr>c_alloc := c_alloc s - 1\<rparr>) (drop_last tid esz w)
                 else Inr w)
             else Inr w)
         else Inr w)"

definition impl_thread_created :: "nat \<Rightarrow> nat \<Rightarrow> u64 \<Rightarrow> world \<Rightarrow> world res" where
  "impl_thread_created tid_parent tid_kid pc w =
     rbind (bump tid_parent (\<lambda>s. s\<lparr>c_start := c_start s + 1\<rparr>) w) (\<lambda>w.
     rbind (tlbufs_at w tid_parent) (\<lambda>_.
     rbind (reset_alloc tid_parent w) (\<lambda>w.
       (let et = elapsed w; (idx, w) = next_idx w
        in rbind (put_event tid_parent (CreateThreadEvent idx (of_nat tid_kid) et pc) w) (\<lambda>w.
           rbind (tlbufs_at w tid_kid) (\<lambda>_.
           rbind (if tb_buf (tlb w tid_kid) \<noteq> None \<and> tb_size (tlb w tid_kid) > 0
                  then flush tid_kid w else Inr (open_buf tid_kid w)) (\<lambda>w.
           rbind (if \<not> is_file_open (w_os w) (tlb w tid_kid) then open_file tid_kid w else Inr w) (\<lambda>w.
             put_event tid_kid (ThreadBeginEvent (of_nat tid_parent) pc et 0 0 0 0) w))))))))"

text \<open>The begin event at the end of the buffer gets the stack and thread-local areas.\<close>

definition rewrite_begin :: "nat \<Rightarrow> u64 \<Rightarrow> u64 \<Rightarrow> u64 \<Rightarrow> u64 \<Rightarrow> world \<Rightarrow> world res" where
  "rewrite_begin tid stk_addr stk_size tls_addr tls_size w =
     (let b = tlb w tid
      in if tb_size b \<ge> 33 then
           rbind (peek b (tb_size b - 33)) (\<lambda>ty.
             if ty = type_code ThreadBegin then
               (case tb_buf b of
                  None \<Rightarrow> Inl NullDeref
                | Some k \<Rightarrow>
                    rbind (poke_list k (tb_size b - 20)
                             (layout [(6, stk_addr), (4, ucast (ucast stk_size :: u32)),
                                      (6, tls_addr), (4, ucast (ucast tls_size :: u32))])) (\<lambda>k.
                      Inr (set_tlb tid (b\<lparr>tb_buf := Some k\<rparr>) w)))
             else Inr w)
         else Inr w)"

definition impl_thread_started :: "nat \<Rightarrow> u64 \<Rightarrow> u64 \<Rightarrow> u64 \<Rightarrow> u64 \<Rightarrow> world \<Rightarrow> world res" where
  "impl_thread_started tid stk_addr stk_size tls_addr tls_size w =
     rbind (tlbufs_at w tid) (\<lambda>_.
     rbind (rewrite_begin tid stk_addr stk_size tls_addr tls_size w) save_module_info)"

definition impl_thread_join :: "nat \<Rightarrow> nat \<Rightarrow> u64 \<Rightarrow> world \<Rightarrow> world res" where
  "impl_thread_join tid_main tid_joiner pc w =
     rbind (bump tid_main (\<lambda>s. s\<lparr>c_join := c_join s + 1\<rparr>) w) (\<lambda>w.
       (let et = elapsed w; (idx, w) = next_idx w
        in rbind (tlbufs_at w tid_main) (\<lambda>_.
             put_event tid_main (JoinThreadEvent idx (of_nat tid_joiner) et pc) w)))"

definition impl_thread_end :: "nat \<Rightarrow> world \<Rightarrow> world res" where
  "impl_thread_end tid w =
     rbind (tlbufs_at w tid) (\<lambda>_.
     rbind (put_event tid (ThreadEndEvent 0 (elapsed w)) w) (finish tid))"

section \<open>Function calls and pointers\<close>

definition impl_enter_func :: "nat \<Rightarrow> u64 \<Rightarrow> world \<Rightarrow> world res" where
  "impl_enter_func tid pc w =
     rbind (bump tid (\<lambda>s. s\<lparr>c_func_call := c_func_call s + 1\<rparr>) w) (\<lambda>w.
     rbind (tlbufs_at w tid) (\<lambda>_.
     rbind (put_event tid (FuncEntryEvent pc) w) (\<lambda>w.
       Inr (upd_tlb tid (\<lambda>b. b\<lparr>last_fe := e_counter b\<rparr>) w))))"

definition impl_exit_func :: "nat \<Rightarrow> world \<Rightarrow> world res" where
  "impl_exit_func tid w =
     rbind (tlbufs_at w tid) (\<lambda>_.
       (let b = tlb w tid; esz = 7
        in rbind (if tb_size b \<ge> esz \<and> e_counter b = last_fe b
                  then rbind (peek b (tb_size b - esz)) (\<lambda>ty. Inr (ty = type_code EnterFunc))
                  else Inr False) (\<lambda>empty_call.
             if empty_call then Inr (drop_last tid esz w) else put_event tid FuncExitEvent w)))"

definition impl_ptr_prop :: "nat \<Rightarrow> u64 \<Rightarrow> u64 \<Rightarrow> u64 \<Rightarrow> world \<Rightarrow> world res" where
  "impl_ptr_prop tid pc addr_src addr_dest w =
     rbind (bump tid (\<lambda>s. s\<lparr>c_ptr_prop := c_ptr_prop s + 1\<rparr>) w) (\<lambda>w.
     rbind (tlbufs_at w tid) (\<lambda>_. put_event tid (PtrAssignEvent addr_src addr_dest) w))"

definition impl_ptr_deref :: "nat \<Rightarrow> u64 \<Rightarrow> u64 \<Rightarrow> world \<Rightarrow> world res" where
  "impl_ptr_deref tid pc addr_ptr w =
     rbind (tlbufs_at w tid) (\<lambda>_. put_event tid (PtrDeRefEvent addr_ptr) w)"

section \<open>Memory accesses\<close>

text \<open>
  The counters of \<^verbatim>\<open>mc_stat\<close> are functions of the logarithm of the access size. The arrays of the source have
  an entry for each of the sizes 1, 2, 4 and 8 that the instrumentation passes; their bound is not
  checked here, and the properties of the handlers that keep the values ask for \<open>lg \<le> 3\<close>.
\<close>

definition mc_stat :: "nat \<Rightarrow> nat \<Rightarrow> bool \<Rightarrow> world \<Rightarrow> world res" where
  "mc_stat tid kAccessSizeLog is_write w =
     bump tid (\<lambda>s. if is_write
                   then s\<lparr>c_write := (c_write s)(kAccessSizeLog := c_write s kAccessSizeLog + 1)\<rparr>
                   else s\<lparr>c_read := (c_read s)(kAccessSizeLog := c_read s kAccessSizeLog + 1)\<rparr>) w"

text \<open>The loop that copies the accessed bytes behind the event.\<close>

definition mem_bytes :: "world \<Rightarrow> u64 \<Rightarrow> nat \<Rightarrow> byte list" where
  "mem_bytes w addr n = map (\<lambda>i. w_mem w (addr + of_nat i)) [0..<n]"

definition store_value :: "nat \<Rightarrow> u64 \<Rightarrow> nat \<Rightarrow> world \<Rightarrow> world res" where
  "store_value tid addr acc_len w =
     (case tb_buf (tlb w tid) of
        None \<Rightarrow> Inl NullDeref
      | Some k \<Rightarrow>
          rbind (poke_list k (tb_size (tlb w tid)) (mem_bytes w addr acc_len)) (\<lambda>k.
            Inr (upd_tlb tid (\<lambda>b. b\<lparr>tb_buf := Some k, tb_size := wrap32 (tb_size b + acc_len)\<rparr>) w)))"

definition impl_mem_acc :: "nat \<Rightarrow> u64 \<Rightarrow> u64 \<Rightarrow> nat \<Rightarrow> bool \<Rightarrow> world \<Rightarrow> world res" where
  "impl_mem_acc tid pc addr kAccessSizeLog is_write w =
     rbind (mc_stat tid kAccessSizeLog is_write w) (\<lambda>w.
     rbind (tlbufs_at w tid) (\<lambda>_.
     rbind (put_event tid (MemAccEvent is_write kAccessSizeLog addr pc) w)
       (store_value tid addr (2 ^ kAccessSizeLog))))"

definition impl_mem_acc_nv :: "nat \<Rightarrow> u64 \<Rightarrow> u64 \<Rightarrow> nat \<Rightarrow> bool \<Rightarrow> world \<Rightarrow> world res" where
  "impl_mem_acc_nv tid pc addr kAccessSizeLog is_write w =
     rbind (mc_stat tid kAccessSizeLog is_write w) (\<lambda>w.
     rbind (tlbufs_at w tid) (\<lambda>_. put_event tid (MemAccEvent is_write kAccessSizeLog addr pc) w))"

definition in_stack :: "TLBuffer \<Rightarrow> u64 \<Rightarrow> bool" where
  "in_stack b addr = (let ofs = sint (addr - stack_bottom b) in 0 < ofs \<and> ofs < uint (stack_height b))"

definition in_tls :: "TLBuffer \<Rightarrow> u64 \<Rightarrow> bool" where
  "in_tls b addr = (let ofs = sint (addr - tls_bottom b) in 0 < ofs \<and> ofs < uint (tls_height b))"

definition ns_mem_acc :: "nat \<Rightarrow> u64 \<Rightarrow> u64 \<Rightarrow> nat \<Rightarrow> bool \<Rightarrow> world \<Rightarrow> world res" where
  "ns_mem_acc tid pc addr kAccessSizeLog is_write w =
     rbind (mc_stat tid kAccessSizeLog is_write w) (\<lambda>w.
     rbind (tlbufs_at w tid) (\<lambda>_.
       if in_stack (tlb w tid) addr \<or> in_tls (tlb w tid) addr
       then bump tid (\<lambda>s. s\<lparr>cs_acc := cs_acc s + 1\<rparr>) w
       else
         (let acc_len = 2 ^ kAccessSizeLog
          in rbind (if tb_buf (tlb w tid) = None then open_file tid (open_buf tid w)
                    else if tb_size (tlb w tid) + 13 + acc_len \<ge> tb_capacity (tlb w tid)
                    then flush tid w else Inr w) (\<lambda>w.
             rbind (put_event tid (MemAccEvent is_write kAccessSizeLog addr pc) w)
               (store_value tid addr acc_len)))))"

definition ns_mem_acc_nv :: "nat \<Rightarrow> u64 \<Rightarrow> u64 \<Rightarrow> nat \<Rightarrow> bool \<Rightarrow> world \<Rightarrow> world res" where
  "ns_mem_acc_nv tid pc addr kAccessSizeLog is_write w =
     rbind (mc_stat tid kAccessSizeLog is_write w) (\<lambda>w.
     rbind (tlbufs_at w tid) (\<lambda>_.
       if in_stack (tlb w tid) addr \<or> in_tls (tlb w tid) addr
       then bump tid (\<lambda>s. s\<lparr>cs_acc := cs_acc s + 1\<rparr>) w
       else put_event tid (MemAccEvent is_write kAccessSizeLog addr pc) w))"

text \<open>A range write is counted twice, by the statement and by the macro after it.\<close>

definition range_stat :: "nat \<Rightarrow> bool \<Rightarrow> world \<Rightarrow> world res" where
  "range_stat tid is_write w =
     bump tid (\<lambda>s. if is_write then s\<lparr>c_range_w := c_range_w s + 1 + 1\<rparr>
                   else s\<lparr>c_range_r := c_range_r s + 1\<rparr>) w"

definition impl_mem_range_acc :: "nat \<Rightarrow> u64 \<Rightarrow> u64 \<Rightarrow> u64 \<Rightarrow> bool \<Rightarrow> world \<Rightarrow> world res" where
  "impl_mem_range_acc tid pc addr sz is_write w =
     rbind (range_stat tid is_write w) (\<lambda>w.
     rbind (tlbufs_at w tid) (\<lambda>_. put_event tid (MemRangeAccEvent is_write addr pc (ucast sz)) w))"

definition ns_mem_range_acc :: "nat \<Rightarrow> u64 \<Rightarrow> u64 \<Rightarrow> u64 \<Rightarrow> bool \<Rightarrow> world \<Rightarrow> world res" where
  "ns_mem_range_acc tid pc addr sz is_write w =
     rbind (range_stat tid is_write w) (\<lambda>w.
     rbind (tlbufs_at w tid) (\<lambda>_.
       if in_stack (tlb w tid) addr then bump tid (\<lambda>s. s\<lparr>cs_acc := cs_acc s + 1\<rparr>) w
       else if in_tls (tlb w tid) addr then bump tid (\<lambda>s. s\<lparr>cs_range_acc := cs_range_acc s + 1\<rparr>) w
       else put_event tid (MemRangeAccEvent is_write addr pc (ucast sz)) w))"

section \<open>What a handler does to the trace\<close>

text \<open>
  \<open>tracing w tid p\<close>: the thread has a buffer, its trace file \<open>p\<close> is open and the arrays exist.
  \<open>logs tid p bs w r\<close>: the step returns, appends the bytes \<open>bs\<close> to the trace of the thread and
  leaves every other buffer and file alone; only if the output queue has no free slot, it may
  have to wait instead. \<open>kept\<close> says what the step leaves alone.
\<close>

definition tracing :: "world \<Rightarrow> nat \<Rightarrow> string \<Rightarrow> bool" where
  "tracing w tid p \<longleftrightarrow> live w tid p \<and> sys_ok w \<and> w_tlbufs_ok w \<and> w_stat_ok w \<and> tid < MAX_THREAD"

definition kept :: "nat \<Rightarrow> string \<Rightarrow> world \<Rightarrow> world \<Rightarrow> bool" where
  "kept tid p w w' \<longleftrightarrow> (\<forall>q. q \<noteq> p \<longrightarrow> disk w' q = disk w q) \<and> (\<forall>j. j \<noteq> tid \<longrightarrow> tlb w' j = tlb w j)
     \<and> (\<forall>k. fd_path (w_os w') k = fd_path (w_os w) k) \<and> w_fns w' = w_fns w
     \<and> (w_tlbufs_ok w \<longrightarrow> w_tlbufs_ok w') \<and> (w_stat_ok w \<longrightarrow> w_stat_ok w')"

definition logs :: "nat \<Rightarrow> string \<Rightarrow> byte list \<Rightarrow> world \<Rightarrow> world res \<Rightarrow> bool" where
  "logs tid p bs w r \<longleftrightarrow>
     (case r of Inl f \<Rightarrow> f = MustWait \<and> \<not> ready w
      | Inr w' \<Rightarrow> live w' tid p \<and> sys_ok w' \<and> tlog w' tid p = tlog w tid p @ bs \<and> kept tid p w w')"

lemma quiet_kept: "quiet tid p w w' \<Longrightarrow> kept tid p w w'"
  by (simp add: quiet_def same_env_def kept_def)

lemma kept_refl [simp]: "kept tid p w w"
  by (simp add: kept_def)

lemma kept_trans: "kept tid p w w1 \<Longrightarrow> kept tid p w1 w2 \<Longrightarrow> kept tid p w w2"
  by (simp add: kept_def)

lemma stat_updates [simp]:
  "live (w\<lparr>w_stat := s\<rparr>) tid p = live w tid p" "sys_ok (w\<lparr>w_stat := s\<rparr>) = sys_ok w"
  "ready (w\<lparr>w_stat := s\<rparr>) = ready w" "tlog (w\<lparr>w_stat := s\<rparr>) tid p = tlog w tid p"
  "disk (w\<lparr>w_stat := s\<rparr>) p = disk w p"
  by (simp_all add: live_def sys_ok_def plain_io_def queue_ok_def ready_def tlog_def disk_def queued_def)

lemma idx_updates [simp]:
  "live (w\<lparr>w_ctx := (w_ctx w)\<lparr>e_count := c\<rparr>\<rparr>) tid p = live w tid p"
  "sys_ok (w\<lparr>w_ctx := (w_ctx w)\<lparr>e_count := c\<rparr>\<rparr>) = sys_ok w"
  "ready (w\<lparr>w_ctx := (w_ctx w)\<lparr>e_count := c\<rparr>\<rparr>) = ready w"
  "tlog (w\<lparr>w_ctx := (w_ctx w)\<lparr>e_count := c\<rparr>\<rparr>) tid p = tlog w tid p"
  "disk (w\<lparr>w_ctx := (w_ctx w)\<lparr>e_count := c\<rparr>\<rparr>) p = disk w p"
  by (simp_all add: live_def sys_ok_def plain_io_def queue_ok_def ready_def tlog_def disk_def queued_def)

lemma kept_updates [simp]:
  "kept tid p (w\<lparr>w_stat := s\<rparr>) w' = kept tid p w w'"
  "kept tid p (w\<lparr>w_ctx := (w_ctx w)\<lparr>e_count := c\<rparr>\<rparr>) w' = kept tid p w w'"
  "kept tid p w (w'\<lparr>w_stat := s\<rparr>) = kept tid p w w'"
  by (simp_all add: kept_def)

lemma tracing_updates [simp]:
  "tracing (w\<lparr>w_stat := s\<rparr>) tid p = tracing w tid p"
  "tracing (w\<lparr>w_ctx := (w_ctx w)\<lparr>e_count := c\<rparr>\<rparr>) tid p = tracing w tid p"
  by (simp_all add: tracing_def)

lemma logs_updates:
  "logs tid p bs (w\<lparr>w_stat := s\<rparr>) r = logs tid p bs w r"
  "logs tid p bs (w\<lparr>w_ctx := (w_ctx w)\<lparr>e_count := c\<rparr>\<rparr>) r = logs tid p bs w r"
  by (cases r; simp add: logs_def)+

lemma put_event_logs: "tracing w tid p \<Longrightarrow> logs tid p (encode e) w (put_event tid e w)"
proof (cases "put_event tid e w = Inl MustWait \<and> \<not> ready w")
  case True
  then show ?thesis by (simp add: logs_def)
next
  case False
  assume tr: "tracing w tid p"
  have "ready w \<or> tb_size (tlb w tid) + length (encode e) < tb_capacity (tlb w tid)"
    using False put_event_waits [of w tid p e] tr unfolding tracing_def not_less [symmetric] by blast
  then show ?thesis
    using tr put_event_log [of w tid p e] put_event_room [of w tid p e]
    by (auto simp: tracing_def logs_def quiet_kept simp del: encode.simps)
qed

lemma bump_tracing: "tracing w tid p \<Longrightarrow>
    bump tid f w = Inr (w\<lparr>w_stat := (w_stat w)(tid := f (w_stat w tid))\<rparr>) \<and> w_tlbufs_ok w \<and> tid < MAX_THREAD"
  by (simp add: tracing_def bump_ok)

lemma tlbufs_at_ok [simp]: "w_tlbufs_ok w \<Longrightarrow> tid < MAX_THREAD \<Longrightarrow> tlbufs_at w tid = Inr ()"
  by (simp add: tlbufs_at_def)

lemma tracing_at: "tracing w tid p \<Longrightarrow> tlbufs_at w tid = Inr ()"
  by (simp add: tracing_def)

lemma logs_refl: "tracing w tid p \<Longrightarrow> logs tid p [] w (Inr (w\<lparr>w_stat := s\<rparr>))"
  by (simp add: tracing_def logs_def)

text \<open>A handler that counts, takes an index and stores one event.\<close>

lemma put_stat_logs:
  "tracing w tid p \<Longrightarrow> logs tid p (encode e) w (put_event tid e (w\<lparr>w_stat := s\<rparr>))"
  using put_event_logs [of "w\<lparr>w_stat := s\<rparr>" tid p e] by (simp add: logs_updates del: encode.simps)

lemma put_idx_logs:
  "tracing w tid p \<Longrightarrow>
   logs tid p (encode e) w (put_event tid e (w\<lparr>w_stat := s, w_ctx := (w_ctx w)\<lparr>e_count := c\<rparr>\<rparr>))"
proof -
  assume tr: "tracing w tid p"
  let ?w = "w\<lparr>w_stat := s\<rparr>"
  have "logs tid p (encode e) (?w\<lparr>w_ctx := (w_ctx ?w)\<lparr>e_count := c\<rparr>\<rparr>)
      (put_event tid e (?w\<lparr>w_ctx := (w_ctx ?w)\<lparr>e_count := c\<rparr>\<rparr>))"
    using tr by (intro put_event_logs) (simp only: tracing_updates)
  then show ?thesis by (simp only: logs_updates) simp
qed

lemmas handler_simps = bump_tracing next_idx_def put_stat_logs put_idx_logs

lemma cond_logs:
  assumes "tracing w tid p"
  shows "logs tid p (encode (ThrCondWaitEvent (e_count (w_ctx w) + 1) c m pc)) w (impl_cond_wait tid pc c m w)"
    and "logs tid p (encode (ThrCondSignalEvent (e_count (w_ctx w) + 1) c pc)) w (impl_cond_signal tid pc c w)"
    and "logs tid p (encode (ThrCondBCEvent (e_count (w_ctx w) + 1) c pc)) w (impl_cond_broadcast tid pc c w)"
  using assms
  by (simp_all add: impl_cond_wait_def impl_cond_signal_def impl_cond_broadcast_def handler_simps del: encode.simps)

lemma elapsed_stat [simp]: "elapsed (w\<lparr>w_stat := s\<rparr>) = elapsed w"
  by (simp add: elapsed_def get_time_ms_def)

lemma simple_logs:
  assumes "tracing w tid p"
  shows "logs tid p (encode (AllocEvent a pc (ucast sz))) w (rbind (impl_alloc tid pc a sz w) (\<lambda>(_, w). Inr w))"
    and "logs tid p (encode (DeallocEvent a pc (ucast sz))) w (impl_dealloc tid pc a sz w)"
    and "logs tid p (encode (JoinThreadEvent (e_count (w_ctx w) + 1) (of_nat kid) (elapsed w) pc)) w
           (impl_thread_join tid kid pc w)"
    and "logs tid p (encode (PtrAssignEvent a b)) w (impl_ptr_prop tid pc a b w)"
    and "logs tid p (encode (PtrDeRefEvent a)) w (impl_ptr_deref tid pc a w)"
    and "logs tid p (encode (MemRangeAccEvent isw a pc (ucast sz))) w (impl_mem_range_acc tid pc a sz isw w)"
    and "logs tid p (encode (MemAccEvent isw lg a pc)) w (impl_mem_acc_nv tid pc a lg isw w)"
  using assms put_event_logs [OF assms]
  by (simp_all add: impl_alloc_def impl_dealloc_def impl_thread_join_def impl_ptr_prop_def impl_ptr_deref_def
      impl_mem_range_acc_def range_stat_def impl_mem_acc_nv_def mc_stat_def handler_simps rbind_assoc
      tracing_at del: encode.simps)

lemma ns_logs:
  assumes "tracing w tid p"
  shows "logs tid p (if in_stack (tlb w tid) a \<or> in_tls (tlb w tid) a then [] else encode (MemAccEvent isw lg a pc)) w
           (ns_mem_acc_nv tid pc a lg isw w)"
    and "logs tid p (if in_stack (tlb w tid) a \<or> in_tls (tlb w tid) a then []
                     else encode (MemRangeAccEvent isw a pc (ucast sz))) w
           (ns_mem_range_acc tid pc a sz isw w)"
  using assms
  by (simp_all add: ns_mem_acc_nv_def mc_stat_def ns_mem_range_acc_def range_stat_def handler_simps logs_refl
      logs_updates tracing_at bump_ok tracing_def [of w] del: encode.simps)

lemma last_fe_update:
  "logs tid p bs w r \<Longrightarrow> logs tid p bs w (rbind r (\<lambda>w. Inr (upd_tlb tid (\<lambda>b. b\<lparr>last_fe := e_counter b\<rparr>) w)))"
  by (cases r) (auto simp: logs_def upd_tlb_def live_def buf_ok_def tlog_def buf_bytes_def kept_def split: option.splits)

lemma enter_logs:
  assumes "tracing w tid p"
  shows "logs tid p (encode (FuncEntryEvent pc)) w (impl_enter_func tid pc w)"
  using assms by (simp add: impl_enter_func_def handler_simps last_fe_update del: encode.simps)

section \<open>Memory accesses with values\<close>

lemma store_value_log:
  assumes "live w tid p" "tb_size (tlb w tid) + n \<le> tb_capacity (tlb w tid)" "sys_ok w"
  shows "\<exists>w'. store_value tid addr n w = Inr w' \<and> logs tid p (mem_bytes w addr n) w (Inr w')"
proof -
  obtain k where k: "tb_buf (tlb w tid) = Some k" "blk_len k = tb_capacity (tlb w tid)" "roomy (tb_capacity (tlb w tid))"
    using assms(1) by (auto simp: live_def elim: buf_okE)
  let ?bs = "mem_bytes w addr n" and ?b = "tlb w tid"
  have l: "length ?bs = n" by (simp add: mem_bytes_def)
  have "store_value tid addr n w = Inr (set_tlb tid (?b\<lparr>tb_buf := Some (blk_put k (tb_size ?b) ?bs),
      tb_size := tb_size ?b + n, e_counter := e_counter ?b\<rparr>) w)"
    using assms(2) k l by (simp add: store_value_def poke_list_fits upd_tlb_def roomy_def)
  then show ?thesis
    using store_log [OF assms(1) k(1), of ?bs "e_counter ?b"] assms(2,3) l
    by (simp add: logs_def quiet_kept quiet_set_tlb)
qed

lemma store_value_overflow:
  assumes "live w tid p" "tb_capacity (tlb w tid) < tb_size (tlb w tid) + n" "0 < n"
  shows "store_value tid addr n w = Inl HeapOverflow"
proof -
  obtain k where k: "tb_buf (tlb w tid) = Some k" "blk_len k = tb_capacity (tlb w tid)"
    using assms(1) by (auto simp: live_def elim: buf_okE)
  have "length (mem_bytes w addr n) = n" by (simp add: mem_bytes_def)
  then have "\<not> tb_size (tlb w tid) + length (mem_bytes w addr n) \<le> blk_len k" "mem_bytes w addr n \<noteq> []"
    using assms k by auto
  then show ?thesis using k by (simp add: store_value_def poke_list_eq)
qed

lemma mem_bytes_quiet: "quiet tid p w w' \<Longrightarrow> mem_bytes w' addr n = mem_bytes w addr n"
  by (simp add: mem_bytes_def quiet_def same_env_def)

lemma logs_trans:
  "logs tid p xs w (Inr w1) \<Longrightarrow> logs tid p ys w1 (Inr w2) \<Longrightarrow> logs tid p (xs @ ys) w (Inr w2)"
  using kept_trans by (auto simp: logs_def)

lemma put_value_logs:
  assumes "live w tid p" "sys_ok w" "tb_size (tlb w tid) + 13 < tb_capacity (tlb w tid)"
    and "tb_size (tlb w tid) + 13 + n \<le> tb_capacity (tlb w tid)"
  shows "\<exists>w'. rbind (put_event tid (MemAccEvent isw lg addr pc) w) (store_value tid addr n) = Inr w'
    \<and> logs tid p (encode (MemAccEvent isw lg addr pc) @ mem_bytes w addr n) w (Inr w')"
proof -
  have fits: "tb_size (tlb w tid) + length (encode (MemAccEvent isw lg addr pc)) < tb_capacity (tlb w tid)"
    using assms(3) by simp
  obtain w1 where w1: "put_event tid (MemAccEvent isw lg addr pc) w = Inr w1" "live w1 tid p"
    "tlog w1 tid p = tlog w tid p @ encode (MemAccEvent isw lg addr pc)" "quiet tid p w w1" "sys_ok w1"
    "tb_size (tlb w1 tid) = tb_size (tlb w tid) + 13" "tb_capacity (tlb w1 tid) = tb_capacity (tlb w tid)"
    using put_event_room [OF assms(1) fits] assms(2) by auto
  obtain w2 where "store_value tid addr n w1 = Inr w2" "logs tid p (mem_bytes w addr n) w1 (Inr w2)"
    using store_value_log [OF w1(2), of n addr] w1 assms(4) mem_bytes_quiet [OF w1(4)] by auto
  moreover have "logs tid p (encode (MemAccEvent isw lg addr pc)) w (Inr w1)"
    using w1 by (simp add: logs_def quiet_kept)
  ultimately show ?thesis using logs_trans w1(1) by simp
qed

lemma make_room:
  assumes "tracing w tid p" "n \<le> 8" "\<not> (tb_size (tlb w tid) + 13 + n \<ge> tb_capacity (tlb w tid) \<and> \<not> ready w)"
  shows "\<exists>w1. (if tb_size (tlb w tid) + 13 + n \<ge> tb_capacity (tlb w tid) then flush tid w else Inr w) = Inr w1
    \<and> live w1 tid p \<and> sys_ok w1 \<and> quiet tid p w w1 \<and> tlog w1 tid p = tlog w tid p
    \<and> tb_size (tlb w1 tid) + 13 + n < tb_capacity (tlb w1 tid)"
proof (cases "tb_size (tlb w tid) + 13 + n \<ge> tb_capacity (tlb w tid)")
  case True
  then have "live w tid p" "sys_ok w" "ready w" using assms by (auto simp: tracing_def)
  then obtain w1 where w1: "flush tid w = Inr w1" "live w1 tid p" "sys_ok w1" "tb_size (tlb w1 tid) = 0"
    "disk w1 p = tlog w tid p" "quiet tid p w w1"
    using flush_log by blast
  moreover from this have "n + 13 < tb_capacity (tlb w1 tid)" "buf_bytes (tlb w1 tid) = []"
    using assms(2) by (auto simp: live_def roomy_def buf_bytes_def elim!: buf_okE)
  ultimately show ?thesis using True by (auto simp: tlog_def)
qed (use assms in \<open>auto simp: tracing_def\<close>)

text \<open>Counting the access first changes neither buffers nor logs.\<close>

lemma mc_stat_tracing:
  assumes "tracing w tid p"
  obtains w0 where "mc_stat tid lg isw w = Inr w0" "tracing w0 tid p" "tlb w0 = tlb w"
    "\<forall>bs r. logs tid p bs w r = logs tid p bs w0 r" "mem_bytes w0 = mem_bytes w"
proof -
  define w0 where "w0 = w\<lparr>w_stat := (w_stat w)(tid := (\<lambda>s. if isw then s\<lparr>c_write := (c_write s)(lg := c_write s lg + 1)\<rparr>
      else s\<lparr>c_read := (c_read s)(lg := c_read s lg + 1)\<rparr>) (w_stat w tid))\<rparr>"
  have "mem_bytes w0 = mem_bytes w" by (intro ext) (simp add: mem_bytes_def w0_def)
  moreover have "mc_stat tid lg isw w = Inr w0" "tracing w0 tid p" "tlb w0 = tlb w"
    "\<forall>bs r. logs tid p bs w r = logs tid p bs w0 r"
    using assms by (auto simp: mc_stat_def bump_tracing w0_def logs_updates)
  ultimately show thesis using that by blast
qed

lemma ns_mem_acc_logs:
  assumes "tracing w tid p" "lg \<le> 3"
  shows "logs tid p (if in_stack (tlb w tid) addr \<or> in_tls (tlb w tid) addr then []
                     else encode (MemAccEvent isw lg addr pc) @ mem_bytes w addr (2 ^ lg)) w
           (ns_mem_acc tid pc addr lg isw w)"
proof -
  obtain w0 where st: "mc_stat tid lg isw w = Inr w0" and w0: "tracing w0 tid p" "tlb w0 = tlb w"
    and lw: "\<forall>bs r. logs tid p bs w r = logs tid p bs w0 r" and mb: "mem_bytes w0 = mem_bytes w"
    by (rule mc_stat_tracing [OF assms(1)])
  show ?thesis
  proof (cases "in_stack (tlb w tid) addr \<or> in_tls (tlb w tid) addr")
    case True
    then have "ns_mem_acc tid pc addr lg isw w = bump tid (\<lambda>s. s\<lparr>cs_acc := cs_acc s + 1\<rparr>) w0"
      using st w0 by (simp add: ns_mem_acc_def tracing_at)
    then show ?thesis using True w0(1) lw by (simp add: bump_tracing logs_refl)
  next
    case False
    let ?n = "2 ^ lg :: nat"
    have n: "?n \<le> 8" using assms(2) power_increasing [of lg 3 "2 :: nat"] by simp
    obtain k where k: "tb_buf (tlb w0 tid) = Some k"
      using w0(1) by (auto simp: tracing_def live_def elim: buf_okE)
    have acc: "ns_mem_acc tid pc addr lg isw w =
        rbind (if tb_size (tlb w0 tid) + 13 + ?n \<ge> tb_capacity (tlb w0 tid) then flush tid w0 else Inr w0) (\<lambda>w1.
          rbind (put_event tid (MemAccEvent isw lg addr pc) w1) (store_value tid addr ?n))"
      using False k st w0 by (simp add: ns_mem_acc_def tracing_at)
    have "logs tid p (encode (MemAccEvent isw lg addr pc) @ mem_bytes w addr ?n) w0 (ns_mem_acc tid pc addr lg isw w)"
    proof (cases "tb_size (tlb w0 tid) + 13 + ?n \<ge> tb_capacity (tlb w0 tid) \<and> \<not> ready w0")
      case True
      then show ?thesis using flush_waits [of w0 tid p] w0(1) by (simp add: acc tracing_def logs_def)
    next
      case False
      then obtain w1 where w1: "(if tb_size (tlb w0 tid) + 13 + ?n \<ge> tb_capacity (tlb w0 tid) then flush tid w0 else Inr w0) = Inr w1"
        "live w1 tid p" "sys_ok w1" "quiet tid p w0 w1" "tlog w1 tid p = tlog w0 tid p"
        "tb_size (tlb w1 tid) + 13 + ?n < tb_capacity (tlb w1 tid)"
        using make_room [OF w0(1) n] by blast
      obtain w2 where "rbind (put_event tid (MemAccEvent isw lg addr pc) w1) (store_value tid addr ?n) = Inr w2"
        "logs tid p (encode (MemAccEvent isw lg addr pc) @ mem_bytes w1 addr ?n) w1 (Inr w2)"
        using put_value_logs [OF w1(2,3), of ?n isw lg addr pc] w1(6) by auto
      moreover have "logs tid p [] w0 (Inr w1)" using w1 by (simp add: logs_def quiet_kept)
      ultimately show ?thesis
        using mb mem_bytes_quiet [OF w1(4)] logs_trans [of tid p "[]" w0 w1] by (auto simp: acc w1(1))
    qed
    then show ?thesis using False lw by simp
  qed
qed

text \<open>
  An event that does not fit is stored after a flush, in an empty buffer.
\<close>

lemma put_event_flushes:
  assumes "live w tid p" "tb_capacity (tlb w tid) \<le> tb_size (tlb w tid) + length (encode e)"
    and "flush tid w = Inr w1" "live w1 tid p" "tb_size (tlb w1 tid) = 0"
  shows "put_event tid e w = put_event tid e w1"
proof -
  obtain k where k: "tb_buf (tlb w tid) = Some k" "roomy (tb_capacity (tlb w tid))"
    "tb_size (tlb w tid) \<le> tb_capacity (tlb w tid)"
    using assms(1) by (auto simp: live_def elim: buf_okE)
  obtain k1 where k1: "tb_buf (tlb w1 tid) = Some k1" "roomy (tb_capacity (tlb w1 tid))"
    using assms(4) by (auto simp: live_def elim: buf_okE)
  have "wrap32 (tb_size (tlb w tid) + length (encode e)) = tb_size (tlb w tid) + length (encode e)"
    "wrap32 (length (encode e)) = length (encode e)" "length (encode e) < tb_capacity (tlb w1 tid)"
    using k k1 encode_bounds(2) [of e] by (simp_all add: roomy_def)
  then show ?thesis
    using k k1 assms live_open [OF assms(1)] live_open [OF assms(4)] by (simp add: put_event_def)
qed

lemma impl_mem_acc_logs:
  assumes "tracing w tid p" "lg \<le> 3"
    and "tb_size (tlb w tid) + 13 < tb_capacity (tlb w tid) \<Longrightarrow> tb_size (tlb w tid) + 13 + 2 ^ lg \<le> tb_capacity (tlb w tid)"
  shows "logs tid p (encode (MemAccEvent isw lg addr pc) @ mem_bytes w addr (2 ^ lg)) w (impl_mem_acc tid pc addr lg isw w)"
proof -
  let ?n = "2 ^ lg :: nat" and ?e = "MemAccEvent isw lg addr pc"
  obtain w0 where st: "mc_stat tid lg isw w = Inr w0" and w0: "tracing w0 tid p" "tlb w0 = tlb w"
    and lw: "\<forall>bs r. logs tid p bs w r = logs tid p bs w0 r" and mb: "mem_bytes w0 = mem_bytes w"
    by (rule mc_stat_tracing [OF assms(1)])
  then have lv: "live w0 tid p" "sys_ok w0" by (simp_all add: tracing_def)
  have acc: "impl_mem_acc tid pc addr lg isw w = rbind (put_event tid ?e w0) (store_value tid addr ?n)"
    using st w0 by (simp add: impl_mem_acc_def tracing_at)
  have "logs tid p (encode ?e @ mem_bytes w0 addr ?n) w0 (impl_mem_acc tid pc addr lg isw w)"
  proof (cases "tb_size (tlb w0 tid) + 13 < tb_capacity (tlb w0 tid)")
    case True
    then show ?thesis using put_value_logs [OF lv True, of ?n isw lg addr pc] assms(3) by (auto simp: acc w0(2))
  next
    case False
    then have full: "tb_capacity (tlb w0 tid) \<le> tb_size (tlb w0 tid) + length (encode ?e)" by simp
    show ?thesis
    proof (cases "ready w0")
      case False
      then show ?thesis using put_event_waits [OF lv False full] by (simp add: acc logs_def)
    next
      case True
      obtain w1 where w1: "flush tid w0 = Inr w1" "live w1 tid p" "sys_ok w1" "tb_size (tlb w1 tid) = 0"
        "disk w1 p = tlog w0 tid p" "quiet tid p w0 w1"
        using flush_log [OF lv True] by blast
      have n: "?n \<le> 8" using assms(2) power_increasing [of lg 3 "2 :: nat"] by simp
      have room: "tb_size (tlb w1 tid) + 13 < tb_capacity (tlb w1 tid)" "tb_size (tlb w1 tid) + 13 + ?n \<le> tb_capacity (tlb w1 tid)"
        and "buf_bytes (tlb w1 tid) = []"
        using w1(2,4) n by (auto simp: live_def roomy_def buf_bytes_def elim!: buf_okE)
      then have "logs tid p [] w0 (Inr w1)" using w1 by (simp add: logs_def quiet_kept tlog_def)
      then show ?thesis
        using put_value_logs [OF w1(2,3) room, of isw lg addr pc] put_event_flushes [OF lv(1) full w1(1,2,4)]
          mem_bytes_quiet [OF w1(6)] logs_trans [of tid p "[]" w0 w1] unfolding acc by fastforce
    qed
  qed
  then show ?thesis using lw by (simp add: mb)
qed

text \<open>
  \<open>impl_mem_acc\<close>, the handler used when stack accesses are recorded, only makes room for the
  event itself: if the event fits and the value does not, it writes past the buffer.
\<close>

lemma impl_mem_acc_overflow_aux:
  assumes "tracing w tid p" "tb_size (tlb w tid) + 13 < tb_capacity (tlb w tid)"
    and "tb_capacity (tlb w tid) < tb_size (tlb w tid) + 13 + 2 ^ lg"
  shows "impl_mem_acc tid pc addr lg isw w = Inl HeapOverflow"
proof -
  obtain w0 where st: "mc_stat tid lg isw w = Inr w0" and w0: "tracing w0 tid p" "tlb w0 = tlb w"
    and lw: "\<forall>bs r. logs tid p bs w r = logs tid p bs w0 r" and mb: "mem_bytes w0 = mem_bytes w"
    by (rule mc_stat_tracing [OF assms(1)])
  obtain w1 where w1: "put_event tid (MemAccEvent isw lg addr pc) w0 = Inr w1" "live w1 tid p"
    "tb_size (tlb w1 tid) = tb_size (tlb w tid) + 13" "tb_capacity (tlb w1 tid) = tb_capacity (tlb w tid)"
    using put_event_room [of w0 tid p "MemAccEvent isw lg addr pc"] w0 assms(2) by (auto simp: tracing_def)
  have "store_value tid addr (2 ^ lg) w1 = Inl HeapOverflow"
    using store_value_overflow [OF w1(2), of "2 ^ lg" addr] w1(3,4) assms(3) by simp
  then show ?thesis using st w0 w1(1) by (simp add: impl_mem_acc_def tracing_at)
qed

section \<open>Dropping the last event\<close>

lemma peek_ok:
  assumes "live w tid p" "i < tb_size (tlb w tid)"
  shows "peek (tlb w tid) i = Inr (buf_bytes (tlb w tid) ! i)"
  using assms by (auto simp: live_def peek_def buf_bytes_def blk_bytes_def elim!: buf_okE)

lemma length_buf_bytes: "live w tid p \<Longrightarrow> length (buf_bytes (tlb w tid)) = tb_size (tlb w tid)"
  by (auto simp: live_def buf_bytes_def elim!: buf_okE)

lemma peek_word_ok:
  assumes "live w tid p" "i + n \<le> tb_size (tlb w tid)"
  shows "peek_word (tlb w tid) i n = Inr (le_word (take n (drop i (buf_bytes (tlb w tid)))))"
proof -
  obtain k where k: "tb_buf (tlb w tid) = Some k" "blk_len k = tb_capacity (tlb w tid)"
    "tb_size (tlb w tid) \<le> tb_capacity (tlb w tid)"
    using assms(1) by (auto simp: live_def elim: buf_okE)
  have "take n (drop i (blk_bytes k (tb_size (tlb w tid)))) = map (blk_mem k) [i..<i + n]"
    using assms(2) by (simp add: drop_blk_bytes take_map take_upt add.commute)
  then show ?thesis using assms(2) k by (simp add: peek_word_def buf_bytes_def)
qed

lemma drop_last_log:
  assumes "tracing w tid p" "n \<le> tb_size (tlb w tid)"
  shows "tracing (drop_last tid n w) tid p"
    and "buf_bytes (tlb (drop_last tid n w) tid) = take (tb_size (tlb w tid) - n) (buf_bytes (tlb w tid))"
    and "disk (drop_last tid n w) q = disk w q" "j \<noteq> tid \<Longrightarrow> tlb (drop_last tid n w) j = tlb w j"
    and "w_os (drop_last tid n w) = w_os w"
proof -
  have live: "live w tid p" using assms(1) by (simp add: tracing_def)
  then show "tracing (drop_last tid n w) tid p"
    using assms by (auto simp: tracing_def drop_last_def upd_tlb_def live_def buf_ok_def split: option.splits)
  show "buf_bytes (tlb (drop_last tid n w) tid) = take (tb_size (tlb w tid) - n) (buf_bytes (tlb w tid))"
    using live by (auto simp: live_def drop_last_def upd_tlb_def buf_bytes_def take_blk_bytes elim!: buf_okE)
qed (simp_all add: drop_last_def upd_tlb_def)

lemma ready_drop_last [simp]: "ready (drop_last tid n w) = ready w"
  by (simp add: drop_last_def upd_tlb_def)

lemma kept_drop_last: "kept tid p w (drop_last tid n w)"
  by (simp add: drop_last_def upd_tlb_def quiet_kept quiet_set_tlb)

text \<open>
  Before a lock or unlock event the handler may take back a one-byte read. It never faults,
  and it takes back nothing or exactly the last fourteen bytes of the buffer.
\<close>

definition takes_back :: "TLBuffer \<Rightarrow> u64 \<Rightarrow> bool" where
  "takes_back b m \<longleftrightarrow> 14 \<le> tb_size b \<and> buf_bytes b ! (tb_size b - 14) = 8
     \<and> le_word (take 8 (drop (tb_size b - 8) (buf_bytes b))) AND 0x0000ffffffffffff = m"

lemma reset_read_cases:
  assumes "tracing w tid p"
  obtains "\<not> takes_back (tlb w tid) m" "reset_read tid m w = Inr w"
  | s where "takes_back (tlb w tid) m" "reset_read tid m w = Inr ((drop_last tid 14 w)\<lparr>w_stat := s\<rparr>)"
proof -
  have live: "live w tid p" using assms by (simp add: tracing_def)
  let ?b = "tlb w tid"
  show thesis
  proof (cases "takes_back ?b m")
    case tb: True
    then have True: "14 \<le> tb_size ?b" "buf_bytes ?b ! (tb_size ?b - 14) = 8"
      "le_word (take 8 (drop (tb_size ?b - 8) (buf_bytes ?b))) AND 0x0000ffffffffffff = m"
      by (simp_all add: takes_back_def)
    have "tracing (drop_last tid 14 w) tid p" using drop_last_log(1) [OF assms] True by simp
    then have "reset_read tid m w = Inr ((drop_last tid 14 w)\<lparr>w_stat := (w_stat (drop_last tid 14 w))
        (tid := (\<lambda>s. s\<lparr>c_read := (c_read s)(0 := c_read s 0 - 1)\<rparr>) (w_stat (drop_last tid 14 w) tid))\<rparr>)"
      using True peek_ok [OF live, of "tb_size ?b - 14"] peek_word_ok [OF live, of "tb_size ?b - 8" 8]
      by (simp add: reset_read_def bump_tracing)
    then show ?thesis using that(2) tb by blast
  next
    case nt: False
    have "reset_read tid m w = Inr w"
    proof (cases "14 \<le> tb_size ?b")
      case True
      then have "tb_size ?b - 14 + 6 = tb_size ?b - 8" by simp
      with True nt show ?thesis
        using peek_ok [OF live, of "tb_size ?b - 14"] peek_word_ok [OF live, of "tb_size ?b - 8" 8]
        by (auto simp: reset_read_def takes_back_def Let_def)
    qed (simp add: reset_read_def)
    with nt show ?thesis by (rule that(1))
  qed
qed

text \<open>A lock or unlock event is stored; at most the last stored read is taken back before.\<close>

definition logs_after_drop :: "nat \<Rightarrow> string \<Rightarrow> nat \<Rightarrow> byte list \<Rightarrow> world \<Rightarrow> world res \<Rightarrow> bool" where
  "logs_after_drop tid p n bs w r \<longleftrightarrow>
     (case r of Inl f \<Rightarrow> f = MustWait \<and> \<not> ready w
      | Inr w' \<Rightarrow> live w' tid p \<and> sys_ok w'
          \<and> tlog w' tid p = take (length (tlog w tid p) - n) (tlog w tid p) @ bs \<and> kept tid p w w')"

lemma logs_after_drop_0: "logs tid p bs w r \<Longrightarrow> logs_after_drop tid p 0 bs w r"
  by (cases r) (auto simp: logs_def logs_after_drop_def)

lemma tlog_drop_last:
  assumes "tracing w tid p" "n \<le> tb_size (tlb w tid)"
  shows "tlog (drop_last tid n w) tid p = take (length (tlog w tid p) - n) (tlog w tid p)"
proof -
  have "length (buf_bytes (tlb w tid)) = tb_size (tlb w tid)"
    using assms(1) length_buf_bytes by (auto simp: tracing_def)
  then show ?thesis using drop_last_log(2,3) [OF assms] assms(2) by (simp add: tlog_def)
qed

lemma put_drop_logs:
  assumes "tracing w tid p" "n \<le> tb_size (tlb w tid)"
  shows "logs_after_drop tid p n (encode e) w (put_event tid e ((drop_last tid n w)\<lparr>w_stat := s\<rparr>))"
proof -
  let ?w = "drop_last tid n w"
  have "logs tid p (encode e) ?w (put_event tid e (?w\<lparr>w_stat := s\<rparr>))"
    using put_stat_logs [OF drop_last_log(1) [OF assms]] .
  then show ?thesis
    using tlog_drop_last [OF assms] kept_trans [OF kept_drop_last] ready_drop_last [of tid n w]
    by (cases "put_event tid e (?w\<lparr>w_stat := s\<rparr>)") (auto simp: logs_def logs_after_drop_def)
qed

lemma reset_read_stat_logs:
  assumes "tracing w tid p"
  shows "logs_after_drop tid p (if takes_back (tlb w tid) m then 14 else 0) (encode e) w
           (rbind (reset_read tid m (w\<lparr>w_stat := s\<rparr>)) (put_event tid e))"
proof -
  let ?w = "w\<lparr>w_stat := s\<rparr>"
  have tr: "tracing ?w tid p" using assms by simp
  have same: "logs_after_drop tid p n bs ?w r = logs_after_drop tid p n bs w r" for n bs r
    by (cases r) (simp_all add: logs_after_drop_def)
  from tr show ?thesis
  proof (cases rule: reset_read_cases [where m = m])
    case 1
    then show ?thesis
      using logs_after_drop_0 [OF put_event_logs [OF tr]] same by (simp del: encode.simps)
  next
    case (2 s')
    then show ?thesis
      using put_drop_logs [OF tr, of 14 e s'] same by (simp add: takes_back_def del: encode.simps)
  qed
qed

lemma lock_logs:
  assumes "tracing w tid p"
  shows "logs_after_drop tid p (if takes_back (tlb w tid) m then 14 else 0) (encode (LockEvent m pc)) w
           (impl_mtx_lock tid pc m w)"
    and "logs_after_drop tid p (if takes_back (tlb w tid) m then 14 else 0) (encode (UnlockEvent m pc)) w
           (impl_mtx_unlock tid pc m w)"
  using assms reset_read_stat_logs [OF assms]
  by (simp_all add: impl_mtx_lock_def impl_mtx_unlock_def bump_tracing del: encode.simps)

text \<open>
  Leaving a function takes back the entry event if nothing was stored since and the byte
  seven before the end is the code of such an event.
\<close>

definition empty_call :: "TLBuffer \<Rightarrow> bool" where
  "empty_call b \<longleftrightarrow> 7 \<le> tb_size b \<and> e_counter b = last_fe b \<and> buf_bytes b ! (tb_size b - 7) = type_code EnterFunc"

lemma exit_logs:
  assumes "tracing w tid p"
  shows "if empty_call (tlb w tid) then logs_after_drop tid p 7 [] w (impl_exit_func tid w)
         else logs tid p (encode FuncExitEvent) w (impl_exit_func tid w)"
proof -
  have live: "live w tid p" using assms by (simp add: tracing_def)
  show ?thesis
  proof (cases "empty_call (tlb w tid)")
    case True
    then have b: "7 \<le> tb_size (tlb w tid)" "e_counter (tlb w tid) = last_fe (tlb w tid)"
      "peek (tlb w tid) (tb_size (tlb w tid) - 7) = Inr (type_code EnterFunc)"
      using peek_ok [OF live, of "tb_size (tlb w tid) - 7"] by (simp_all add: empty_call_def)
    then have "impl_exit_func tid w = Inr (drop_last tid 7 w)"
      using assms by (simp add: impl_exit_func_def tracing_at Let_def)
    moreover have "tracing (drop_last tid 7 w) tid p" using drop_last_log(1) [OF assms b(1)] .
    ultimately show ?thesis
      using True tlog_drop_last [OF assms b(1)] kept_drop_last
      by (simp add: logs_after_drop_def tracing_def)
  next
    case False
    then have "impl_exit_func tid w = put_event tid FuncExitEvent w"
      using assms peek_ok [OF live, of "tb_size (tlb w tid) - 7"]
      by (auto simp: impl_exit_func_def tracing_at Let_def empty_call_def)
    then show ?thesis using False put_event_logs [OF assms, of FuncExitEvent] by simp
  qed
qed

section \<open>The read that is not taken back\<close>

text \<open>
  The comparison reads eight bytes at offset 6 of the stored event, where the address ended
  when events still carried an index. The address starts at offset 1 now, so the bytes
  compared with the mutex are mostly those of the program counter.
\<close>

lemma reset_read_bits:
  assumes "le_word (x # le_bytes 6 pc @ [v]) AND 0x0000ffffffffffff = m"
  shows "take_bit 40 pc = take_bit 40 (drop_bit 8 m)"
proof (rule bit_word_eqI)
  fix i assume "i < LENGTH(64)"
  let ?bs = "x # le_bytes 6 pc @ [v]"
  have mask: "(0x0000ffffffffffff :: u64) = mask 48" by (simp add: mask_eq_exp_minus_1)
  have "bit m (i + 8) = bit pc i" if i: "i < 40"
  proof -
    have "bit m (i + 8) = bit (le_word ?bs) (i + 8)"
      unfolding assms [symmetric] mask using i by (simp add: bit_and_iff bit_mask_iff)
    also have "\<dots> = bit (?bs ! (Suc (i div 8))) (i mod 8)"
      using i div_add_self2 [of 8 i] by (simp add: bit_le_word del: le_word.simps)
    also have "?bs ! (Suc (i div 8)) = ucast (drop_bit (8 * (i div 8)) pc)"
      using i less_mult_imp_div_less [of i 6 8] by (simp add: nth_append nth_le_bytes)
    also have "bit (ucast (drop_bit (8 * (i div 8)) pc) :: byte) (i mod 8) = bit pc (8 * (i div 8) + i mod 8)"
      by (simp add: bit_ucast_iff bit_drop_bit_eq)
    finally show ?thesis by simp
  qed
  then show "bit (take_bit 40 pc) i = bit (take_bit 40 (drop_bit 8 m)) i"
    by (auto simp: bit_take_bit_iff bit_drop_bit_eq add.commute)
qed

lemma reset_read_misses_aux:
  assumes "tracing w tid p" "buf_bytes (tlb w tid) = xs @ encode (MemAccEvent False 0 m pc) @ [v]"
    and "take_bit 40 pc \<noteq> take_bit 40 (drop_bit 8 m)"
  shows "reset_read tid m w = Inr w"
proof -
  have live: "live w tid p" using assms(1) by (simp add: tracing_def)
  have sz: "tb_size (tlb w tid) = length xs + 14" using length_buf_bytes [OF live] assms(2) by simp
  define hd6 where "hd6 = mem_acc_type False 0 # take 5 (le_bytes 6 m)"
  have "le_bytes 6 m = take 5 (le_bytes 6 m) @ [le_bytes 6 m ! 5]"
    using take_Suc_conv_app_nth [of 5 "le_bytes 6 m"] by simp
  then have "encode (MemAccEvent False 0 m pc) = hd6 @ (le_bytes 6 m ! 5) # le_bytes 6 pc"
    by (simp add: MemAccEvent_bytes_def hd6_def)
  then have "drop (length xs + 6) (buf_bytes (tlb w tid)) = (le_bytes 6 m ! 5) # le_bytes 6 pc @ [v]"
    using assms(2) by (simp add: hd6_def)
  then have "peek_word (tlb w tid) (length xs + 6) 8 = Inr (le_word ((le_bytes 6 m ! 5) # le_bytes 6 pc @ [v]))"
    using peek_word_ok [OF live, of "length xs + 6" 8] sz by simp
  moreover have "peek (tlb w tid) (length xs) = Inr (buf_bytes (tlb w tid) ! length xs)"
    using peek_ok [OF live, of "length xs"] sz by simp
  ultimately show ?thesis
    using assms(3) reset_read_bits [of "le_bytes 6 m ! 5" pc v m] sz
    by (auto simp: reset_read_def Let_def simp del: le_word.simps)
qed

section \<open>Empty calls\<close>

text \<open>Entering and leaving a function with no event in between leaves no trace.\<close>

lemma enter_exit_aux:
  assumes "tracing w tid p" "ready w"
  shows "\<exists>w1 w2. impl_enter_func tid pc w = Inr w1 \<and> tlog w1 tid p = tlog w tid p @ encode (FuncEntryEvent pc)
    \<and> impl_exit_func tid w1 = Inr w2 \<and> tlog w2 tid p = tlog w tid p \<and> live w2 tid p"
proof -
  define w0 where "w0 = w\<lparr>w_stat := (w_stat w)(tid := (w_stat w tid)\<lparr>c_func_call := c_func_call (w_stat w tid) + 1\<rparr>)\<rparr>"
  have st: "bump tid (\<lambda>s. s\<lparr>c_func_call := c_func_call s + 1\<rparr>) w = Inr w0"
    using assms by (simp add: bump_tracing w0_def)
  have w0: "tracing w0 tid p" "tlog w0 tid p = tlog w tid p" "ready w0" using assms by (auto simp: w0_def)
  obtain w' xs where w': "put_event tid (FuncEntryEvent pc) w0 = Inr w'" "live w' tid p"
    "tlog w' tid p = tlog w0 tid p @ encode (FuncEntryEvent pc)"
    "buf_bytes (tlb w' tid) = xs @ encode (FuncEntryEvent pc)" "quiet tid p w0 w'"
    using put_event_log [of w0 tid p "FuncEntryEvent pc"] w0 unfolding tracing_def by blast
  define w1 where "w1 = upd_tlb tid (\<lambda>b. b\<lparr>last_fe := e_counter b\<rparr>) w'"
  have en: "impl_enter_func tid pc w = Inr w1"
    using st w0 w'(1) by (simp add: impl_enter_func_def tracing_at w1_def)
  have b1: "buf_bytes (tlb w1 tid) = xs @ encode (FuncEntryEvent pc)" "last_fe (tlb w1 tid) = e_counter (tlb w1 tid)"
    using w'(4) by (simp_all add: w1_def upd_tlb_def buf_bytes_def split: option.splits)
  have live1: "live w1 tid p" using w'(2) by (auto simp: w1_def upd_tlb_def live_def buf_ok_def split: option.splits)
  have sz: "tb_size (tlb w1 tid) = length xs + 7" using length_buf_bytes [OF live1] b1(1) by simp
  have t1: "tlog w1 tid p = tlog w tid p @ encode (FuncEntryEvent pc)"
    using w'(3,4) w0(2) b1(1) by (simp add: tlog_def w1_def upd_tlb_def)
  have "peek (tlb w1 tid) (length xs) = Inr (type_code EnterFunc)"
    using peek_ok [OF live1, of "length xs"] b1(1) sz by (simp add: FuncEntryEvent_bytes_def)
  moreover have "w_tlbufs_ok w1" "tid < MAX_THREAD"
    using w'(5) w0(1) by (simp_all add: w1_def upd_tlb_def quiet_def same_env_def tracing_def)
  ultimately have ex: "impl_exit_func tid w1 = Inr (drop_last tid 7 w1)"
    using sz b1(2) by (simp add: impl_exit_func_def Let_def)
  have "buf_bytes (tlb (drop_last tid 7 w1) tid) = xs"
    using live1 b1(1) sz
    by (auto simp: live_def drop_last_def upd_tlb_def buf_bytes_def elim!: buf_okE)
       (metis add_diff_cancel_right' append_eq_conv_conj diff_le_self length_blk_bytes take_blk_bytes)
  moreover have "live (drop_last tid 7 w1) tid p"
    using live1 by (auto simp: live_def drop_last_def upd_tlb_def buf_ok_def split: option.splits)
  moreover have "disk (drop_last tid 7 w1) p = disk w1 p" by (simp add: drop_last_def upd_tlb_def)
  ultimately show ?thesis
    using en ex t1 b1(1) by (auto simp: tlog_def simp del: encode.simps)
qed

section \<open>Thread end\<close>

text \<open>
  A thread that ends stores its end event and finishes its buffer. If none of its earlier
  chunks is still queued, the file then holds the whole log.
\<close>

lemma thread_end_aux:
  assumes "tracing w tid p"
    and "\<not> use_io_q (w_ctx w) \<or> queued w = [] \<and> tb_size (tlb w tid) + 7 < tb_capacity (tlb w tid)"
  shows "\<exists>w'. impl_thread_end tid w = Inr w' \<and> file_bytes (w_os w') p = tlog w tid p @ encode (ThreadEndEvent 0 (elapsed w))
    \<and> tb_buf (tlb w' tid) = None \<and> fd_path (w_os w') (tb_fd (tlb w' tid)) = None"
proof -
  let ?e = "ThreadEndEvent 0 (elapsed w)"
  have lv: "live w tid p" "sys_ok w" using assms(1) by (simp_all add: tracing_def)
  have "\<exists>w1. put_event tid ?e w = Inr w1 \<and> live w1 tid p \<and> sys_ok w1 \<and> queued w1 = []
      \<and> tlog w1 tid p = tlog w tid p @ encode ?e"
  proof (cases "use_io_q (w_ctx w)")
    case True
    then have fits: "tb_size (tlb w tid) + length (encode ?e) < tb_capacity (tlb w tid)" "queued w = []"
      using assms(2) by auto
    obtain w1 where w1: "put_event tid ?e w = Inr w1" "live w1 tid p" "sys_ok w1" "quiet tid p w w1"
      "tlog w1 tid p = tlog w tid p @ encode ?e" "w_queue w1 = w_queue w"
      using put_event_room [OF lv(1) fits(1)] lv(2) by blast
    have "w_ctx w1 = w_ctx w" using w1(4) by (simp add: quiet_def same_env_def)
    then have "queued w1 = queued w" using w1(6) by (simp add: queued_def)
    then show ?thesis using w1 \<open>queued w = []\<close> by auto
  next
    case False
    then have "ready w" by (simp add: ready_def)
    then obtain w1 where w1: "put_event tid ?e w = Inr w1" "live w1 tid p" "sys_ok w1" "quiet tid p w w1"
      "tlog w1 tid p = tlog w tid p @ encode ?e"
      using put_event_log [OF lv] by blast
    have "w_ctx w1 = w_ctx w" using w1(4) by (simp add: quiet_def same_env_def)
    then have "queued w1 = []" using False by (simp add: queued_def)
    then show ?thesis using w1 by auto
  qed
  then obtain w1 where w1: "put_event tid ?e w = Inr w1" "live w1 tid p" "sys_ok w1" "queued w1 = []"
    "tlog w1 tid p = tlog w tid p @ encode ?e" by blast
  obtain w' where "finish tid w1 = Inr w'" "file_bytes (w_os w') p = tlog w1 tid p"
    "tb_buf (tlb w' tid) = None" "fd_path (w_os w') (tb_fd (tlb w' tid)) = None"
    using finish_log [OF w1(2) sys_ok_plain [OF w1(3)] w1(4)] by blast
  then show ?thesis
    using w1(1,5) assms(1) by (simp add: impl_thread_end_def tracing_at del: encode.simps)
qed

text \<open>
  If a chunk of the thread is still queued when it ends, the end handler writes the rest of
  the buffer first and closes the file; the writer thread then finds a closed descriptor
  and the queued chunk never reaches the file.
\<close>

lemma thread_end_loses_aux:
  assumes "tracing w tid p" "use_io_q (w_ctx w)" "w_queue w = Some q" "q_content q = [t]"
    and "wt_fd t = tb_fd (tlb w tid)" "tb_size (tlb w tid) + 7 < tb_capacity (tlb w tid)"
  shows "\<exists>w' w''. impl_thread_end tid w = Inr w' \<and> work_round w' = Inr w'' \<and> queued w'' = []
    \<and> tlog w tid p = file_bytes (w_os w) p @ task_bytes t @ buf_bytes (tlb w tid)
    \<and> file_bytes (w_os w'') p = file_bytes (w_os w) p @ buf_bytes (tlb w tid) @ encode (ThreadEndEvent 0 (elapsed w))"
proof -
  let ?e = "ThreadEndEvent 0 (elapsed w)"
  have fits: "tb_size (tlb w tid) + length (encode ?e) < tb_capacity (tlb w tid)" using assms(6) by simp
  have lv: "live w tid p" "sys_ok w" using assms(1) by (simp_all add: tracing_def)
  obtain w1 where w1: "put_event tid ?e w = Inr w1" "live w1 tid p" "sys_ok w1" "quiet tid p w w1"
    "buf_bytes (tlb w1 tid) = buf_bytes (tlb w tid) @ encode ?e" "w_queue w1 = w_queue w" "w_os w1 = w_os w"
    "tb_rest (tlb w1 tid) = tb_rest (tlb w tid)"
    using put_event_room [OF lv(1) fits] lv(2) by blast
  have c1: "w_ctx w1 = w_ctx w" "tb_fd (tlb w1 tid) = tb_fd (tlb w tid)"
    using w1(4,8) by (simp_all add: quiet_def same_env_def tb_rest_def)
  obtain w' where w': "finish tid w1 = Inr w'" "sys_ok w'" "w_queue w' = Some q" "w_ctx w' = w_ctx w"
    "fd_path (w_os w') (tb_fd (tlb w tid)) = None" "file_bytes (w_os w') p = file_bytes (w_os w) p @ buf_bytes (tlb w1 tid)"
    using finish_os [OF w1(2) sys_ok_plain [OF w1(3)]] w1(3,6,7) c1 assms(3) by (auto simp: sys_ok_def)
  have q: "q_ok q" "\<not> is_empty q"
    using lv(2) assms(2-4) by (auto simp: sys_ok_def queue_ok_def q_ok_def q_empty_iff)
  obtain q' where q': "work_round w' = Inr ((os_write (wt_fd (q_front q)) (task_bytes (q_front q)) w')\<lparr>w_queue := Some q'\<rparr>)"
    "q_content q = q_front q # q_content q'"
    using work_round_log [OF w'(3) q] w'(2) by (auto simp: sys_ok_def plain_io_def)
  have fr: "q_front q = t" "q_content q' = []" using q'(2) assms(4) by auto
  have "w_os (os_write (wt_fd t) (task_bytes t) w') = w_os w'" using w'(5) assms(5) by (simp add: os_write_def)
  moreover have "tlog w tid p = file_bytes (w_os w) p @ task_bytes t @ buf_bytes (tlb w tid)"
    using assms lv(1) by (simp add: tlog_def disk_def queued_def live_def)
  ultimately show ?thesis
    using w1 w' q' fr assms(1) by (auto simp: impl_thread_end_def tracing_at queued_def simp del: encode.simps)
qed

section \<open>Properties\<close>

lemma demo_tracing: "n \<le> 64 \<Longrightarrow> k < 2 \<Longrightarrow> m \<le> 64 \<Longrightarrow> tracing (demo_world asyn hdr n (demo_queue k m)) 0 ''t/0''"
  using demo_live demo_sys_ok by (simp add: tracing_def MAX_THREAD_def)

text \<open>
  C14. The four memory access handlers. \<^verbatim>\<open>ns_mem_acc\<close>, the default, and \<^verbatim>\<open>ns_mem_acc_nv\<close> leave the trace as it
  is if the address lies in the thread's stack or thread-local area; otherwise they append the access event, the
  former followed by the bytes at the address. \<^verbatim>\<open>impl_mem_acc_nv\<close> appends the event of every access.
  \<^verbatim>\<open>impl_mem_acc\<close> appends the event and the bytes of every access, unless the event fits into the
  buffer and the bytes behind it do not. None of them writes outside the buffer, and each blocks only
  if it has to flush into a full queue.
\<close>

theorem mem_access_recorded:
  assumes "tracing w tid p" "lg \<le> 3"
  shows "logs tid p (if in_stack (tlb w tid) addr \<or> in_tls (tlb w tid) addr then []
                     else encode (MemAccEvent isw lg addr pc) @ mem_bytes w addr (2 ^ lg)) w
           (ns_mem_acc tid pc addr lg isw w)
    \<and> logs tid p (if in_stack (tlb w tid) addr \<or> in_tls (tlb w tid) addr then [] else encode (MemAccEvent isw lg addr pc)) w
           (ns_mem_acc_nv tid pc addr lg isw w)
    \<and> logs tid p (encode (MemAccEvent isw lg addr pc)) w (impl_mem_acc_nv tid pc addr lg isw w)
    \<and> ((tb_size (tlb w tid) + 13 < tb_capacity (tlb w tid) \<longrightarrow> tb_size (tlb w tid) + 13 + 2 ^ lg \<le> tb_capacity (tlb w tid)) \<longrightarrow>
        logs tid p (encode (MemAccEvent isw lg addr pc) @ mem_bytes w addr (2 ^ lg)) w (impl_mem_acc tid pc addr lg isw w))"
  using assms by (intro conjI impI ns_mem_acc_logs ns_logs(1) simple_logs(7) impl_mem_acc_logs) blast+

theorem mem_access_recorded_witness:
  "logs 0 ''t/0'' (encode (MemAccEvent True 2 100 9) @ [7, 7, 7, 7]) (demo_world True [] 50 (demo_queue 0 0))
     (ns_mem_acc 0 9 100 2 True (demo_world True [] 50 (demo_queue 0 0)))
   \<and> logs 0 ''t/0'' (encode (MemAccEvent True 2 100 9)) (demo_world True [] 50 (demo_queue 0 0))
     (ns_mem_acc_nv 0 9 100 2 True (demo_world True [] 50 (demo_queue 0 0)))
   \<and> logs 0 ''t/0'' (encode (MemAccEvent True 2 100 9) @ [7, 7, 7, 7]) (demo_world True [] 60 (demo_queue 0 0))
     (impl_mem_acc 0 9 100 2 True (demo_world True [] 60 (demo_queue 0 0)))"
proof -
  have st: "\<not> in_stack (tlb (demo_world True [] n (demo_queue 0 0)) 0) 100"
    "\<not> in_tls (tlb (demo_world True [] n (demo_queue 0 0)) 0) 100" for n
    by (simp_all add: in_stack_def in_tls_def demo_buf_def)
  have mb: "mem_bytes (demo_world True [] n (demo_queue 0 0)) 100 (2 ^ 2) = [7, 7, 7, 7]" for n
    by (simp add: mem_bytes_def upt_rec)
  have full: "\<not> tb_size (tlb (demo_world True [] 60 (demo_queue 0 0)) 0) + 13 < tb_capacity (tlb (demo_world True [] 60 (demo_queue 0 0)) 0)"
    by (simp add: demo_buf_def)
  show ?thesis
    using mem_access_recorded [of "demo_world True [] 50 (demo_queue 0 0)" 0 "''t/0''" 2 100 True 9]
      mem_access_recorded [of "demo_world True [] 60 (demo_queue 0 0)" 0 "''t/0''" 2 100 True 9]
      demo_tracing [of 50 0 0] demo_tracing [of 60 0 0] st mb full by simp
qed

text \<open>
  C15. \<^verbatim>\<open>impl_mtx_lock\<close> and \<^verbatim>\<open>impl_mtx_unlock\<close> append their event to the trace; before that they take back
  the last fourteen bytes exactly if \<open>takes_back\<close> recognises a one-byte read of the mutex there.
\<close>

theorem lock_unlock_recorded:
  assumes "tracing w tid p"
  shows "logs_after_drop tid p (if takes_back (tlb w tid) m then 14 else 0) (encode (LockEvent m pc)) w
           (impl_mtx_lock tid pc m w)
    \<and> logs_after_drop tid p (if takes_back (tlb w tid) m then 14 else 0) (encode (UnlockEvent m pc)) w
           (impl_mtx_unlock tid pc m w)"
  using lock_logs [OF assms] by blast

theorem lock_unlock_recorded_witness:
  "logs_after_drop 0 ''t/0'' 0 (encode (LockEvent 5 6)) (demo_world False [] 20 (demo_queue 0 0))
     (impl_mtx_lock 0 6 5 (demo_world False [] 20 (demo_queue 0 0)))"
proof -
  let ?w = "demo_world False [] 20 (demo_queue 0 0)"
  have "\<not> takes_back (tlb ?w 0) 5" by (simp add: takes_back_def demo_buf_bytes) (simp add: demo_buf_def)
  then show ?thesis using lock_unlock_recorded [of ?w 0 "''t/0''" 5 6] demo_tracing [of 20 0 0] by simp
qed

text \<open>
  C16. The condition-variable, allocation, join, function entry, pointer and range access handlers each append exactly their
  event to the trace of the calling thread; the ordered ones carry the value of the global
  counter after its increment.
\<close>

theorem other_events_recorded:
  assumes "tracing w tid p"
  shows "logs tid p (encode (ThrCondWaitEvent (e_count (w_ctx w) + 1) c m pc)) w (impl_cond_wait tid pc c m w)
    \<and> logs tid p (encode (ThrCondSignalEvent (e_count (w_ctx w) + 1) c pc)) w (impl_cond_signal tid pc c w)
    \<and> logs tid p (encode (ThrCondBCEvent (e_count (w_ctx w) + 1) c pc)) w (impl_cond_broadcast tid pc c w)
    \<and> logs tid p (encode (AllocEvent a pc (ucast sz))) w (rbind (impl_alloc tid pc a sz w) (\<lambda>(_, w). Inr w))
    \<and> logs tid p (encode (DeallocEvent a pc (ucast sz))) w (impl_dealloc tid pc a sz w)
    \<and> logs tid p (encode (JoinThreadEvent (e_count (w_ctx w) + 1) (of_nat kid) (elapsed w) pc)) w (impl_thread_join tid kid pc w)
    \<and> logs tid p (encode (PtrAssignEvent a b)) w (impl_ptr_prop tid pc a b w)
    \<and> logs tid p (encode (PtrDeRefEvent a)) w (impl_ptr_deref tid pc a w)
    \<and> logs tid p (encode (FuncEntryEvent pc)) w (impl_enter_func tid pc w)
    \<and> logs tid p (encode (MemRangeAccEvent isw a pc (ucast sz))) w (impl_mem_range_acc tid pc a sz isw w)"
  by (intro conjI cond_logs [OF assms] simple_logs [OF assms] enter_logs [OF assms])

theorem other_events_recorded_witness:
  "logs 0 ''t/0'' (encode (ThrCondWaitEvent 1 8 9 6)) (demo_world True [] 62 (demo_queue 1 3))
     (impl_cond_wait 0 6 8 9 (demo_world True [] 62 (demo_queue 1 3)))"
proof -
  have "e_count (w_ctx (demo_world True [] 62 (demo_queue 1 3))) + 1 = 1" by (simp add: demo_ctx_def)
  then show ?thesis
    using other_events_recorded [OF demo_tracing [of 62 1 3 True "[]"], THEN conjunct1, of 8 9 6] by simp
qed

text \<open>
  C17. Entering a function and leaving it again with no event in between leaves the trace as it was:
  \<^verbatim>\<open>impl_exit_func\<close> takes back the entry event that \<^verbatim>\<open>impl_enter_func\<close> stored, even if storing it
  flushed the buffer.
\<close>

theorem empty_call_leaves_no_trace:
  assumes "tracing w tid p" "ready w"
  shows "\<exists>w1 w2. impl_enter_func tid pc w = Inr w1 \<and> tlog w1 tid p = tlog w tid p @ encode (FuncEntryEvent pc)
    \<and> impl_exit_func tid w1 = Inr w2 \<and> tlog w2 tid p = tlog w tid p \<and> live w2 tid p"
  using assms by (rule enter_exit_aux)

theorem empty_call_leaves_no_trace_witness:
  "\<exists>w1 w2. impl_enter_func 0 9 (demo_world True [] 60 (demo_queue 0 0)) = Inr w1 \<and> impl_exit_func 0 w1 = Inr w2
    \<and> tlog w2 0 ''t/0'' = tlog (demo_world True [] 60 (demo_queue 0 0)) 0 ''t/0''"
  using empty_call_leaves_no_trace [OF demo_tracing [of 60 0 0 True "[]"], of 9] demo_ready by auto

text \<open>
  C18. When a thread ends and either no output queue is used, or the queue is empty and the buffer has
  room for the end event (its seven bytes do not reach the capacity), \<^verbatim>\<open>impl_thread_end\<close> leaves the
  complete trace followed by the end event in the file, releases the buffer and closes the file.
\<close>

theorem thread_end_completes_file:
  assumes "tracing w tid p"
    and "\<not> use_io_q (w_ctx w) \<or> queued w = [] \<and> tb_size (tlb w tid) + 7 < tb_capacity (tlb w tid)"
  shows "\<exists>w'. impl_thread_end tid w = Inr w' \<and> file_bytes (w_os w') p = tlog w tid p @ encode (ThreadEndEvent 0 (elapsed w))
    \<and> tb_buf (tlb w' tid) = None \<and> fd_path (w_os w') (tb_fd (tlb w' tid)) = None"
  using assms by (rule thread_end_aux)

theorem thread_end_completes_file_witness:
  "\<exists>w'. impl_thread_end 0 (demo_world False [1] 2 (demo_queue 0 0)) = Inr w'
    \<and> file_bytes (w_os w') ''t/0'' = [1, 0, 0] @ encode (ThreadEndEvent 0 0)"
proof -
  let ?w = "demo_world False [1] 2 (demo_queue 0 0)"
  have "tlog ?w 0 ''t/0'' = [1, 0, 0]"
    by (simp add: tlog_def disk_def queued_def demo_ctx_def demo_buf_bytes file_bytes_def demo_os_def numeral_2_eq_2)
  moreover have "elapsed ?w = 0" by (simp add: elapsed_def get_time_ms_def demo_ctx_def demo_os_def)
  moreover have "\<not> use_io_q (w_ctx ?w)" by (simp add: demo_ctx_def)
  ultimately show ?thesis
    using thread_end_completes_file [OF demo_tracing [of 2 0 0 False "[1]"]] by auto
qed

text \<open>
  C36. If a chunk of the thread is still queued when the thread ends, the chunk is lost: the end
  handler writes the rest of the buffer and closes the file, and the writer thread later
  writes the queued chunk to a closed descriptor. The file then lacks the middle of the trace.
\<close>

theorem thread_end_loses_queued_chunk:
  assumes "tracing w tid p" "use_io_q (w_ctx w)" "w_queue w = Some q" "q_content q = [t]"
    and "wt_fd t = tb_fd (tlb w tid)" "tb_size (tlb w tid) + 7 < tb_capacity (tlb w tid)"
  shows "\<exists>w' w''. impl_thread_end tid w = Inr w' \<and> work_round w' = Inr w'' \<and> queued w'' = []
    \<and> tlog w tid p = file_bytes (w_os w) p @ task_bytes t @ buf_bytes (tlb w tid)
    \<and> file_bytes (w_os w'') p = file_bytes (w_os w) p @ buf_bytes (tlb w tid) @ encode (ThreadEndEvent 0 (elapsed w))"
  using assms by (rule thread_end_loses_aux)

theorem thread_end_loses_queued_chunk_witness:
  "\<exists>w' w''. impl_thread_end 0 (demo_world True [1] 2 (demo_queue 1 3)) = Inr w' \<and> work_round w' = Inr w''
    \<and> tlog (demo_world True [1] 2 (demo_queue 1 3)) 0 ''t/0'' = [1, 5, 5, 5, 0, 0]
    \<and> file_bytes (w_os w'') ''t/0'' = [1, 0, 0] @ encode (ThreadEndEvent 0 0)"
proof -
  let ?w = "demo_world True [1] 2 (demo_queue 1 3)"
  have c: "q_content (demo_queue 1 3) = [demo_task 3]" by (simp add: q_content_def demo_queue_def q_span_def)
  have bb: "buf_bytes (tlb ?w 0) = [0, 0]" using demo_buf_bytes [of 2] by (simp add: numeral_2_eq_2)
  have b: "task_bytes (demo_task 3) = [5, 5, 5]" "file_bytes (w_os ?w) ''t/0'' = [1]"
    "elapsed ?w = 0" "wt_fd (demo_task 3) = tb_fd (tlb ?w 0)" "use_io_q (w_ctx ?w)"
    by (simp_all add: task_bytes_def demo_task_def blk_bytes_def numeral_3_eq_3 file_bytes_def demo_os_def
        elapsed_def get_time_ms_def demo_ctx_def demo_buf_def)
  have room: "tb_size (tlb ?w 0) + 7 < tb_capacity (tlb ?w 0)" "w_queue ?w = Some (demo_queue 1 3)" by (simp_all add: demo_buf_def)
  have tr: "tracing ?w 0 ''t/0''" by (rule demo_tracing) simp_all
  show ?thesis
    using thread_end_loses_queued_chunk [OF tr b(5) room(2) c b(4) room(1)] unfolding b bb by auto
qed

text \<open>
  C38. \<^verbatim>\<open>impl_mem_acc\<close>, the handler used when stack accesses are to be recorded (\<^verbatim>\<open>UFO_NO_STACK=0\<close>), only
  makes room for the event: if the event fits into the buffer and the value behind it does
  not, the handler writes past the end of the buffer.
\<close>

theorem impl_mem_acc_overflows:
  assumes "tracing w tid p" "tb_size (tlb w tid) + 13 < tb_capacity (tlb w tid)"
    and "tb_capacity (tlb w tid) < tb_size (tlb w tid) + 13 + 2 ^ lg"
  shows "impl_mem_acc tid pc addr lg isw w = Inl HeapOverflow"
  using assms by (rule impl_mem_acc_overflow_aux)

theorem impl_mem_acc_overflows_witness:
  "impl_mem_acc 0 9 100 3 True (demo_world False [] 50 (demo_queue 0 0)) = Inl HeapOverflow"
  by (rule impl_mem_acc_overflows [OF demo_tracing]) (simp_all add: demo_buf_def)

text \<open>
  C39. The read of a mutex word right before its lock event is not taken back although \<^verbatim>\<open>_reset_read\<close>
  is there for it: the comparison looks at offset 6 of the stored access, where mostly the
  program counter is, so unless 40 bits of program counter and mutex address agree, the read
  stays in the trace.
\<close>

theorem reset_read_misses_mutex_read:
  assumes "tracing w tid p" "buf_bytes (tlb w tid) = xs @ encode (MemAccEvent False 0 m pc) @ [v]"
    and "take_bit 40 pc \<noteq> take_bit 40 (drop_bit 8 m)"
  shows "reset_read tid m w = Inr w"
  using assms by (rule reset_read_misses_aux)

theorem reset_read_misses_mutex_read_witness:
  "\<exists>w'. put_event 0 (MemAccEvent False 0 0x1000 0x4005) (demo_world False [] 0 (demo_queue 0 0)) = Inr w' \<and>
    (\<exists>w2. store_value 0 0x1000 1 w' = Inr w2 \<and> reset_read 0 0x1000 w2 = Inr w2)"
proof -
  let ?w = "demo_world False [] 0 (demo_queue 0 0)" and ?e = "MemAccEvent False 0 0x1000 0x4005"
  have lv: "live ?w 0 ''t/0''" "sys_ok ?w" using demo_live demo_sys_ok by simp_all
  obtain w1 where w1: "put_event 0 ?e ?w = Inr w1" "live w1 0 ''t/0''" "sys_ok w1" "quiet 0 ''t/0'' ?w w1"
    "tb_size (tlb w1 0) = 13" "tb_capacity (tlb w1 0) = 64" "buf_bytes (tlb w1 0) = encode ?e"
    using put_event_room [OF lv(1), of ?e] lv(2) by (auto simp: demo_buf_def demo_buf_bytes [of 0, unfolded demo_buf_def])
  obtain k where k: "tb_buf (tlb w1 0) = Some k" "blk_len k = 64" using w1(2,6) by (auto simp: live_def elim: buf_okE)
  let ?w2 = "set_tlb 0 ((tlb w1 0)\<lparr>tb_buf := Some (blk_put k 13 [7]), tb_size := 14\<rparr>) w1"
  have m: "mem_bytes w1 0x1000 1 = [7]" using mem_bytes_quiet [OF w1(4), where addr = "0x1000" and n = 1] by (simp add: mem_bytes_def [where w = ?w])
  have st: "store_value 0 0x1000 1 w1 = Inr ?w2"
    using k w1(5) by (simp add: store_value_def m [simplified] poke_def blk_put_one upd_tlb_def)
  have "blk_bytes k 13 = encode ?e" using w1(5,7) k by (simp add: buf_bytes_def)
  then have bb: "buf_bytes (tlb ?w2 0) = [] @ encode ?e @ [7]" using blk_bytes_put [of k 13 "[7]"] by (simp add: buf_bytes_def)
  have "tracing ?w2 0 ''t/0''"
    using w1 k by (simp add: tracing_def live_def buf_ok_def quiet_def same_env_def roomy_def MAX_THREAD_def)
  then have "reset_read 0 0x1000 ?w2 = Inr ?w2"
    using bb by (rule reset_read_misses_mutex_read) (simp add: take_bit_eq_mod drop_bit_eq_div)
  then show ?thesis using w1(1) st by blast
qed

end
