(* ===== verification/Ufo_Context.thy ===== *)
theory Ufo_Context
  imports Ufo_Rtl
begin

text \<open>
  The runtime context (\<^verbatim>\<open>ufo.h\<close>, \<^verbatim>\<open>ufo.cc\<close>): reading the configuration from the environment,
  starting and stopping the tracing by exchanging the handler functions, initialisation,
  shutdown and the statistics files.
\<close>

section \<open>Configuration\<close>

definition GetEnv :: "world \<Rightarrow> string \<Rightarrow> string option" where
  "GetEnv w name = map_option (\<lambda>v. v @ [NUL]) (os_env (w_os w) name)"

definition get_int_opt :: "world \<Rightarrow> string \<Rightarrow> int \<Rightarrow> int res" where
  "get_int_opt w name default_val =
     (case GetEnv w name of
        None \<Rightarrow> Inr default_val
      | Some str_int \<Rightarrow>
          rbind (internal_strnlen str_int 40) (\<lambda>n.
            if n < 1 then Inr default_val else internal_atoll str_int))"

definition DEFAULT_BUF_PRE_THR :: int where "DEFAULT_BUF_PRE_THR = 128"
definition DEFAULT_MEM_THRESHOLD_1 :: int where "DEFAULT_MEM_THRESHOLD_1 = 128 * 80"
definition DEFAULT_MEM_THRESHOLD_2 :: int where "DEFAULT_MEM_THRESHOLD_2 = 128 * 120"
definition COMPRESS_ON :: int where "COMPRESS_ON = 0"
definition ASYNC_IO_ON :: int where "ASYNC_IO_ON = 1"
definition DEFAULT_IO_Q_SIZE :: int where "DEFAULT_IO_Q_SIZE = 4"
definition NO_STACK_ACC :: int where "NO_STACK_ACC = 1"
definition DEFAULT_TRACE_DIR :: string where "DEFAULT_TRACE_DIR = ''ufo_traces''"

definition MB :: u64 where "MB = 1024 * 1024"

text \<open>The sizes: \<^verbatim>\<open>UFO_TL_BUF\<close>, \<^verbatim>\<open>UFO_MEM_T1\<close>, \<^verbatim>\<open>UFO_MEM_T2\<close>.\<close>

definition config_sizes :: "world \<Rightarrow> UFOContext \<Rightarrow> UFOContext res" where
  "config_sizes w c =
     rbind (get_int_opt w ''UFO_TL_BUF'' DEFAULT_BUF_PRE_THR) (\<lambda>v.
       (let bufsz = (word_of_int v :: u64)
        in rbind (if 0 < bufsz \<and> bufsz < 4096
                  then Inr (c\<lparr>tl_buf_size := unat (ucast (bufsz * MB) :: u32)\<rparr>)
                  else Inl DieCalled) (\<lambda>c.
     rbind (get_int_opt w ''UFO_MEM_T1'' DEFAULT_MEM_THRESHOLD_1) (\<lambda>v.
       (let bufsz = (word_of_int v :: u64);
            c = c\<lparr>mem_t1 := (if 0 < bufsz \<and> bufsz < word_of_int (DEFAULT_MEM_THRESHOLD_1 * 100)
                             then bufsz * MB else word_of_int DEFAULT_MEM_THRESHOLD_1 * MB)\<rparr>
        in rbind (get_int_opt w ''UFO_MEM_T2'' DEFAULT_MEM_THRESHOLD_2) (\<lambda>v.
          (let bufsz = (word_of_int v :: u64)
           in Inr (c\<lparr>mem_t2 := (if mem_t1 c < bufsz * MB \<and> bufsz < word_of_int (DEFAULT_MEM_THRESHOLD_2 * 100)
                                then bufsz * MB else mem_t1 c * 3 div 2),
                     ratio_mem_x2 := 0, ratio_mem_x4 := 0\<rparr>))))))))"

text \<open>The switches, and the length of the output queue.\<close>

definition config_switches :: "world \<Rightarrow> UFOContext \<Rightarrow> UFOContext res" where
  "config_switches w c =
     rbind (get_int_opt w ''UFO_COMPRESS'' COMPRESS_ON) (\<lambda>use_comp.
     rbind (get_int_opt w ''UFO_ASYNC_IO'' ASYNC_IO_ON) (\<lambda>do_use_q.
     rbind (if do_use_q \<noteq> 0 then
              rbind (get_int_opt w ''UFO_IO_Q'' DEFAULT_IO_Q_SIZE) (\<lambda>io_q_sz.
                if 0 < io_q_sz \<and> io_q_sz < 1024 then Inr io_q_sz else Inl DieCalled)
            else Inr (out_queue_length c)) (\<lambda>qlen.
     rbind (get_int_opt w ''UFO_CALL'' 0) (\<lambda>do_trace_call.
     rbind (get_int_opt w ''UFO_PTR_PROP'' 0) (\<lambda>do_trace_ptr_prop.
       Inr (c\<lparr>use_compression := (use_comp \<noteq> 0), use_io_q := (do_use_q \<noteq> 0), out_queue_length := qlen,
              trace_func_call := (do_trace_call \<noteq> 0), trace_ptr_prop := (do_trace_ptr_prop \<noteq> 0)\<rparr>))))))"

text \<open>The trace directory: base name, underscore, process id.\<close>

definition dir_base :: "string \<Rightarrow> string option \<Rightarrow> string res" where
  "dir_base arr env_dir =
     rbind (internal_memset arr 0 NUL DIR_MAX_LEN) (\<lambda>dir.
       (case env_dir of
          None \<Rightarrow> internal_strncpy dir (DEFAULT_TRACE_DIR @ [NUL]) 100
        | Some e \<Rightarrow>
            rbind (internal_strnlen e DIR_MAX_LEN) (\<lambda>dir_len.
              if dir_len < 1 then internal_strncpy dir (DEFAULT_TRACE_DIR @ [NUL]) 100
              else internal_strncpy dir e (DIR_MAX_LEN - 45))))"

definition dir_underscore :: "string \<Rightarrow> string res" where
  "dir_underscore dir =
     rbind (internal_strnlen dir (DIR_MAX_LEN - 1)) (\<lambda>dir_len.
       if 0 < dir_len \<and> dir_len < DIR_MAX_LEN - 45 then
         rbind (rd dir (dir_len - 1)) (\<lambda>c.
           if c = CHR ''/'' then wr dir (dir_len - 1) (CHR ''_'')
           else rbind (wr dir dir_len (CHR ''_'')) (\<lambda>dir. wr dir (dir_len + 1) NUL))
       else Inr dir)"

definition dir_pid :: "u32 \<Rightarrow> string \<Rightarrow> string res" where
  "dir_pid pid dir =
     rbind (internal_snprintf 45 ''%u'' [VInt (uint pid)]) (\<lambda>(str_pid, _).
       internal_strncat dir (str_pid @ [NUL]) 45)"

definition read_config :: "world \<Rightarrow> UFOContext \<Rightarrow> UFOContext res" where
  "read_config w c =
     (let c = c\<lparr>tl_buf_size := 0, use_compression := False, use_io_q := False, out_queue_length := -1\<rparr>
      in rbind (get_int_opt w ''UFO_STAT'' 1) (\<lambda>v.
         rbind (config_sizes w (c\<lparr>do_print_stat := (v \<noteq> 0)\<rparr>)) (\<lambda>c.
         rbind (config_switches w c) (\<lambda>c.
         rbind (dir_base (trace_dir c) (GetEnv w ''UFO_TDIR'')) (\<lambda>dir.
         rbind (dir_underscore dir) (\<lambda>dir.
         rbind (dir_pid (cur_pid c) dir) (\<lambda>dir. Inr (c\<lparr>trace_dir := dir\<rparr>))))))))"

section \<open>Starting and stopping the tracing\<close>

definition nop_fns :: fns where
  "nop_fns =
     \<lparr>fn_alloc = Nop, fn_dealloc = Nop, fn_thread_created = Nop, fn_thread_started = Nop,
      fn_thread_join = Nop, fn_thread_end = Nop, fn_mtx_lock = Nop, fn_mtx_unlock = Nop,
      fn_rd_lock = Nop, fn_rd_unlock = Nop, fn_rw_unlock = Nop, fn_cond_wait = Nop,
      fn_cond_signal = Nop, fn_cond_bc = Nop, fn_mem_acc = NopMem, fn_mem_range_acc = NopRange,
      fn_enter_func = Nop, fn_exit_func = Nop, fn_ptr_prop = Nop, fn_ptr_deref = Nop\<rparr>"

definition start_trace :: "world \<Rightarrow> world res" where
  "start_trace w =
     (if \<not> is_on (w_ctx w) then Inr w
      else
        (let f = (w_fns w)\<lparr>fn_alloc := Impl, fn_dealloc := Impl, fn_thread_created := Impl,
                   fn_thread_started := Impl, fn_thread_join := Impl, fn_thread_end := Impl,
                   fn_mtx_lock := Impl, fn_mtx_unlock := Impl, fn_rd_lock := Impl, fn_rd_unlock := Impl,
                   fn_rw_unlock := Impl, fn_cond_wait := Impl, fn_cond_signal := Impl, fn_cond_bc := Impl\<rparr>;
             f = (if trace_func_call (w_ctx w) then f\<lparr>fn_enter_func := Impl, fn_exit_func := Impl\<rparr> else f)
         in rbind (get_int_opt w ''UFO_NO_STACK'' NO_STACK_ACC) (\<lambda>set_no_stack.
            rbind (get_int_opt w ''UFO_NO_VALUE'' 0) (\<lambda>set_no_value.
              (let nv = (set_no_value \<noteq> 0);
                   c = (w_ctx w)\<lparr>no_data_value := nv, no_stack := (set_no_stack \<noteq> 0)\<rparr>;
                   f = (if set_no_stack = 0
                        then f\<lparr>fn_mem_range_acc := ImplRange, fn_mem_acc := (if nv then ImplMemNv else ImplMem)\<rparr>
                        else f\<lparr>fn_mem_range_acc := NsRange, fn_mem_acc := (if nv then NsMemNv else NsMem)\<rparr>)
               in Inr (w\<lparr>w_ctx := c, w_fns := f\<rparr>))))))"

definition stop_trace :: "world \<Rightarrow> world" where
  "stop_trace w = w\<lparr>w_fns := nop_fns\<rparr>"

section \<open>Directory\<close>

fun remove_all :: "string \<Rightarrow> string list \<Rightarrow> os \<Rightarrow> os res" where
  "remove_all dir [] s = Inr s"
| "remove_all dir (n # ns) s =
     (if length dir + 1 + length n + 1 \<le> 320
      then remove_all dir ns (s\<lparr>os_files := (os_files s)(dir @ ''/'' @ n := None)\<rparr>)
      else Inl HeapOverflow)"

definition open_trace_dir :: "world \<Rightarrow> world res" where
  "open_trace_dir w =
     (let dir = cstr (trace_dir (w_ctx w)); s = w_os w
      in if dir \<notin> set (os_dirs s) then
           if os_mkdir_ok s dir then Inr (w\<lparr>w_os := s\<lparr>os_dirs := dir # os_dirs s\<rparr>\<rparr>) else Inl DieCalled
         else rbind (remove_all dir (os_listing s dir) s) (\<lambda>s. Inr (w\<lparr>w_os := s\<rparr>)))"

section \<open>Initialisation\<close>

definition init_main :: "world \<Rightarrow> world res" where
  "init_main w =
     rbind (open_file 0 (open_buf 0 w)) (\<lambda>w.
       (let (stk_addr, stk_size, tls_addr, tls_size) = os_stack_tls (w_os w) False
        in put_event 0 (ThreadBeginEvent 0 0 0 stk_addr (ucast stk_size) tls_addr (ucast tls_size)) w))"

definition init_start :: "world \<Rightarrow> world res" where
  "init_start w =
     (let c = (w_ctx w)\<lparr>cur_pid := os_pid (w_os w), p_pid := os_ppid (w_os w), is_subproc := False,
                        mudule_length := 0, e_count := 0\<rparr>
      in rbind (get_int_opt w ''UFO_ON'' 0) (\<lambda>set_on.
         rbind (read_config w (c\<lparr>is_on := (set_on \<noteq> 0)\<rparr>)) (\<lambda>c.
           (let w = w\<lparr>w_ctx := c, w_stat := (\<lambda>_. stat_init), w_stat_ok := True\<rparr>
            in if \<not> is_on c then Inr w
               else
                 (let w = w\<lparr>w_ctx := c\<lparr>time_started := get_time_ms w\<rparr>,
                            w_tlbufs := (\<lambda>i. tlb_init (w_tlbufs w i)), w_tlbufs_ok := True\<rparr>;
                      w = (if use_io_q c then q_start (out_queue_length c) w else w)
                  in rbind (open_trace_dir w) init_main)))))"

section \<open>Shutdown\<close>

definition NAME_STAT_FILE :: string where "NAME_STAT_FILE = ''/_statistics.txt''"
definition NAME_STAT_CSV :: string where "NAME_STAT_CSV = ''/_statistics.csv''"

definition write_text :: "string \<Rightarrow> string res \<Rightarrow> world \<Rightarrow> world res" where
  "write_text path text w =
     (let (ok, s) = sys_fopen_w path (w_os w)
      in if ok then rbind text (\<lambda>t. Inr (w\<lparr>w_os := sys_fprintf path t s\<rparr>)) else Inl NullDeref)"

definition output_stat :: "world \<Rightarrow> world res" where
  "output_stat w =
     (let c = w_ctx w
      in rbind (make_path (w_path_junk w) (trace_dir c) NAME_STAT_FILE) (\<lambda>path.
         rbind (write_text path
                  (rbind (summary_stat (w_stat w) MAX_THREAD (cur_pid c) (p_pid c)) (\<lambda>(_, t). Inr t)) w) (\<lambda>w.
         rbind (make_path (replicate DIR_MAX_LEN NUL) (trace_dir c) NAME_STAT_CSV) (\<lambda>path.
           write_text path (print_csv (w_stat w) MAX_THREAD (cur_pid c) (p_pid c)) w))))"

fun finish_all :: "nat list \<Rightarrow> world \<Rightarrow> world res" where
  "finish_all [] w = Inr w"
| "finish_all (i # is) w = rbind (finish i w) (finish_all is)"

definition destroy :: "world \<Rightarrow> world res" where
  "destroy w =
     (let w = stop_trace w
      in rbind (if do_print_stat (w_ctx w) \<and> is_on (w_ctx w) then output_stat w else Inr w) (\<lambda>w.
           (let w = w\<lparr>w_stat_ok := False\<rparr>
            in if \<not> is_on (w_ctx w) then Inr w
               else rbind (if use_io_q (w_ctx w)
                           then rbind (q_stop w) (\<lambda>w. Inr (w\<lparr>w_queue := None\<rparr>)) else Inr w) (\<lambda>w.
                    rbind (finish_all [0..<MAX_THREAD] w) (\<lambda>w. Inr (w\<lparr>w_tlbufs_ok := False\<rparr>))))))"

section \<open>Fork\<close>

definition ctx_child_after_fork :: "world \<Rightarrow> world res" where
  "ctx_child_after_fork w =
     (if \<not> is_on (w_ctx w) then Inr w
      else
        rbind (read_config w ((w_ctx w)\<lparr>cur_pid := os_pid (w_os w), p_pid := os_ppid (w_os w),
                                       is_subproc := True, mudule_length := 0\<rparr>)) (\<lambda>c.
        rbind (open_trace_dir (w\<lparr>w_ctx := c\<lparr>time_started := get_time_ms w\<rparr>\<rparr>)) (\<lambda>w.
        rbind (if use_io_q c then
                 (case w_queue w of
                    None \<Rightarrow> Inl NullDeref
                  | Some q \<Rightarrow> Inr (q_start (out_queue_length c) (snd (release_mem q w))))
               else Inr w) (\<lambda>w.
          Inr (w\<lparr>w_tlbufs := (\<lambda>i. tlb_reset (w_tlbufs w i)), w_stat := (\<lambda>_. stat_init)\<rparr>)))))"

text \<open>The memory accounting hooks have empty bodies.\<close>

definition mem_acquired :: "nat \<Rightarrow> world \<Rightarrow> world" where
  "mem_acquired n_bytes w = w"

definition mem_released :: "nat \<Rightarrow> world \<Rightarrow> world" where
  "mem_released n_bytes w = w"

section \<open>Reading the configuration never faults\<close>

lemma skip_space_total: "terminated s \<Longrightarrow> \<exists>r. skip_space s = Inr r \<and> terminated r \<and> r \<noteq> []"
  by (induction s) (auto simp: IsSpace_def)

lemma strtoll_digits_total: "terminated s \<Longrightarrow> \<exists>r. strtoll_digits a h s = Inr r"
  by (induction s arbitrary: a h) (auto simp: Let_def)

lemma atoll_total: "terminated s \<Longrightarrow> \<exists>i. internal_atoll s = Inr i"
proof -
  assume "terminated s"
  then obtain r where r: "skip_space s = Inr r" "terminated r" "r \<noteq> []" using skip_space_total by blast
  let ?n = "if hd r = CHR ''+'' \<or> hd r = CHR ''-'' then tl r else r"
  have "terminated ?n" using r(2,3) by (cases r) auto
  then obtain a h q where "strtoll_digits 0 False ?n = Inr (a, h, q)"
    using strtoll_digits_total [of ?n 0 False] by (metis prod_cases3)
  then show ?thesis
    using r by (simp add: internal_atoll_def internal_simple_strtoll_def Let_def)
qed

lemma get_int_opt_total: "\<exists>i. get_int_opt w name d = Inr i"
  using atoll_total by (auto simp: get_int_opt_def GetEnv_def strnlen_eq split: option.split)

lemma unat_MB: "unat (b :: u64) < 2 ^ 40 \<Longrightarrow> unat (b * MB) = unat b * 2 ^ 20"
  by (simp add: MB_def unat_word_ariths)

lemma half_more: "2 \<le> n \<Longrightarrow> n < n * 3 div 2" for n :: nat
  by presburger

lemma config_sizes_cases:
  "config_sizes w c = Inl DieCalled \<or>
   (\<exists>n t1 t2. config_sizes w c = Inr (c\<lparr>tl_buf_size := n * 2 ^ 20, mem_t1 := t1, mem_t2 := t2,
      ratio_mem_x2 := 0, ratio_mem_x4 := 0\<rparr>) \<and> 0 < n \<and> n < 4096 \<and> t1 < t2)"
proof -
  obtain i1 i2 i3 where i: "get_int_opt w ''UFO_TL_BUF'' DEFAULT_BUF_PRE_THR = Inr i1"
    "get_int_opt w ''UFO_MEM_T1'' DEFAULT_MEM_THRESHOLD_1 = Inr i2"
    "get_int_opt w ''UFO_MEM_T2'' DEFAULT_MEM_THRESHOLD_2 = Inr i3"
    using get_int_opt_total by metis
  define b1 b2 b3 where "b1 = (word_of_int i1 :: u64)" and "b2 = (word_of_int i2 :: u64)" and "b3 = (word_of_int i3 :: u64)"
  define t1 where "t1 = (if 0 < b2 \<and> b2 < 1024000 then b2 * MB else 10240 * MB)"
  define t2 where "t2 = (if t1 < b3 * MB \<and> b3 < 1536000 then b3 * MB else t1 * 3 div 2)"
  have t1: "2 ^ 20 \<le> unat t1" "unat t1 < 2 ^ 44"
  proof -
    have "unat (b2 * MB) = unat b2 * 2 ^ 20" "0 < unat b2" "unat b2 < 1024000" if "0 < b2" "b2 < 1024000"
      using that unat_MB [of b2] by (simp_all add: word_less_nat_alt)
    moreover have "unat (10240 * MB) = 10240 * 2 ^ 20" using unat_MB [of 10240] by simp
    ultimately show "2 ^ 20 \<le> unat t1" "unat t1 < 2 ^ 44" by (auto simp: t1_def)
  qed
  have "t1 < t2"
  proof (cases "t1 < b3 * MB \<and> b3 < 1536000")
    case False
    then have "t2 = t1 * 3 div 2" by (auto simp: t2_def)
    then have "unat t2 = unat t1 * 3 div 2"
      using t1 by (simp add: unat_div_distrib unat_word_ariths)
    moreover have "unat t1 < unat t1 * 3 div 2" using half_more [of "unat t1"] t1(1) by simp
    ultimately show ?thesis by (simp add: word_less_nat_alt)
  qed (simp add: t2_def)
  show ?thesis
  proof (cases "0 < b1 \<and> b1 < 4096")
    case True
    then have n: "0 < unat b1" "unat b1 < 4096" by (simp_all add: word_less_nat_alt)
    then have "unat (ucast (b1 * MB) :: u32) = unat b1 * 2 ^ 20"
      using unat_MB [of b1] by (simp add: unsigned_ucast_eq take_bit_nat_eq_self)
    then have "config_sizes w c = Inr (c\<lparr>tl_buf_size := unat b1 * 2 ^ 20, mem_t1 := t1, mem_t2 := t2,
        ratio_mem_x2 := 0, ratio_mem_x4 := 0\<rparr>)"
      using i True
      by (simp add: config_sizes_def Let_def b1_def [symmetric] b2_def [symmetric] b3_def [symmetric] t1_def t2_def
          DEFAULT_MEM_THRESHOLD_1_def DEFAULT_MEM_THRESHOLD_2_def)
    then show ?thesis using n \<open>t1 < t2\<close> by blast
  next
    case False
    then have "config_sizes w c = Inl DieCalled"
      unfolding config_sizes_def Let_def i
      by (simp only: rbind_simps b1_def [symmetric] if_not_P [OF False] if_False)
    then show ?thesis ..
  qed
qed

lemma config_switches_cases:
  "config_switches w c = Inl DieCalled \<or>
   (\<exists>a b d e q. config_switches w c = Inr (c\<lparr>use_compression := a, use_io_q := b, out_queue_length := q,
      trace_func_call := d, trace_ptr_prop := e\<rparr>) \<and> (b \<longrightarrow> 0 < q \<and> q < 1024))"
proof -
  obtain i1 where 1: "get_int_opt w ''UFO_COMPRESS'' COMPRESS_ON = Inr i1" using get_int_opt_total by blast
  obtain i2 where 2: "get_int_opt w ''UFO_ASYNC_IO'' ASYNC_IO_ON = Inr i2" using get_int_opt_total by blast
  obtain i3 where 3: "get_int_opt w ''UFO_IO_Q'' DEFAULT_IO_Q_SIZE = Inr i3" using get_int_opt_total by blast
  obtain i4 where 4: "get_int_opt w ''UFO_CALL'' 0 = Inr i4" using get_int_opt_total by blast
  obtain i5 where 5: "get_int_opt w ''UFO_PTR_PROP'' 0 = Inr i5" using get_int_opt_total by blast
  define res where "res = (\<lambda>q. c\<lparr>use_compression := (i1 \<noteq> 0), use_io_q := (i2 \<noteq> 0), out_queue_length := q,
      trace_func_call := (i4 \<noteq> 0), trace_ptr_prop := (i5 \<noteq> 0)\<rparr>)"
  define qr where "qr = (if i2 \<noteq> 0 then if 0 < i3 \<and> i3 < 1024 then Inr i3 else Inl DieCalled
      else Inr (out_queue_length c) :: int res)"
  have eq: "config_switches w c = rbind qr (\<lambda>q. Inr (res q))"
    unfolding config_switches_def 1 2 3 4 5 rbind_simps res_def qr_def by (rule refl)
  have "qr = Inl DieCalled \<or> (\<exists>q. qr = Inr q \<and> (i2 \<noteq> 0 \<longrightarrow> 0 < q \<and> q < 1024))"
    by (auto simp: qr_def)
  then show ?thesis
  proof (elim disjE exE conjE)
    fix q assume "qr = Inr q" "i2 \<noteq> 0 \<longrightarrow> 0 < q \<and> q < 1024"
    then have "config_switches w c = Inr (res q)" unfolding eq by simp
    then show ?thesis
      using \<open>i2 \<noteq> 0 \<longrightarrow> 0 < q \<and> q < 1024\<close> unfolding res_def by (intro disjI2 exI conjI)
  qed (simp add: eq)
qed

text \<open>The directory name stays a terminated string inside its array.\<close>

definition dir_ok :: "nat \<Rightarrow> string \<Rightarrow> bool" where
  "dir_ok n d \<longleftrightarrow> length d = DIR_MAX_LEN \<and> terminated d \<and> 0 < length (cstr d) \<and> length (cstr d) \<le> n"

lemma dir_okI: "NUL \<notin> set b \<Longrightarrow> 0 < length b \<Longrightarrow> length b \<le> n \<Longrightarrow> n < 255 \<Longrightarrow> dir_ok n (b @ replicate (255 - length b) NUL)"
proof -
  assume b: "NUL \<notin> set b" "0 < length b" "length b \<le> n" "n < 255"
  then have "replicate (255 - length b) NUL = NUL # replicate (254 - length b) NUL"
    by (cases "255 - length b") (auto simp: Suc_diff_Suc)
  with b show ?thesis by (simp add: dir_ok_def DIR_MAX_LEN_def)
qed

lemma strncpy_zeros:
  assumes "n \<le> 255" "terminated s"
  shows "internal_strncpy (replicate 255 NUL) s n =
         Inr (take n (cstr s) @ replicate (255 - length (take n (cstr s))) NUL)"
  using assms by (simp add: strncpy_eq replicate_add [symmetric])

lemma dir_base_ok:
  assumes "length arr = DIR_MAX_LEN" "\<forall>e. env = Some e \<longrightarrow> terminated e"
  shows "\<exists>d. dir_base arr env = Inr d \<and> dir_ok 210 d"
proof -
  have ms: "internal_memset arr 0 NUL DIR_MAX_LEN = Inr (replicate 255 NUL)"
    using assms(1) memset_eq [of 0 255 arr NUL] by (simp add: DIR_MAX_LEN_def overlay_def)
  have def_ok: "\<exists>d. internal_strncpy (replicate 255 NUL) (DEFAULT_TRACE_DIR @ [NUL]) 100 = Inr d \<and> dir_ok 210 d"
    using strncpy_zeros [of 100 "DEFAULT_TRACE_DIR @ [NUL]"] dir_okI [of DEFAULT_TRACE_DIR 210]
    by (simp add: DEFAULT_TRACE_DIR_def)
  show ?thesis
  proof (cases env)
    case None
    then show ?thesis using ms def_ok by (simp add: dir_base_def)
  next
    case (Some e)
    have t: "terminated e" using assms(2) Some by simp
    show ?thesis
    proof (cases "cstr e = []")
      case True
      then show ?thesis using ms def_ok t Some by (simp add: dir_base_def strnlen_eq)
    next
      case False
      let ?b = "take 210 (cstr e)"
      have "NUL \<notin> set ?b" using NUL_cstr [of e] in_set_takeD by fastforce
      then have "dir_ok 210 (?b @ replicate (255 - length ?b) NUL)"
        using False by (intro dir_okI) auto
      moreover have "min 255 (length (cstr e)) \<noteq> 0" using False by (simp add: min_def)
      ultimately show ?thesis
        using ms def_ok strncpy_zeros [of 210 e] t Some by (simp add: dir_base_def strnlen_eq DIR_MAX_LEN_def)
    qed
  qed
qed

lemma length_dec: "v < 10 ^ Suc n \<Longrightarrow> length (dec v) \<le> Suc n"
  by (simp add: dec_def num_digits_len)

lemma dir_underscore_ok:
  assumes "dir_ok 210 d"
  shows "\<exists>d'. dir_underscore d = Inr d' \<and> dir_ok 210 d'"
proof -
  let ?b = "cstr d" and ?n = "length (cstr d)"
  have d: "length d = 255" "terminated d" "0 < ?n" "?n \<le> 210" using assms by (auto simp: dir_ok_def DIR_MAX_LEN_def)
  have sp: "d = ?b @ NUL # drop (Suc ?n) d" using terminated_split [OF d(2)] .
  have sl: "internal_strnlen d (DIR_MAX_LEN - 1) = Inr ?n"
    using d by (simp add: strnlen_eq DIR_MAX_LEN_def)
  have take: "take ?n d = ?b" by (subst sp) simp
  show ?thesis
  proof (cases "?n < 210")
    case False
    then show ?thesis using sl assms by (simp add: dir_underscore_def DIR_MAX_LEN_def)
  next
    case True
    show ?thesis
    proof (cases "d ! (?n - 1) = CHR ''/''")
      case True
      let ?d = "d[?n - 1 := CHR ''_'']"
      have "?d = butlast ?b @ CHR ''_'' # NUL # drop (Suc ?n) d"
      proof -
        have "?b = butlast ?b @ [last ?b]" using d(3) by simp
        then have "d = butlast ?b @ last ?b # NUL # drop (Suc ?n) d" using sp by (metis append.assoc append_Cons append_Nil)
        moreover have "length (butlast ?b) = ?n - 1" by simp
        ultimately show ?thesis by (metis list_update_length)
      qed
      moreover have "NUL \<notin> set (butlast ?b)" using NUL_cstr in_set_butlastD by fastforce
      ultimately have "cstr ?d = butlast ?b @ ''_''" "terminated ?d" by auto
      then have "dir_ok 210 ?d" using d by (simp add: dir_ok_def DIR_MAX_LEN_def)
      then show ?thesis
        using sl d True \<open>?n < 210\<close> by (simp add: dir_underscore_def DIR_MAX_LEN_def rd_def wr_def)
    next
      case False
      let ?d = "d[?n := CHR ''_'', ?n + 1 := NUL]"
      have "?d = ?b @ CHR ''_'' # NUL # drop (?n + 2) d"
      proof -
        have "?d = overlay (d[?n := CHR ''_'']) (Suc ?n) [NUL]"
          using overlay_Cons [of "Suc ?n" "d[?n := CHR ''_'']" NUL "[]"] d \<open>?n < 210\<close> by simp
        also have "\<dots> = overlay d ?n [CHR ''_'', NUL]"
          using overlay_Cons [of ?n d "CHR ''_''" "[NUL]"] d \<open>?n < 210\<close> by simp
        finally show ?thesis using take by (simp add: overlay_def)
      qed
      then have "cstr ?d = ?b @ ''_''" "terminated ?d" by auto
      then have "dir_ok 210 ?d" using d \<open>?n < 210\<close> by (simp add: dir_ok_def DIR_MAX_LEN_def)
      then show ?thesis
        using sl d False \<open>?n < 210\<close> by (simp add: dir_underscore_def DIR_MAX_LEN_def rd_def wr_def)
    qed
  qed
qed

lemma snprintf_u: "internal_snprintf 45 ''%u'' [VInt (uint (pid :: u32))] = Inr (dec (unat pid), length (dec (unat pid)))"
proof -
  have r: "render ''%u'' [VInt (uint pid)] = Inr (dec (unat pid))" by (simp add: render_u del: render.simps(2))
  have "unat pid < 2 ^ LENGTH(32)" by (rule unsigned_less)
  then have "length (dec (unat pid)) \<le> 10" using length_dec [of "unat pid" 9] by simp
  then show ?thesis using snprintf_render [of 45 "''%u''" "[VInt (uint pid)]"] r by simp
qed

lemma dir_pid_ok:
  assumes "dir_ok 210 d"
  shows "\<exists>d'. dir_pid pid d = Inr d' \<and> dir_ok 220 d' \<and> cstr d' = cstr d @ dec (unat pid)"
proof -
  let ?p = "dec (unat pid)"
  have "unat pid < 2 ^ LENGTH(32)" by (rule unsigned_less)
  then have lp: "length ?p \<le> 10" using length_dec [of "unat pid" 9] by simp
  have np: "NUL \<notin> set ?p" using dec_chars [of NUL "unat pid"] by auto
  have d: "length d = 255" "terminated d" "0 < length (cstr d)" "length (cstr d) \<le> 210"
    using assms by (auto simp: dir_ok_def DIR_MAX_LEN_def)
  let ?d = "cstr d @ ?p @ NUL # drop (Suc (length (cstr d) + length ?p)) d"
  have "internal_strncat d (?p @ [NUL]) 45 = Inr ?d"
    using strncat_eq [of d "?p @ [NUL]" 45] d lp np by (simp add: min_absorb2)
  moreover have "cstr ?d = cstr d @ ?p" "terminated ?d" using np by simp_all
  moreover have "length ?d = 255" using d lp by simp
  ultimately show ?thesis
    using d lp by (simp add: dir_pid_def snprintf_u dir_ok_def DIR_MAX_LEN_def)
qed

text \<open>What every accepted configuration satisfies.\<close>

definition config_ok :: "UFOContext \<Rightarrow> bool" where
  "config_ok c \<longleftrightarrow> 2 ^ 20 \<le> tl_buf_size c \<and> tl_buf_size c \<le> 4095 * 2 ^ 20 \<and> mem_t1 c < mem_t2 c
     \<and> (use_io_q c \<longrightarrow> 0 < out_queue_length c \<and> out_queue_length c < 1024) \<and> dir_ok 220 (trace_dir c)"

lemma read_config_cases:
  assumes "length (trace_dir c) = DIR_MAX_LEN"
  shows "read_config w c = Inl DieCalled \<or>
    (\<exists>c'. read_config w c = Inr c' \<and> config_ok c' \<and> cur_pid c' = cur_pid c \<and> is_on c' = is_on c
      \<and> p_pid c' = p_pid c \<and> e_count c' = e_count c \<and> no_stack c' = no_stack c)"
proof -
  obtain v where v: "get_int_opt w ''UFO_STAT'' 1 = Inr v" using get_int_opt_total by blast
  define c0 where "c0 = c\<lparr>tl_buf_size := 0, use_compression := False, use_io_q := False, out_queue_length := -1, do_print_stat := (v \<noteq> 0)\<rparr>"
  have rc: "read_config w c = rbind (config_sizes w c0) (\<lambda>c. rbind (config_switches w c) (\<lambda>c.
      rbind (dir_base (trace_dir c) (GetEnv w ''UFO_TDIR'')) (\<lambda>dir. rbind (dir_underscore dir) (\<lambda>dir.
      rbind (dir_pid (cur_pid c) dir) (\<lambda>dir. Inr (c\<lparr>trace_dir := dir\<rparr>))))))"
    by (simp add: read_config_def v c0_def)
  from config_sizes_cases [of w c0] show ?thesis
  proof (elim disjE exE conjE)
    fix n t1 t2
    define c1 where "c1 = c0\<lparr>tl_buf_size := n * 2 ^ 20, mem_t1 := t1, mem_t2 := t2, ratio_mem_x2 := 0, ratio_mem_x4 := 0\<rparr>"
    assume "config_sizes w c0 = Inr (c0\<lparr>tl_buf_size := n * 2 ^ 20, mem_t1 := t1, mem_t2 := t2, ratio_mem_x2 := 0, ratio_mem_x4 := 0\<rparr>)"
      and n: "0 < n" "n < 4096" and "t1 < t2"
    then have s: "config_sizes w c0 = Inr c1" by (simp only: c1_def)
    from config_switches_cases [of w c1] show ?thesis
    proof (elim disjE exE conjE)
      fix a b d e q
      define c2 where "c2 = c1\<lparr>use_compression := a, use_io_q := b, out_queue_length := q, trace_func_call := d, trace_ptr_prop := e\<rparr>"
      assume "config_switches w c1 = Inr (c1\<lparr>use_compression := a, use_io_q := b, out_queue_length := q, trace_func_call := d, trace_ptr_prop := e\<rparr>)"
        and q: "b \<longrightarrow> 0 < q \<and> q < 1024"
      then have sw: "config_switches w c1 = Inr c2" by (simp only: c2_def)
      have "\<forall>e. GetEnv w ''UFO_TDIR'' = Some e \<longrightarrow> terminated e" by (auto simp: GetEnv_def)
      then obtain d1 where d1: "dir_base (trace_dir c2) (GetEnv w ''UFO_TDIR'') = Inr d1" "dir_ok 210 d1"
        using dir_base_ok [of "trace_dir c2"] assms by (auto simp: c2_def c1_def c0_def)
      obtain d2 where d2: "dir_underscore d1 = Inr d2" "dir_ok 210 d2" using dir_underscore_ok [OF d1(2)] by blast
      obtain d3 where d3: "dir_pid (cur_pid c2) d2 = Inr d3" "dir_ok 220 d3" using dir_pid_ok [OF d2(2)] by blast
      have "read_config w c = Inr (c2\<lparr>trace_dir := d3\<rparr>)"
        unfolding rc by (simp add: s sw d1 d2 d3)
      then show ?thesis
        using n \<open>t1 < t2\<close> q d3(2) by (simp add: config_ok_def c2_def c1_def c0_def)
    qed (simp add: rc s)
  qed (simp add: rc)
qed

lemma config_roomy: "config_ok c \<Longrightarrow> roomy (tl_buf_size c)"
  by (simp add: config_ok_def roomy_def)

section \<open>Shutting down\<close>

text \<open>
  The reports touch their two files only. Stopping the queue writes what is queued, and
  finishing the buffers writes what is buffered, so the files of the traced threads end up
  with their logs. The other buffers must be idle: no memory and no open file.
\<close>

definition idle :: "world \<Rightarrow> nat \<Rightarrow> bool" where
  "idle w i \<longleftrightarrow> tb_buf (tlb w i) = None \<and> fd_path (w_os w) (tb_fd (tlb w i)) = None"

lemma write_text_files:
  assumes "write_text path t w = Inr w'"
  shows "\<exists>x. w' = w\<lparr>w_os := (w_os w)\<lparr>os_files := (os_files (w_os w))(path := Some x)\<rparr>\<rparr>"
proof -
  obtain s where "t = Inr s" "w' = w\<lparr>w_os := (w_os w)\<lparr>os_files := (os_files (w_os w))(path := Some (text_bytes s))\<rparr>\<rparr>"
    using assms by (auto simp: write_text_def sys_fopen_w_def sys_fprintf_def file_bytes_def split: if_splits)
  then show ?thesis by blast
qed

lemma output_stat_files:
  assumes "output_stat w = Inr w'"
  shows "\<exists>p1 p2 x y. make_path (w_path_junk w) (trace_dir (w_ctx w)) NAME_STAT_FILE = Inr p1
    \<and> make_path (replicate DIR_MAX_LEN NUL) (trace_dir (w_ctx w)) NAME_STAT_CSV = Inr p2
    \<and> w' = w\<lparr>w_os := (w_os w)\<lparr>os_files := (os_files (w_os w))(p1 := Some x, p2 := Some y)\<rparr>\<rparr>"
proof -
  obtain p1 w1 p2 where p: "make_path (w_path_junk w) (trace_dir (w_ctx w)) NAME_STAT_FILE = Inr p1"
    "write_text p1 (rbind (summary_stat (w_stat w) MAX_THREAD (cur_pid (w_ctx w)) (p_pid (w_ctx w))) (\<lambda>(_, t). Inr t)) w = Inr w1"
    "make_path (replicate DIR_MAX_LEN NUL) (trace_dir (w_ctx w)) NAME_STAT_CSV = Inr p2"
    "write_text p2 (print_csv (w_stat w1) MAX_THREAD (cur_pid (w_ctx w)) (p_pid (w_ctx w))) w1 = Inr w'"
    using assms by (auto simp: output_stat_def Let_def)
  obtain x y where "w1 = w\<lparr>w_os := (w_os w)\<lparr>os_files := (os_files (w_os w))(p1 := Some x)\<rparr>\<rparr>"
    "w' = w1\<lparr>w_os := (w_os w1)\<lparr>os_files := (os_files (w_os w1))(p2 := Some y)\<rparr>\<rparr>"
    using write_text_files [OF p(2)] write_text_files [OF p(4)] by blast
  then have "w' = w\<lparr>w_os := (w_os w)\<lparr>os_files := (os_files (w_os w))(p1 := Some x, p2 := Some y)\<rparr>\<rparr>" by simp
  with p(1,3) show ?thesis by blast
qed

lemma finish_idle:
  assumes "idle w i"
  shows "finish i w = Inr (set_tlb i ((tlb w i)\<lparr>tb_capacity := 0\<rparr>) w)"
  using assms by (simp add: idle_def finish_def finish_close_def is_file_open_def sys_fd_valid_def upd_tlb_def)

lemma finish_all_files:
  assumes "distinct is" "inj_on f T" "plain_io w" "\<forall>i\<in>set is. i \<in> T \<and> live w i (f i) \<or> i \<notin> T \<and> idle w i"
  shows "\<exists>w'. finish_all is w = Inr w'
    \<and> (\<forall>r. (\<forall>i\<in>set is \<inter> T. f i \<noteq> r) \<longrightarrow> file_bytes (w_os w') r = file_bytes (w_os w) r)
    \<and> (\<forall>i\<in>set is \<inter> T. file_bytes (w_os w') (f i) = file_bytes (w_os w) (f i) @ buf_bytes (tlb w i)
        \<and> fd_path (w_os w') (tb_fd (tlb w i)) = None)
    \<and> (\<forall>k. fd_path (w_os w) k = None \<longrightarrow> fd_path (w_os w') k = None)"
  using assms
proof (induction "is" arbitrary: w)
  case (Cons i "is")
  show ?case
  proof (cases "i \<in> T")
    case True
    then have lv: "live w i (f i)" using Cons.prems(4) by simp
    obtain w1 where w1: "finish i w = Inr w1" "plain_io w1"
      "\<forall>r. file_bytes (w_os w1) r = file_bytes (w_os w) r @ (if r = f i then buf_bytes (tlb w i) else [])"
      "\<forall>j. j \<noteq> i \<longrightarrow> tlb w1 j = tlb w j"
      "\<forall>k. fd_path (w_os w1) k = (if k = tb_fd (tlb w i) then None else fd_path (w_os w) k)"
      using finish_os [OF lv Cons.prems(3)] by blast
    have ne: "f j \<noteq> f i \<and> tb_fd (tlb w j) \<noteq> tb_fd (tlb w i)" if "j \<in> set is" "j \<in> T" for j
    proof -
      have "f j \<noteq> f i" using that True Cons.prems(1,2) by (auto dest: inj_onD)
      moreover have "fd_path (w_os w) (tb_fd (tlb w j)) = Some (f j)" using that Cons.prems(4) by (auto simp: live_def)
      ultimately show ?thesis using lv by (auto simp: live_def)
    qed
    have same: "tlb w1 j = tlb w j" if "j \<in> set is" for j using that Cons.prems(1) w1(4) by auto
    have "\<forall>j\<in>set is. j \<in> T \<and> live w1 j (f j) \<or> j \<notin> T \<and> idle w1 j"
    proof
      fix j assume j: "j \<in> set is"
      show "j \<in> T \<and> live w1 j (f j) \<or> j \<notin> T \<and> idle w1 j"
      proof (cases "j \<in> T")
        case True
        then have "live w j (f j)" using Cons.prems(4) j by auto
        then show ?thesis using True ne [OF j True] same [OF j] w1(5) by (simp add: live_def)
      next
        case False
        then have "idle w j" using Cons.prems(4) j by auto
        then show ?thesis using False same [OF j] w1(5) by (simp add: idle_def)
      qed
    qed
    then obtain w' where w': "finish_all is w1 = Inr w'"
      "\<forall>r. (\<forall>i\<in>set is \<inter> T. f i \<noteq> r) \<longrightarrow> file_bytes (w_os w') r = file_bytes (w_os w1) r"
      "\<forall>i\<in>set is \<inter> T. file_bytes (w_os w') (f i) = file_bytes (w_os w1) (f i) @ buf_bytes (tlb w1 i)
         \<and> fd_path (w_os w') (tb_fd (tlb w1 i)) = None"
      "\<forall>k. fd_path (w_os w1) k = None \<longrightarrow> fd_path (w_os w') k = None"
      using Cons.IH [of w1] Cons.prems(1,2) w1(2) by auto
    have "\<forall>j\<in>set is \<inter> T. f j \<noteq> f i" using ne by auto
    then have "file_bytes (w_os w') (f i) = file_bytes (w_os w) (f i) @ buf_bytes (tlb w i)"
      using w'(2) w1(3) by simp
    moreover have "fd_path (w_os w') (tb_fd (tlb w i)) = None" using w'(4) w1(5) by simp
    ultimately show ?thesis using w1(1,3,5) w' True same ne by auto
  next
    case False
    then have id: "idle w i" using Cons.prems(4) by simp
    let ?w = "set_tlb i ((tlb w i)\<lparr>tb_capacity := 0\<rparr>) w"
    have "\<forall>j\<in>set is. j \<in> T \<and> live ?w j (f j) \<or> j \<notin> T \<and> idle ?w j"
      using Cons.prems(1,4) by (auto simp: live_def idle_def)
    moreover have "plain_io ?w" using Cons.prems(3) by (simp add: plain_io_def)
    moreover note Cons.IH [of ?w] Cons.prems(1,2)
    ultimately
    show ?thesis using finish_idle [OF id] False by (auto split: if_splits)
  qed
qed auto

text \<open>Stopping the queue leaves nothing queued and changes files only.\<close>

lemma q_stop_files:
  assumes "sys_ok w" "use_io_q (w_ctx w)"
  shows "\<exists>q s. q_stop w = Inr (w\<lparr>w_os := s, w_queue := Some q\<rparr>) \<and> is_empty q \<and> full_writes s
    \<and> (\<forall>k. fd_path s k = fd_path (w_os w) k) \<and> (\<forall>r. file_bytes s r = disk w r)"
proof -
  obtain q where q: "w_queue w = Some q" "q_ok q"
    using assms by (auto simp: sys_ok_def queue_ok_def split: option.splits)
  have "length (q_content (q\<lparr>q_continue := False\<rparr>)) \<le> q_length q"
    using q(2) q_span_le [of q] by (simp add: q_ok_def)
  then obtain q' s where d: "drain (q_length q) (q\<lparr>q_continue := False\<rparr>) w = Inr (q', w\<lparr>w_os := s\<rparr>)" "is_empty q'"
    "\<forall>k. fd_path s k = fd_path (w_os w) k" "full_writes s"
    "\<forall>p. file_bytes s p = file_bytes (w_os w) p @ pending (w_os w) p (q_content q)"
    using drain_total [of "q\<lparr>q_continue := False\<rparr>" w "q_length q"] q(2) assms(1)
    by (auto simp: sys_ok_def plain_io_def)
  have "q_stop w = Inr (w\<lparr>w_os := s, w_queue := Some (q'\<lparr>q_taskq := []\<rparr>)\<rparr>)"
    using q(1) d(1) assms(1) by (simp add: q_stop_def release_mem_def sys_ok_def plain_io_def)
  moreover have "is_empty (q'\<lparr>q_taskq := []\<rparr>)" using d(2) by (simp add: is_empty_def)
  ultimately show ?thesis
    using d(3-5) q(1) assms(2) by (auto simp: disk_def queued_def)
qed

text \<open>The reports, if they are written, only replace their own files.\<close>

lemma reports_files:
  assumes "do_print_stat (w_ctx w) \<and> is_on (w_ctx w) \<Longrightarrow> \<exists>w1. output_stat (stop_trace w) = Inr w1"
    and "\<And>i. i \<in> T \<Longrightarrow> make_path (w_path_junk w) (trace_dir (w_ctx w)) NAME_STAT_FILE \<noteq> Inr (f i)"
    and "\<And>i. i \<in> T \<Longrightarrow> make_path (replicate DIR_MAX_LEN NUL) (trace_dir (w_ctx w)) NAME_STAT_CSV \<noteq> Inr (f i)"
  shows "\<exists>g. (if do_print_stat (w_ctx w) \<and> is_on (w_ctx w) then output_stat (stop_trace w) else Inr (stop_trace w)) =
      Inr ((stop_trace w)\<lparr>w_os := (w_os w)\<lparr>os_files := g\<rparr>\<rparr>) \<and> (\<forall>i\<in>T. g (f i) = os_files (w_os w) (f i))"
proof (cases "do_print_stat (w_ctx w) \<and> is_on (w_ctx w)")
  case True
  let ?w = "stop_trace w"
  have same: "w_os ?w = w_os w" "w_ctx ?w = w_ctx w" "w_path_junk ?w = w_path_junk w" by (simp_all add: stop_trace_def)
  obtain w1 where "output_stat ?w = Inr w1" using assms(1) True by blast
  then obtain p1 p2 x y where p: "make_path (w_path_junk w) (trace_dir (w_ctx w)) NAME_STAT_FILE = Inr p1"
    "make_path (replicate DIR_MAX_LEN NUL) (trace_dir (w_ctx w)) NAME_STAT_CSV = Inr p2"
    "output_stat ?w = Inr (?w\<lparr>w_os := (w_os w)\<lparr>os_files := (os_files (w_os w))(p1 := Some x, p2 := Some y)\<rparr>\<rparr>)"
    using output_stat_files [of ?w w1] same by auto
  show ?thesis
    using True p assms(2,3) by (intro exI [of _ "(os_files (w_os w))(p1 := Some x, p2 := Some y)"]) auto
next
  case False
  have "stop_trace w = (stop_trace w)\<lparr>w_os := (w_os w)\<lparr>os_files := os_files (w_os w)\<rparr>\<rparr>" by (simp add: stop_trace_def)
  then show ?thesis unfolding if_not_P [OF False] by blast
qed

text \<open>The first part of the shutdown: reports, then the queue.\<close>

definition queue_down :: "world \<Rightarrow> world res" where
  "queue_down w = (if use_io_q (w_ctx w) then rbind (q_stop w) (\<lambda>w. Inr (w\<lparr>w_queue := None\<rparr>)) else Inr w)"

lemma queue_down_files:
  assumes "sys_ok w"
  shows "\<exists>w'. queue_down w = Inr w' \<and> plain_io w' \<and> w_ctx w' = w_ctx w \<and> (\<forall>i. tlb w' i = tlb w i)
    \<and> (\<forall>k. fd_path (w_os w') k = fd_path (w_os w) k) \<and> (\<forall>r. file_bytes (w_os w') r = disk w r)"
proof (cases "use_io_q (w_ctx w)")
  case True
  then obtain q s where "q_stop w = Inr (w\<lparr>w_os := s, w_queue := Some q\<rparr>)" "full_writes s"
    "\<forall>k. fd_path s k = fd_path (w_os w) k" "\<forall>r. file_bytes s r = disk w r"
    using q_stop_files [OF assms] by blast
  then show ?thesis using True assms by (simp add: queue_down_def plain_io_def sys_ok_def)
next
  case False
  then show ?thesis using assms by (simp add: queue_down_def disk_def queued_def)
qed

lemma destroy_files:
  assumes "inj_on f T" "sys_ok w" "\<forall>i\<in>T. live w i (f i)" "is_on (w_ctx w)"
    and "\<forall>i<MAX_THREAD. i \<notin> T \<longrightarrow> idle w i" "T \<subseteq> {..<MAX_THREAD}"
    and "do_print_stat (w_ctx w) \<Longrightarrow> \<exists>w1. output_stat (stop_trace w) = Inr w1"
    and "\<And>i. i \<in> T \<Longrightarrow> make_path (w_path_junk w) (trace_dir (w_ctx w)) NAME_STAT_FILE \<noteq> Inr (f i)"
    and "\<And>i. i \<in> T \<Longrightarrow> make_path (replicate DIR_MAX_LEN NUL) (trace_dir (w_ctx w)) NAME_STAT_CSV \<noteq> Inr (f i)"
  shows "\<exists>w'. destroy w = Inr w' \<and> (\<forall>i\<in>T. file_bytes (w_os w') (f i) = tlog w i (f i)
    \<and> fd_path (w_os w') (tb_fd (tlb w i)) = None)"
proof -
  obtain g where g: "(if do_print_stat (w_ctx w) \<and> is_on (w_ctx w) then output_stat (stop_trace w) else Inr (stop_trace w)) =
      Inr ((stop_trace w)\<lparr>w_os := (w_os w)\<lparr>os_files := g\<rparr>\<rparr>)" "\<forall>i\<in>T. g (f i) = os_files (w_os w) (f i)"
    using reports_files [of w T f] assms(7-9) by blast
  define w2 where "w2 = (stop_trace w)\<lparr>w_os := (w_os w)\<lparr>os_files := g\<rparr>, w_stat_ok := False\<rparr>"
  have w2: "w_ctx w2 = w_ctx w" "tlb w2 i = tlb w i" "fd_path (w_os w2) k = fd_path (w_os w) k" "w_queue w2 = w_queue w"
    "full_writes (w_os w2) = full_writes (w_os w)" for i k
    by (simp_all add: w2_def stop_trace_def tlb_def fd_path_def full_writes_def)
  have "sys_ok w2" using assms(2) w2 by (simp add: sys_ok_def plain_io_def queue_ok_def)
  then obtain w3 where w3: "queue_down w2 = Inr w3" "plain_io w3" "w_ctx w3 = w_ctx w2" "\<forall>i. tlb w3 i = tlb w2 i"
    "\<forall>k. fd_path (w_os w3) k = fd_path (w_os w2) k" "\<forall>r. file_bytes (w_os w3) r = disk w2 r"
    using queue_down_files by blast
  have "queued w2 = queued w" "pending (w_os w2) p ts = pending (w_os w) p ts" for p ts
    using w2 by (simp_all add: queued_def pending_def)
  then have dk: "disk w2 (f i) = disk w (f i)" if "i \<in> T" for i
    using g(2) that by (simp add: disk_def file_bytes_def w2_def stop_trace_def)
  have "\<forall>i\<in>set [0..<MAX_THREAD]. i \<in> T \<and> live w3 i (f i) \<or> i \<notin> T \<and> idle w3 i"
    using assms(3,5) w2 w3 by (auto simp: live_def idle_def)
  moreover have "set [0..<MAX_THREAD] \<inter> T = T" using assms(6) by auto
  ultimately obtain w4 where w4: "finish_all [0..<MAX_THREAD] w3 = Inr w4"
    "\<forall>i\<in>T. file_bytes (w_os w4) (f i) = file_bytes (w_os w3) (f i) @ buf_bytes (tlb w3 i)
      \<and> fd_path (w_os w4) (tb_fd (tlb w3 i)) = None"
    using finish_all_files [OF distinct_upt assms(1) w3(2)] by metis
  have "destroy w = rbind (if do_print_stat (w_ctx w) \<and> is_on (w_ctx w) then output_stat (stop_trace w) else Inr (stop_trace w))
      (\<lambda>w. if \<not> is_on (w_ctx w) then Inr (w\<lparr>w_stat_ok := False\<rparr>)
           else rbind (queue_down (w\<lparr>w_stat_ok := False\<rparr>)) (\<lambda>w.
             rbind (finish_all [0..<MAX_THREAD] w) (\<lambda>w. Inr (w\<lparr>w_tlbufs_ok := False\<rparr>))))"
    unfolding destroy_def queue_down_def Let_def by (simp add: stop_trace_def)
  then have "destroy w = Inr (w4\<lparr>w_tlbufs_ok := False\<rparr>)"
    using w3(1) w4(1) assms(4) unfolding g(1) by (simp add: w2_def stop_trace_def)
  then show ?thesis using w4(2) w3 w2 dk by (simp add: tlog_def)
qed

section \<open>Properties\<close>

text \<open>
  C20. \<^verbatim>\<open>read_config\<close> copes with every environment: whatever the variables hold, it either ends in \<^verbatim>\<open>Die()\<close>
  or yields a configuration with a thread buffer between 1 and 4095 megabytes (so that the
  \<^verbatim>\<open>u32\<close> size never wraps), a lower memory threshold below the upper one, a queue length between 1
  and 1023 if the queue is used, and a terminated, non-empty directory name of at most 220
  characters. No access leaves \<^verbatim>\<open>trace_dir\<close> or an environment string.
\<close>

theorem read_config_bounds:
  assumes "length (trace_dir c) = DIR_MAX_LEN"
  shows "read_config w c = Inl DieCalled \<or>
    (\<exists>c'. read_config w c = Inr c' \<and> config_ok c' \<and> cur_pid c' = cur_pid c \<and> is_on c' = is_on c)"
  using read_config_cases [OF assms] by blast

text \<open>With an empty environment the defaults apply.\<close>

lemma config_defaults:
  assumes "\<forall>v. os_env (w_os w) v = None"
  shows "config_sizes w c \<noteq> Inl DieCalled" "config_switches w c \<noteq> Inl DieCalled" "get_int_opt w v d = Inr d"
proof -
  have g: "get_int_opt w v d = Inr d" for v d using assms by (simp add: get_int_opt_def GetEnv_def)
  then show "get_int_opt w v d = Inr d" .
  show "config_sizes w c \<noteq> Inl DieCalled" "config_switches w c \<noteq> Inl DieCalled"
    by (simp_all add: config_sizes_def config_switches_def g DEFAULT_BUF_PRE_THR_def DEFAULT_IO_Q_SIZE_def ASYNC_IO_ON_def Let_def)
qed

theorem read_config_bounds_witness:
  "read_config (demo_world True [] 0 (demo_queue 0 0)) (demo_ctx True) = Inl DieCalled \<or>
    (\<exists>c'. read_config (demo_world True [] 0 (demo_queue 0 0)) (demo_ctx True) = Inr c' \<and> config_ok c' \<and> cur_pid c' = 7)"
  using read_config_bounds [of "demo_ctx True" "demo_world True [] 0 (demo_queue 0 0)"]
  by (auto simp: demo_ctx_def DIR_MAX_LEN_def)

text \<open>
  C3. \<^verbatim>\<open>UFOContext::destroy\<close> completes the traces: with every traced thread writing to a file of its own,
  it stops the queue, finishes the buffers and leaves in each file exactly the thread's log
  (what was on disk, then what was queued, then what was buffered), all files closed. The
  reports only replace their own two files.
\<close>

theorem destroy_completes_files:
  assumes "inj_on f T" "sys_ok w" "\<forall>i\<in>T. live w i (f i)" "is_on (w_ctx w)"
    and "\<forall>i<MAX_THREAD. i \<notin> T \<longrightarrow> idle w i" "T \<subseteq> {..<MAX_THREAD}"
    and "do_print_stat (w_ctx w) \<Longrightarrow> \<exists>w1. output_stat (stop_trace w) = Inr w1"
    and "\<And>i. i \<in> T \<Longrightarrow> make_path (w_path_junk w) (trace_dir (w_ctx w)) NAME_STAT_FILE \<noteq> Inr (f i)"
    and "\<And>i. i \<in> T \<Longrightarrow> make_path (replicate DIR_MAX_LEN NUL) (trace_dir (w_ctx w)) NAME_STAT_CSV \<noteq> Inr (f i)"
  shows "\<exists>w'. destroy w = Inr w' \<and> (\<forall>i\<in>T. file_bytes (w_os w') (f i) = tlog w i (f i)
    \<and> fd_path (w_os w') (tb_fd (tlb w i)) = None)"
  using assms by (rule destroy_files)

lemma demo_stat_paths:
  assumes "w_path_junk w = replicate 255 NUL" "cstr (trace_dir (w_ctx w)) = ''t''" "terminated (trace_dir (w_ctx w))"
  shows "make_path (w_path_junk w) (trace_dir (w_ctx w)) NAME_STAT_FILE = Inr ''t/_statistics.txt''"
    "make_path (replicate DIR_MAX_LEN NUL) (trace_dir (w_ctx w)) NAME_STAT_CSV = Inr ''t/_statistics.csv''"
proof -
  show "make_path (w_path_junk w) (trace_dir (w_ctx w)) NAME_STAT_FILE = Inr ''t/_statistics.txt''"
    using make_path_eq [of "w_path_junk w" "trace_dir (w_ctx w)" NAME_STAT_FILE] assms by (simp add: NAME_STAT_FILE_def)
  show "make_path (replicate DIR_MAX_LEN NUL) (trace_dir (w_ctx w)) NAME_STAT_CSV = Inr ''t/_statistics.csv''"
    using make_path_eq [of "replicate DIR_MAX_LEN NUL" "trace_dir (w_ctx w)" NAME_STAT_CSV] assms
    by (simp add: NAME_STAT_CSV_def DIR_MAX_LEN_def)
qed

lemma demo_idle: "0 < i \<Longrightarrow> idle (demo_world asyn hdr n q) i"
  by (simp add: idle_def idle_buf_def)

theorem destroy_completes_files_witness:
  "\<exists>w'. destroy (demo_world True [1] 2 (demo_queue 1 3)) = Inr w' \<and> file_bytes (w_os w') ''t/0'' = [1, 5, 5, 5, 0, 0]"
proof -
  let ?w = "demo_world True [1] 2 (demo_queue 1 3)"
  have c: "q_content (demo_queue 1 3) = [demo_task 3]" by (simp add: q_content_def demo_queue_def q_span_def)
  have b: "buf_bytes (demo_buf 2) = [0, 0]" "task_bytes (demo_task 3) = [5, 5, 5]" "file_bytes (demo_os [1]) ''t/0'' = [1]"
    "use_io_q (demo_ctx True)" "is_on (demo_ctx True)" "\<not> do_print_stat (demo_ctx True)" "wt_fd (demo_task 3) = 0"
    using demo_buf_bytes [of 2]
    by (simp_all add: task_bytes_def demo_task_def blk_bytes_def numeral_3_eq_3 numeral_2_eq_2 file_bytes_def demo_os_def demo_ctx_def)
  have "tlog ?w 0 ''t/0'' = [1, 5, 5, 5, 0, 0]" by (simp add: tlog_def disk_def queued_def b c del: One_nat_def)
  moreover have "\<exists>w'. destroy ?w = Inr w' \<and> (\<forall>i\<in>{0}. file_bytes (w_os w') ''t/0'' = tlog ?w i ''t/0''
      \<and> fd_path (w_os w') (tb_fd (tlb ?w i)) = None)"
    using demo_live [of 2] demo_sys_ok [of 1 3] demo_idle demo_stat_paths [of ?w]
    by (intro destroy_completes_files) (simp_all add: b MAX_THREAD_def)
  ultimately show ?thesis by auto
qed

end
