(* ===== verification/Ufo_Interface.thy ===== *)
theory Ufo_Interface
  imports Ufo_Context
begin

text \<open>
  The interface the ThreadSanitizer runtime calls (\<^verbatim>\<open>ufo_interface.h\<close>, \<^verbatim>\<open>ufo_interface.cc\<close>,
  \<^verbatim>\<open>dummy_rtl.h\<close>): start and finish, the fork hooks, and one hook per event that calls the
  function its pointer currently holds.
\<close>

section \<open>Start, finish, fork\<close>

definition init_ufo :: "world \<Rightarrow> (bool \<times> world) res" where
  "init_ufo w =
     (if w_started w then Inr (True, w)
      else rbind (init_start w) (\<lambda>w. Inr (True, w\<lparr>w_started := True\<rparr>)))"

definition finish_ufo :: "world \<Rightarrow> (bool \<times> world) res" where
  "finish_ufo w =
     (if \<not> w_started w then Inr (False, w)
      else rbind (destroy w) (\<lambda>w. Inr (False, w\<lparr>w_started := False\<rparr>)))"

definition before_fork :: "world \<Rightarrow> world" where
  "before_fork w = (stop_trace w)\<lparr>w_started := False\<rparr>"

definition parent_after_fork :: "world \<Rightarrow> world" where
  "parent_after_fork w = w\<lparr>w_started := True\<rparr>"

definition child_after_fork :: "world \<Rightarrow> world res" where
  "child_after_fork w = rbind (ctx_child_after_fork w) (\<lambda>w. Inr (w\<lparr>w_started := True\<rparr>))"

section \<open>Event hooks\<close>

text \<open>A \<^verbatim>\<open>nop_\<close> function returns at once; \<^verbatim>\<open>nop_alloc\<close> returns its argument.\<close>

definition call :: "fp_hook \<Rightarrow> (world \<Rightarrow> world res) \<Rightarrow> world \<Rightarrow> world res" where
  "call fp impl w = (case fp of Nop \<Rightarrow> Inr w | Impl \<Rightarrow> impl w)"

definition on_mtx_lock :: "nat \<Rightarrow> u64 \<Rightarrow> u64 \<Rightarrow> world \<Rightarrow> world res" where
  "on_mtx_lock tid pc mutex_id w = call (fn_mtx_lock (w_fns w)) (impl_mtx_lock tid pc mutex_id) w"

definition on_mtx_unlock :: "nat \<Rightarrow> u64 \<Rightarrow> u64 \<Rightarrow> world \<Rightarrow> world res" where
  "on_mtx_unlock tid pc mutex_id w = call (fn_mtx_unlock (w_fns w)) (impl_mtx_unlock tid pc mutex_id) w"

definition on_cond_wait :: "nat \<Rightarrow> u64 \<Rightarrow> u64 \<Rightarrow> u64 \<Rightarrow> world \<Rightarrow> world res" where
  "on_cond_wait tid pc addr_cond addr_mtx w =
     call (fn_cond_wait (w_fns w)) (impl_cond_wait tid pc addr_cond addr_mtx) w"

definition on_cond_signal :: "nat \<Rightarrow> u64 \<Rightarrow> u64 \<Rightarrow> world \<Rightarrow> world res" where
  "on_cond_signal tid pc addr_cond w = call (fn_cond_signal (w_fns w)) (impl_cond_signal tid pc addr_cond) w"

definition on_cond_broadcast :: "nat \<Rightarrow> u64 \<Rightarrow> u64 \<Rightarrow> world \<Rightarrow> world res" where
  "on_cond_broadcast tid pc addr_cond w = call (fn_cond_bc (w_fns w)) (impl_cond_broadcast tid pc addr_cond) w"

definition on_alloc :: "nat \<Rightarrow> u64 \<Rightarrow> u64 \<Rightarrow> u64 \<Rightarrow> world \<Rightarrow> (u64 \<times> world) res" where
  "on_alloc tid pc addr_left sz w =
     (case fn_alloc (w_fns w) of Nop \<Rightarrow> Inr (addr_left, w) | Impl \<Rightarrow> impl_alloc tid pc addr_left sz w)"

definition on_dealloc :: "nat \<Rightarrow> u64 \<Rightarrow> u64 \<Rightarrow> u64 \<Rightarrow> world \<Rightarrow> world res" where
  "on_dealloc tid pc addr sz w = call (fn_dealloc (w_fns w)) (impl_dealloc tid pc addr sz) w"

definition on_mem_acc :: "nat \<Rightarrow> u64 \<Rightarrow> u64 \<Rightarrow> nat \<Rightarrow> bool \<Rightarrow> world \<Rightarrow> world res" where
  "on_mem_acc tid pc addr kAccessSizeLog is_write w =
     (case fn_mem_acc (w_fns w) of
        NopMem \<Rightarrow> Inr w
      | ImplMem \<Rightarrow> impl_mem_acc tid pc addr kAccessSizeLog is_write w
      | ImplMemNv \<Rightarrow> impl_mem_acc_nv tid pc addr kAccessSizeLog is_write w
      | NsMem \<Rightarrow> ns_mem_acc tid pc addr kAccessSizeLog is_write w
      | NsMemNv \<Rightarrow> ns_mem_acc_nv tid pc addr kAccessSizeLog is_write w)"

definition on_mem_range_acc :: "nat \<Rightarrow> u64 \<Rightarrow> u64 \<Rightarrow> u64 \<Rightarrow> bool \<Rightarrow> world \<Rightarrow> world res" where
  "on_mem_range_acc tid pc addr sz is_write w =
     (case fn_mem_range_acc (w_fns w) of
        NopRange \<Rightarrow> Inr w
      | ImplRange \<Rightarrow> impl_mem_range_acc tid pc addr sz is_write w
      | NsRange \<Rightarrow> ns_mem_range_acc tid pc addr sz is_write w)"

definition on_thread_created :: "nat \<Rightarrow> nat \<Rightarrow> u64 \<Rightarrow> world \<Rightarrow> world res" where
  "on_thread_created tid_parent tid_kid pc w =
     rbind (start_trace w) (\<lambda>w.
       call (fn_thread_created (w_fns w)) (impl_thread_created tid_parent tid_kid pc) w)"

definition on_thread_start :: "nat \<Rightarrow> u64 \<Rightarrow> u64 \<Rightarrow> u64 \<Rightarrow> u64 \<Rightarrow> world \<Rightarrow> world res" where
  "on_thread_start tid stk_addr stk_size tls_addr tls_size w =
     call (fn_thread_started (w_fns w)) (impl_thread_started tid stk_addr stk_size tls_addr tls_size) w"

definition on_thread_join :: "nat \<Rightarrow> nat \<Rightarrow> u64 \<Rightarrow> world \<Rightarrow> world res" where
  "on_thread_join tid_main tid_joiner pc w =
     call (fn_thread_join (w_fns w)) (impl_thread_join tid_main tid_joiner pc) w"

definition on_thread_end :: "nat \<Rightarrow> world \<Rightarrow> world res" where
  "on_thread_end tid w = call (fn_thread_end (w_fns w)) (impl_thread_end tid) w"

definition enter_func :: "nat \<Rightarrow> u64 \<Rightarrow> world \<Rightarrow> world res" where
  "enter_func tid pc w = call (fn_enter_func (w_fns w)) (impl_enter_func tid pc) w"

definition exit_func :: "nat \<Rightarrow> world \<Rightarrow> world res" where
  "exit_func tid w = call (fn_exit_func (w_fns w)) (impl_exit_func tid) w"

definition on_ptr_prop :: "nat \<Rightarrow> u64 \<Rightarrow> u64 \<Rightarrow> u64 \<Rightarrow> world \<Rightarrow> world res" where
  "on_ptr_prop tid pc addr_src addr_dest w =
     call (fn_ptr_prop (w_fns w)) (impl_ptr_prop tid pc addr_src addr_dest) w"

definition on_ptr_deref :: "nat \<Rightarrow> u64 \<Rightarrow> u64 \<Rightarrow> world \<Rightarrow> world res" where
  "on_ptr_deref tid pc addr_ptr w = call (fn_ptr_deref (w_fns w)) (impl_ptr_deref tid pc addr_ptr) w"

section \<open>Hooks as data\<close>

datatype hook =
    HLock nat u64 u64 | HUnlock nat u64 u64
  | HCondWait nat u64 u64 u64 | HCondSignal nat u64 u64 | HCondBroadcast nat u64 u64
  | HAlloc nat u64 u64 u64 | HDealloc nat u64 u64 u64
  | HAcc nat u64 u64 nat bool | HRange nat u64 u64 u64 bool
  | HCreate nat nat u64 | HStart nat u64 u64 u64 u64 | HJoin nat nat u64 | HEnd nat
  | HEnter nat u64 | HExit nat | HPtrProp nat u64 u64 u64 | HPtrDeref nat u64 u64

fun run_hook :: "hook \<Rightarrow> world \<Rightarrow> world res" where
  "run_hook (HLock tid pc m) w = on_mtx_lock tid pc m w"
| "run_hook (HUnlock tid pc m) w = on_mtx_unlock tid pc m w"
| "run_hook (HCondWait tid pc c m) w = on_cond_wait tid pc c m w"
| "run_hook (HCondSignal tid pc c) w = on_cond_signal tid pc c w"
| "run_hook (HCondBroadcast tid pc c) w = on_cond_broadcast tid pc c w"
| "run_hook (HAlloc tid pc a sz) w = rbind (on_alloc tid pc a sz w) (\<lambda>(_, w). Inr w)"
| "run_hook (HDealloc tid pc a sz) w = on_dealloc tid pc a sz w"
| "run_hook (HAcc tid pc a lg isw) w = on_mem_acc tid pc a lg isw w"
| "run_hook (HRange tid pc a sz isw) w = on_mem_range_acc tid pc a sz isw w"
| "run_hook (HCreate tid kid pc) w = on_thread_created tid kid pc w"
| "run_hook (HStart tid sa ss ta ts) w = on_thread_start tid sa ss ta ts w"
| "run_hook (HJoin tid kid pc) w = on_thread_join tid kid pc w"
| "run_hook (HEnd tid) w = on_thread_end tid w"
| "run_hook (HEnter tid pc) w = enter_func tid pc w"
| "run_hook (HExit tid) w = exit_func tid w"
| "run_hook (HPtrProp tid pc a b) w = on_ptr_prop tid pc a b w"
| "run_hook (HPtrDeref tid pc a) w = on_ptr_deref tid pc a w"

text \<open>While the tracing is stopped every hook but thread creation leaves the world as it is.\<close>

lemma stopped_hooks:
  assumes "w_fns w = nop_fns" "\<forall>tid kid pc. h \<noteq> HCreate tid kid pc"
  shows "run_hook h w = Inr w"
  using assms
  by (cases h) (simp_all add: on_mtx_lock_def on_mtx_unlock_def on_cond_wait_def on_cond_signal_def
      on_cond_broadcast_def on_alloc_def on_dealloc_def on_mem_acc_def on_mem_range_acc_def
      on_thread_start_def on_thread_join_def on_thread_end_def enter_func_def exit_func_def
      on_ptr_prop_def on_ptr_deref_def call_def nop_fns_def)

lemma off_create:
  "w_fns w = nop_fns \<Longrightarrow> \<not> is_on (w_ctx w) \<Longrightarrow> run_hook (HCreate tid kid pc) w = Inr w"
  by (simp add: on_thread_created_def start_trace_def call_def nop_fns_def)

lemma start_trace_ptr: "start_trace w = Inr w' \<Longrightarrow> fn_ptr_prop (w_fns w') = fn_ptr_prop (w_fns w)
    \<and> fn_ptr_deref (w_fns w') = fn_ptr_deref (w_fns w)"
  by (cases "is_on (w_ctx w)"; cases "trace_func_call (w_ctx w)")
     (auto simp: start_trace_def Let_def if_distrib [of fn_ptr_prop] if_distrib [of fn_ptr_deref])

lemma start_trace_total: "\<exists>w'. start_trace w = Inr w'"
proof -
  obtain i j where "get_int_opt w ''UFO_NO_STACK'' NO_STACK_ACC = Inr i" "get_int_opt w ''UFO_NO_VALUE'' 0 = Inr j"
    using get_int_opt_total by metis
  then show ?thesis by (simp add: start_trace_def Let_def)
qed

text \<open>Hooks one after the other, and the functions \<^verbatim>\<open>start_trace\<close> installs over empty ones.\<close>

fun run_hooks :: "hook list \<Rightarrow> world \<Rightarrow> world res" where
  "run_hooks [] w = Inr w"
| "run_hooks (h # hs) w = rbind (run_hook h w) (run_hooks hs)"

definition session_fns :: "bool \<Rightarrow> bool \<Rightarrow> bool \<Rightarrow> fns" where
  "session_fns calls no_stk no_val =
     (let fc = (if calls then Impl else Nop) in
     \<lparr>fn_alloc = Impl, fn_dealloc = Impl, fn_thread_created = Impl, fn_thread_started = Impl,
      fn_thread_join = Impl, fn_thread_end = Impl, fn_mtx_lock = Impl, fn_mtx_unlock = Impl,
      fn_rd_lock = Impl, fn_rd_unlock = Impl, fn_rw_unlock = Impl, fn_cond_wait = Impl,
      fn_cond_signal = Impl, fn_cond_bc = Impl,
      fn_mem_acc = (if no_stk then if no_val then NsMemNv else NsMem else if no_val then ImplMemNv else ImplMem),
      fn_mem_range_acc = (if no_stk then NsRange else ImplRange),
      fn_enter_func = fc, fn_exit_func = fc, fn_ptr_prop = Nop, fn_ptr_deref = Nop\<rparr>)"

lemma start_trace_stopped:
  assumes "w_fns w = nop_fns" "is_on (w_ctx w)"
    and "get_int_opt w ''UFO_NO_STACK'' NO_STACK_ACC = Inr i" "get_int_opt w ''UFO_NO_VALUE'' 0 = Inr j"
  shows "start_trace w = Inr (w\<lparr>w_ctx := (w_ctx w)\<lparr>no_data_value := (j \<noteq> 0), no_stack := (i \<noteq> 0)\<rparr>,
      w_fns := session_fns (trace_func_call (w_ctx w)) (i \<noteq> 0) (j \<noteq> 0)\<rparr>)"
  using assms by (simp add: start_trace_def session_fns_def nop_fns_def Let_def)

lemma run_hooks_stopped:
  assumes "w_fns w = nop_fns" "\<forall>h\<in>set as. is_on (w_ctx w) \<longrightarrow> (\<forall>tid kid pc. h \<noteq> HCreate tid kid pc)"
  shows "run_hooks (as @ bs) w = run_hooks bs w"
  using assms(2)
proof (induction as)
  case (Cons h as)
  have "run_hook h w = Inr w"
  proof (cases "\<forall>tid kid pc. h \<noteq> HCreate tid kid pc")
    case False
    then show ?thesis using Cons.prems off_create [OF assms(1)] by auto
  qed (rule stopped_hooks [OF assms(1)])
  then show ?case using Cons by simp
qed simp

section \<open>Properties\<close>

text \<open>
  C21. While the tracing is stopped, after \<^verbatim>\<open>stop_trace\<close> and in the parent after a fork, the hooks are without
  effect up to the next thread creation: in any sequence of hooks those before it return normally
  and leave buffers, statistics, queue and files as they are. With UFO switched off this includes
  thread creation. With UFO on, the first thread creation installs the handlers that the
  environment and the configuration select, all but the pointer handlers, and is recorded with them; everything
  after it runs with these handlers.
\<close>

theorem stopped_until_thread_creation:
  assumes "s = stop_trace w \<or> s = parent_after_fork (before_fork w)"
    and "\<forall>h\<in>set as. is_on (w_ctx w) \<longrightarrow> (\<forall>tid kid pc. h \<noteq> HCreate tid kid pc)"
  shows "run_hooks (as @ bs) s = run_hooks bs s
    \<and> (is_on (w_ctx w) \<longrightarrow>
        (\<exists>i j. get_int_opt s ''UFO_NO_STACK'' NO_STACK_ACC = Inr i \<and> get_int_opt s ''UFO_NO_VALUE'' 0 = Inr j
          \<and> run_hooks (as @ HCreate tid kid pc # bs) s =
              rbind (impl_thread_created tid kid pc
                (s\<lparr>w_ctx := (w_ctx w)\<lparr>no_data_value := (j \<noteq> 0), no_stack := (i \<noteq> 0)\<rparr>,
                   w_fns := session_fns (trace_func_call (w_ctx w)) (i \<noteq> 0) (j \<noteq> 0)\<rparr>)) (run_hooks bs)))"
proof (intro conjI impI)
  have s: "w_fns s = nop_fns" "w_ctx s = w_ctx w"
    using assms(1) by (auto simp: stop_trace_def parent_after_fork_def before_fork_def)
  have skip: "run_hooks (as @ hs) s = run_hooks hs s" for hs
    using run_hooks_stopped [OF s(1)] assms(2) s(2) by simp
  show "run_hooks (as @ bs) s = run_hooks bs s" by (rule skip)
  assume on: "is_on (w_ctx w)"
  obtain i j where ij: "get_int_opt s ''UFO_NO_STACK'' NO_STACK_ACC = Inr i" "get_int_opt s ''UFO_NO_VALUE'' 0 = Inr j"
    using get_int_opt_total by metis
  have "fn_thread_created (session_fns c a b) = Impl" for c a b by (simp add: session_fns_def Let_def)
  then show "\<exists>i j. get_int_opt s ''UFO_NO_STACK'' NO_STACK_ACC = Inr i \<and> get_int_opt s ''UFO_NO_VALUE'' 0 = Inr j
      \<and> run_hooks (as @ HCreate tid kid pc # bs) s =
          rbind (impl_thread_created tid kid pc
            (s\<lparr>w_ctx := (w_ctx w)\<lparr>no_data_value := (j \<noteq> 0), no_stack := (i \<noteq> 0)\<rparr>,
               w_fns := session_fns (trace_func_call (w_ctx w)) (i \<noteq> 0) (j \<noteq> 0)\<rparr>)) (run_hooks bs)"
    using ij start_trace_stopped [OF s(1) _ ij] on s(2)
    by (intro exI [of _ i] exI [of _ j]) (simp add: skip on_thread_created_def call_def)
qed

theorem stopped_until_thread_creation_witness:
  "\<exists>i j. run_hooks [HAcc 0 9 100 3 True, HLock 0 6 5, HCreate 0 1 7] (parent_after_fork (before_fork (demo_world True [] 50 (demo_queue 0 0)))) =
     impl_thread_created 0 1 7 ((parent_after_fork (before_fork (demo_world True [] 50 (demo_queue 0 0))))
       \<lparr>w_ctx := (demo_ctx True)\<lparr>no_data_value := j, no_stack := i\<rparr>,
        w_fns := session_fns (trace_func_call (demo_ctx True)) i j\<rparr>)"
proof -
  let ?w = "demo_world True [] 50 (demo_queue 0 0)"
  have on: "is_on (w_ctx ?w)" by (simp add: demo_ctx_def)
  have id: "rbind r (run_hooks []) = r" for r by (cases r) simp_all
  have "\<forall>h\<in>set [HAcc 0 9 100 3 True, HLock 0 6 5]. is_on (w_ctx ?w) \<longrightarrow> (\<forall>tid kid pc. h \<noteq> HCreate tid kid pc)" by simp
  note t = stopped_until_thread_creation [OF disjI2 [OF refl] this, of "[]" 0 1 7, THEN conjunct2, rule_format, OF on, unfolded id]
  then show ?thesis by auto
qed

text \<open>
  C22. The pointer hooks are dead: \<^verbatim>\<open>start_trace\<close> never installs the pointer handlers, whatever
  \<^verbatim>\<open>UFO_PTR_PROP\<close> says, so after the functions were reset a pointer event is never recorded.
\<close>

theorem ptr_hooks_never_record:
  assumes "start_trace (stop_trace w) = Inr w'"
  shows "run_hook (HPtrProp tid pc a b) w' = Inr w' \<and> run_hook (HPtrDeref tid pc a) w' = Inr w'"
  using start_trace_ptr [OF assms]
  by (simp add: on_ptr_prop_def on_ptr_deref_def call_def stop_trace_def nop_fns_def)

theorem ptr_hooks_never_record_witness:
  "\<exists>w'. start_trace (stop_trace (demo_world True [] 0 (demo_queue 0 0))) = Inr w' \<and> run_hook (HPtrDeref 0 1 2) w' = Inr w'"
proof -
  let ?w = "stop_trace (demo_world True [] 0 (demo_queue 0 0))"
  obtain w' where "start_trace ?w = Inr w'" using start_trace_total by blast
  then show ?thesis using ptr_hooks_never_record [of "demo_world True [] 0 (demo_queue 0 0)" w' 0 1 2] by blast
qed

end
