(* ===== verification/Ufo_Loader.thy ===== *)
theory Ufo_Loader
  imports Ufo_Events
begin

text \<open>
  The consumer of a trace file: the byte reader and the event decoder of
  \<^verbatim>\<open>ufo-predict\<close> (\<^verbatim>\<open>LoadingTask2.java\<close>, \<^verbatim>\<open>Bytes.java\<close>). Java's \<^verbatim>\<open>byte\<close>,
  \<^verbatim>\<open>short\<close>, \<^verbatim>\<open>int\<close> and \<^verbatim>\<open>long\<close> are words; the widening conversions of \<^verbatim>\<open>byte\<close> are
  sign extensions, as in Java.
\<close>

section \<open>Reading integers\<close>

text \<open>
  \<^verbatim>\<open>read()\<close> returns \<open>-1\<close> at the end of the file; the cast to \<^verbatim>\<open>byte\<close> in the readers below
  turns that into \<open>0xff\<close>.
\<close>

fun read_byte :: "byte list \<Rightarrow> byte \<times> byte list" where
  "read_byte [] = (0xff, [])"
| "read_byte (b # bs) = (b, bs)"

definition shorts_add :: "byte \<Rightarrow> byte \<Rightarrow> u16" where
  "shorts_add a b = push_bit 8 (scast a) OR (scast b AND 0xff)"

definition ints_Ladd :: "byte \<Rightarrow> byte \<Rightarrow> byte \<Rightarrow> byte \<Rightarrow> u32" where
  "ints_Ladd b3 b2 b1 b0 =
     push_bit 24 (scast b3) OR push_bit 16 (scast b2 AND 0xff)
       OR push_bit 8 (scast b1 AND 0xff) OR (scast b0 AND 0xff)"

definition longs_Ladd ::
    "byte \<Rightarrow> byte \<Rightarrow> byte \<Rightarrow> byte \<Rightarrow> byte \<Rightarrow> byte \<Rightarrow> byte \<Rightarrow> byte \<Rightarrow> u64" where
  "longs_Ladd b7 b6 b5 b4 b3 b2 b1 b0 =
     push_bit 56 (scast b7) OR push_bit 48 (scast b6 AND 0xff)
       OR push_bit 40 (scast b5 AND 0xff) OR push_bit 32 (scast b4 AND 0xff)
       OR push_bit 24 (scast b3 AND 0xff) OR push_bit 16 (scast b2 AND 0xff)
       OR push_bit 8 (scast b1 AND 0xff) OR (scast b0 AND 0xff)"

definition getShort :: "byte list \<Rightarrow> u16 \<times> byte list" where
  "getShort r =
     (let (b1, r) = read_byte r; (b2, r) = read_byte r in (shorts_add b2 b1, r))"

definition getInt :: "byte list \<Rightarrow> u32 \<times> byte list" where
  "getInt r =
     (let (b1, r) = read_byte r; (b2, r) = read_byte r;
          (b3, r) = read_byte r; (b4, r) = read_byte r
      in (ints_Ladd b4 b3 b2 b1, r))"

definition getLong48b :: "byte list \<Rightarrow> u64 \<times> byte list" where
  "getLong48b r =
     (let (b0, r) = read_byte r; (b1, r) = read_byte r; (b2, r) = read_byte r;
          (b3, r) = read_byte r; (b4, r) = read_byte r; (b5, r) = read_byte r
      in (longs_Ladd 0 0 b5 b4 b3 b2 b1 b0, r))"

definition getLong64b :: "byte list \<Rightarrow> u64 \<times> byte list" where
  "getLong64b r =
     (let (b0, r) = read_byte r; (b1, r) = read_byte r; (b2, r) = read_byte r;
          (b3, r) = read_byte r; (b4, r) = read_byte r; (b5, r) = read_byte r;
          (b6, r) = read_byte r; (b7, r) = read_byte r
      in (longs_Ladd b7 b6 b5 b4 b3 b2 b1 b0, r))"

text \<open>The masking undoes the sign extension.\<close>

lemma take_bit_scast:
  "take_bit 8 (scast (b :: byte) :: u16) = ucast b"
  "take_bit 8 (scast (b :: byte) :: u32) = ucast b"
  "take_bit 8 (scast (b :: byte) :: u64) = ucast b"
  by (rule take_bit_scast_len; simp)+

lemma scast_and_ff:
  "(scast (b :: byte) :: u16) AND 0xff = ucast b"
  "(scast (b :: byte) :: u32) AND 0xff = ucast b"
  "(scast (b :: byte) :: u64) AND 0xff = ucast b"
proof -
  have ff: "(0xff :: u16) = mask 8" "(0xff :: u32) = mask 8" "(0xff :: u64) = mask 8"
    by (simp_all add: mask_eq_exp_minus_1)
  show "(scast b :: u16) AND 0xff = ucast b" "(scast b :: u32) AND 0xff = ucast b"
    "(scast b :: u64) AND 0xff = ucast b"
    unfolding ff by (simp_all add: take_bit_eq_mask [symmetric] take_bit_scast)
qed

lemma push_bit_scast:
  "push_bit 8 (scast (b :: byte) :: u16) = push_bit 8 (ucast b)"
  "push_bit 24 (scast (b :: byte) :: u32) = push_bit 24 (ucast b)"
  "push_bit 56 (scast (b :: byte) :: u64) = push_bit 56 (ucast b)"
  unfolding take_bit_scast [symmetric]
  by (rule bit_word_eqI; auto simp: bit_push_bit_iff bit_take_bit_iff)+

lemmas ladd_defs = shorts_add_def ints_Ladd_def longs_Ladd_def scast_and_ff push_bit_scast

lemmas ladd_bits = bit_or_iff bit_push_bit_iff bit_ucast_iff bit_drop_bit_eq bit_take_bit_iff

lemma getShort_le [simp]: "getShort (le_bytes 2 (ucast (w :: u16)) @ r) = (w, r)"
proof -
  have "shorts_add (ucast (drop_bit 8 (ucast w :: u64))) (ucast (ucast w :: u64)) = w"
    unfolding ladd_defs by (rule bit_word_eqI) (auto simp: ladd_bits)
  then show ?thesis
    by (simp add: getShort_def numeral_2_eq_2)
qed

lemma longs_Ladd_le_word:
  "longs_Ladd b7 b6 b5 b4 b3 b2 b1 b0 = le_word [b0, b1, b2, b3, b4, b5, b6, b7]"
  by (simp add: ladd_defs push_bit_or ac_simps)

lemma le_word_append_0 [simp]: "le_word (bs @ [0]) = le_word bs"
  by (induction bs) simp_all

lemma getInt_le [simp]: "getInt (le_bytes 4 (ucast (w :: u32)) @ r) = (w, r)"
proof -
  have "ints_Ladd (ucast (drop_bit 24 (ucast w :: u64))) (ucast (drop_bit 16 (ucast w :: u64)))
      (ucast (drop_bit 8 (ucast w :: u64))) (ucast (ucast w :: u64)) = w"
    unfolding ladd_defs by (rule bit_word_eqI) (auto simp: ladd_bits)
  then show ?thesis
    by (simp add: getInt_def numeral_eq_Suc)
qed

lemma getLong48b_le [simp]: "getLong48b (le_bytes 6 w @ r) = (take_bit 48 w, r)"
proof -
  have "getLong48b (le_bytes 6 w @ r) = (le_word ((le_bytes 6 w @ [0]) @ [0]), r)"
    by (simp add: getLong48b_def numeral_eq_Suc longs_Ladd_le_word)
  then show ?thesis by (simp del: append_assoc)
qed

lemma getLong64b_le [simp]: "getLong64b (le_bytes 8 w @ r) = (w, r)"
proof -
  have "getLong64b (le_bytes 8 w @ r) = (le_word (le_bytes 8 w), r)"
    by (simp add: getLong64b_def numeral_eq_Suc longs_Ladd_le_word)
  then show ?thesis by simp
qed

section \<open>Nodes\<close>

datatype node =
    TBeginNode u16 u16 u32
  | TEndNode u16 u16 u32
  | TStartNode u64 u16 u16 u32 u64
  | TJoinNode u64 u16 u16 u32 u64
  | LockNode u16 u64 u64
  | UnlockNode u16 u64 u64
  | AllocNode u16 u64 u64 u32
  | DeallocNode u16 u64 u64 u32
  | RangeReadNode u16 u64 u64 u32
  | RangeWriteNode u16 u64 u64 u32
  | PtrPropNode u16 u64 u64
  | FuncEntryNode u16 u64
  | FuncExitNode u16
  | WaitNode u64 u16 u64 u64 u64
  | NotifyNode u64 u16 u64 u64
  | NotifyAllNode u64 u16 u64 u64
  | ReadNode u16 u64 u64 nat u64
  | WriteNode u16 u64 u64 nat u64

fun is_ISyncNode :: "node \<Rightarrow> bool" where
  "is_ISyncNode (TBeginNode _ _ _) = True"
| "is_ISyncNode (TEndNode _ _ _) = True"
| "is_ISyncNode (TStartNode _ _ _ _ _) = True"
| "is_ISyncNode (TJoinNode _ _ _ _ _) = True"
| "is_ISyncNode (LockNode _ _ _) = True"
| "is_ISyncNode (UnlockNode _ _ _) = True"
| "is_ISyncNode (WaitNode _ _ _ _ _) = True"
| "is_ISyncNode (NotifyNode _ _ _ _) = True"
| "is_ISyncNode (NotifyAllNode _ _ _ _) = True"
| "is_ISyncNode _ = False"

fun is_MemAccNode :: "node \<Rightarrow> bool" where
  "is_MemAccNode (RangeReadNode _ _ _ _) = True"
| "is_MemAccNode (RangeWriteNode _ _ _ _) = True"
| "is_MemAccNode (ReadNode _ _ _ _ _) = True"
| "is_MemAccNode (WriteNode _ _ _ _ _) = True"
| "is_MemAccNode _ = False"

text \<open>
  What decoding one event yields: a node, nothing, or the pointer of a de-reference event,
  which the loader stores into the last memory access.
\<close>

datatype got = Node node | NoNode | DeRef u64

fun read_bytes :: "nat \<Rightarrow> byte list \<Rightarrow> byte list \<times> byte list" where
  "read_bytes 0 r = ([], r)"
| "read_bytes (Suc n) r =
     (let (b, r) = read_byte r; (bs, r) = read_bytes n r in (b # bs, r))"

definition value_of :: "byte list \<Rightarrow> u64" where
  "value_of vs =
     (if length vs = 1 then scast (vs ! 0)
      else if length vs = 2 then scast (shorts_add (vs ! 1) (vs ! 0))
      else if length vs = 4 then scast (ints_Ladd (vs ! 3) (vs ! 2) (vs ! 1) (vs ! 0))
      else longs_Ladd (vs ! 7) (vs ! 6) (vs ! 5) (vs ! 4) (vs ! 3) (vs ! 2) (vs ! 1) (vs ! 0))"

definition getRWNode :: "nat \<Rightarrow> bool \<Rightarrow> u16 \<Rightarrow> byte list \<Rightarrow> node \<times> byte list" where
  "getRWNode sz isW curTid r =
     (let (addr, r) = getLong48b r; (pc, r) = getLong48b r; (vs, r) = read_bytes sz r
      in (if isW then WriteNode curTid pc addr sz (value_of vs)
          else ReadNode curTid pc addr sz (value_of vs), r))"

definition getNode :: "u16 \<Rightarrow> byte \<Rightarrow> byte list \<Rightarrow> got \<times> byte list" where
  "getNode curTid typeIdx r =
     (if typeIdx = 0 then
        let (tidParent, r) = getShort r; (pc, r) = getLong48b r; (eTime, r) = getInt r;
            (tmp, r) = getLong48b r; (tmp', r) = getInt r; (tmp, r) = getLong48b r; (tmp', r) = getInt r
        in (Node (TBeginNode curTid tidParent eTime), r)
      else if typeIdx = 1 then
        let (tidParent, r) = getShort r; (eTime, r) = getInt r
        in (Node (TEndNode curTid tidParent eTime), r)
      else if typeIdx = 2 then
        let (index, r) = getLong48b r; (tidKid, r) = getShort r; (eTime, r) = getInt r; (pc, r) = getLong48b r
        in (Node (TStartNode index curTid tidKid eTime pc), r)
      else if typeIdx = 3 then
        let (index, r) = getLong48b r; (tidKid, r) = getShort r; (eTime, r) = getInt r; (pc, r) = getLong48b r
        in (Node (TJoinNode index curTid tidKid eTime pc), r)
      else if typeIdx = 4 then
        let (addr, r) = getLong48b r; (pc, r) = getLong48b r in (Node (LockNode curTid addr pc), r)
      else if typeIdx = 5 then
        let (addr, r) = getLong48b r; (pc, r) = getLong48b r in (Node (UnlockNode curTid addr pc), r)
      else if typeIdx = 6 then
        let (addr, r) = getLong48b r; (pc, r) = getLong48b r; (sz, r) = getInt r
        in (Node (AllocNode curTid pc addr sz), r)
      else if typeIdx = 7 then
        let (addr, r) = getLong48b r; (pc, r) = getLong48b r; (sz, r) = getInt r
        in (Node (DeallocNode curTid pc addr sz), r)
      else if typeIdx = 10 then
        let (addr, r) = getLong48b r; (pc, r) = getLong48b r; (sz, r) = getInt r
        in (Node (RangeReadNode curTid pc addr sz), r)
      else if typeIdx = 11 then
        let (addr, r) = getLong48b r; (pc, r) = getLong48b r; (sz, r) = getInt r
        in (Node (RangeWriteNode curTid pc addr sz), r)
      else if typeIdx = 12 then
        let (src, r) = getLong48b r; (dest, r) = getLong48b r in (Node (PtrPropNode curTid src dest), r)
      else if typeIdx = 14 then
        let (time, r) = getLong64b r; (len, r) = getLong64b r in (NoNode, r)
      else if typeIdx = 15 then
        let (pc, r) = getLong48b r in (Node (FuncEntryNode curTid pc), r)
      else if typeIdx = 16 then (Node (FuncExitNode curTid), r)
      else if typeIdx = 17 then
        let (index, r) = getLong48b r; (cond, r) = getLong48b r; (mutex, r) = getLong48b r; (pc, r) = getLong48b r
        in (Node (WaitNode index curTid cond mutex pc), r)
      else if typeIdx = 18 then
        let (index, r) = getLong48b r; (cond, r) = getLong48b r; (pc, r) = getLong48b r
        in (Node (NotifyNode index curTid cond pc), r)
      else if typeIdx = 19 then
        let (index, r) = getLong48b r; (cond, r) = getLong48b r; (pc, r) = getLong48b r
        in (Node (NotifyAllNode index curTid cond pc), r)
      else if typeIdx = 20 then
        let (ptrAddr, r) = getLong48b r in (DeRef ptrAddr, r)
      else
        let type_idx = typeIdx AND 0x3f; sz = 2 ^ unat (drop_bit 6 typeIdx) in
        if type_idx \<le> 13 then
          (if type_idx = 8 then let (accN, r) = getRWNode sz False curTid r in (Node accN, r)
           else if type_idx = 9 then let (accN, r) = getRWNode sz True curTid r in (Node accN, r)
           else (NoNode, r))
        else (NoNode, r))"

section \<open>Decoding what the runtime encodes\<close>

text \<open>
  A trace is a sequence of items: an event, or a memory access event followed by the bytes
  accessed.
\<close>

datatype item = Plain event | Access bool nat u64 u64 "byte list"

fun encode_item :: "item \<Rightarrow> byte list" where
  "encode_item (Plain e) = encode e"
| "encode_item (Access w lg a p vs) = encode (MemAccEvent w lg a p) @ vs"

fun wf_item :: "item \<Rightarrow> bool" where
  "wf_item (Plain (MemAccEvent _ _ _ _)) = False"
| "wf_item (Plain _) = True"
| "wf_item (Access w lg a p vs) = (lg \<le> 3 \<and> length vs = 2 ^ lg)"

abbreviation "t48 \<equiv> take_bit 48 :: u64 \<Rightarrow> u64"

text \<open>
  The node an item stands for. A broadcast is decoded as a signal: both structs carry the
  type index of the signal.
\<close>

fun got_of :: "u16 \<Rightarrow> item \<Rightarrow> got" where
  "got_of tid (Plain (AllocEvent a p d)) = Node (AllocNode tid (t48 p) (t48 a) d)"
| "got_of tid (Plain (DeallocEvent a p d)) = Node (DeallocNode tid (t48 p) (t48 a) d)"
| "got_of tid (Plain (LockEvent m p)) = Node (LockNode tid (t48 m) (t48 p))"
| "got_of tid (Plain (UnlockEvent m p)) = Node (UnlockNode tid (t48 m) (t48 p))"
| "got_of tid (Plain (ThrCondWaitEvent i c m p)) = Node (WaitNode (t48 i) tid (t48 c) (t48 m) (t48 p))"
| "got_of tid (Plain (ThrCondSignalEvent i c p)) = Node (NotifyNode (t48 i) tid (t48 c) (t48 p))"
| "got_of tid (Plain (ThrCondBCEvent i c p)) = Node (NotifyNode (t48 i) tid (t48 c) (t48 p))"
| "got_of tid (Plain (MemRangeAccEvent w a p d)) =
     Node (if w then RangeWriteNode tid (t48 p) (t48 a) d else RangeReadNode tid (t48 p) (t48 a) d)"
| "got_of tid (Plain (MemAccEvent w lg a p)) = NoNode"
| "got_of tid (Plain (CreateThreadEvent i k t p)) = Node (TStartNode (t48 i) tid k t (t48 p))"
| "got_of tid (Plain (ThreadBeginEvent k p t sa ss ta ts)) = Node (TBeginNode tid k t)"
| "got_of tid (Plain (JoinThreadEvent i k t p)) = Node (TJoinNode (t48 i) tid k t (t48 p))"
| "got_of tid (Plain (ThreadEndEvent k t)) = Node (TEndNode tid k t)"
| "got_of tid (Plain (PtrAssignEvent a b)) = Node (PtrPropNode tid (t48 a) (t48 b))"
| "got_of tid (Plain (PtrDeRefEvent a)) = DeRef (t48 a)"
| "got_of tid (Plain (FuncEntryEvent p)) = Node (FuncEntryNode tid (t48 p))"
| "got_of tid (Plain FuncExitEvent) = Node (FuncExitNode tid)"
| "got_of tid (Access w lg a p vs) =
     Node (if w then WriteNode tid (t48 p) (t48 a) (2 ^ lg) (value_of vs)
           else ReadNode tid (t48 p) (t48 a) (2 ^ lg) (value_of vs))"

lemma read_bytes_append [simp]: "length vs = n \<Longrightarrow> read_bytes n (vs @ r) = (vs, r)"
  by (induction n arbitrary: vs) (auto simp: length_Suc_conv)

lemma getRWNode_le:
  "length vs = n \<Longrightarrow> getRWNode n w tid (le_bytes 6 a @ le_bytes 6 p @ vs @ r) =
     (if w then WriteNode tid (t48 p) (t48 a) n (value_of vs)
      else ReadNode tid (t48 p) (t48 a) n (value_of vs), r)"
  by (simp add: getRWNode_def)

lemma le3_cases: "lg \<le> 3 \<Longrightarrow> (lg :: nat) = 0 \<or> lg = 1 \<or> lg = 2 \<or> lg = 3"
  by linarith

lemma getNode_access:
  assumes "lg \<le> 3" "length vs = 2 ^ lg"
  shows "getNode tid (mem_acc_type w lg) (le_bytes 6 a @ le_bytes 6 p @ vs @ r) =
     (got_of tid (Access w lg a p vs), r)"
  using le3_cases [OF assms(1)] assms(2)
  by (elim disjE; cases w) (simp_all add: getNode_def mem_acc_type_def getRWNode_le)

lemma getNode_plain:
  assumes "wf_item (Plain e)"
  shows "getNode tid (hd (encode e)) (tl (encode e) @ r) = (got_of tid (Plain e), r)"
  using assms
  by (cases e) (simp_all add: event_bytes_defs getNode_def range_acc_type_def)

lemma getNode_encode_item:
  assumes "wf_item it"
  shows "getNode tid (hd (encode_item it)) (tl (encode_item it) @ r) = (got_of tid it, r)"
proof (cases it)
  case (Plain e)
  then show ?thesis using assms getNode_plain by simp
next
  case (Access w lg a p vs)
  then show ?thesis using assms getNode_access [of lg vs tid w a p r]
    by (simp add: MemAccEvent_bytes_def)
qed

section \<open>Loading a trace file\<close>

text \<open>A successful read never leaves more bytes than it found.\<close>

lemma read_byte_len: "length (snd (read_byte r)) \<le> length r"
  by (cases r) simp_all

lemma reader_len:
  "getShort r = (v2, r') \<Longrightarrow> length r' \<le> length r"
  "getInt r = (v4, r') \<Longrightarrow> length r' \<le> length r"
  "getLong48b r = (v6, r') \<Longrightarrow> length r' \<le> length r"
  "getLong64b r = (v8, r') \<Longrightarrow> length r' \<le> length r"
proof -
  have rb: "length q' \<le> length q" if "read_byte q = (b, q')" for q b q'
    using read_byte_len [of q] that by simp
  show "getShort r = (v2, r') \<Longrightarrow> length r' \<le> length r"
    by (auto simp: getShort_def split: prod.splits dest!: rb)
  show "getInt r = (v4, r') \<Longrightarrow> length r' \<le> length r"
    by (auto simp: getInt_def split: prod.splits dest!: rb)
  show "getLong48b r = (v6, r') \<Longrightarrow> length r' \<le> length r"
    by (auto simp: getLong48b_def split: prod.splits dest!: rb)
  show "getLong64b r = (v8, r') \<Longrightarrow> length r' \<le> length r"
    by (auto simp: getLong64b_def split: prod.splits dest!: rb)
qed

lemma read_bytes_len: "length (snd (read_bytes n r)) \<le> length r"
proof (induction n arbitrary: r)
  case 0
  then show ?case by simp
next
  case (Suc n)
  have "length (snd (read_bytes n (snd (read_byte r)))) \<le> length r"
    using Suc.IH [of "snd (read_byte r)"] read_byte_len [of r] by linarith
  then show ?case by (auto split: prod.splits)
qed

lemma getRWNode_len: "getRWNode n w tid r = (nd, r') \<Longrightarrow> length r' \<le> length r"
proof -
  have rb: "length q' \<le> length q" if "read_bytes n q = (bs, q')" for q bs q'
    using read_bytes_len [of n q] that by simp
  show "getRWNode n w tid r = (nd, r') \<Longrightarrow> length r' \<le> length r"
    by (auto simp: getRWNode_def split: prod.splits if_splits dest!: reader_len rb)
qed

lemma getNode_len: "getNode tid b r = (g, r') \<Longrightarrow> length r' \<le> length r"
  unfolding getNode_def Let_def
  by (auto split: prod.splits if_splits dest!: reader_len getRWNode_len)

record seq =
  sq_events :: "(u64 \<times> node \<times> u64) list"
  sq_numOfEvents :: u32
  sq_newTids :: "u16 list"
  sq_eCount :: nat
  sq_lastMemAcc :: "nat option"

definition seq_init :: seq where
  "seq_init = \<lparr>sq_events = [], sq_numOfEvents = 0, sq_newTids = [], sq_eCount = 0, sq_lastMemAcc = None\<rparr>"

definition longs_add :: "u16 \<Rightarrow> u32 \<Rightarrow> u64" where
  "longs_add a b = push_bit 32 (scast a) OR ucast b"

definition got_step :: "u16 \<Rightarrow> seq \<Rightarrow> got \<Rightarrow> seq" where
  "got_step tid s g =
     (case g of
        NoNode \<Rightarrow> s
      | DeRef p \<Rightarrow>
          (case sq_lastMemAcc s of
             None \<Rightarrow> s
           | Some i \<Rightarrow> s\<lparr>sq_events := (sq_events s)[i := (fst (sq_events s ! i), fst (snd (sq_events s ! i)), p)],
                        sq_lastMemAcc := None\<rparr>)
      | Node n \<Rightarrow>
          (let num = sq_numOfEvents s + 1;
               tids = (case n of TStartNode _ _ tidKid _ _ \<Rightarrow> [tidKid] | _ \<Rightarrow> []);
               s1 = s\<lparr>sq_numOfEvents := num, sq_newTids := sq_newTids s @ tids\<rparr>
           in if is_ISyncNode n then s1
              else s1\<lparr>sq_events := sq_events s @ [(longs_add tid num, n, 0)],
                      sq_lastMemAcc := (if is_MemAccNode n then Some (length (sq_events s)) else sq_lastMemAcc s),
                      sq_eCount := Suc (sq_eCount s)\<rparr>))"

function load_loop :: "u16 \<Rightarrow> nat \<Rightarrow> seq \<Rightarrow> byte list \<Rightarrow> seq" where
  "load_loop tid eLimit s [] = s"
| "load_loop tid eLimit s (b # r) =
     (if sq_eCount s < eLimit
      then (let (g, r') = getNode tid b r in load_loop tid eLimit (got_step tid s g) r')
      else s)"
  by pat_completeness auto
termination
proof (relation "measure (\<lambda>(tid, lim, s, r). length r)", goal_cases)
  case (2 tid eLimit s b r x g r')
  then show ?case using getNode_len [of tid b r g r'] by simp
qed simp

text \<open>
  \<^verbatim>\<open>getHeader\<close> and \<^verbatim>\<open>load\<close> of a file read from its start; a file that does not begin with
  a header raises, and the loader then gives up on the file (\<open>None\<close>).
\<close>

definition getHeader :: "byte \<Rightarrow> byte list \<Rightarrow> ((u16 \<times> u64 \<times> u64 \<times> u32) \<times> byte list) option" where
  "getHeader typeIdx r =
     (if typeIdx \<noteq> 13 then None
      else let (version, r) = getLong64b r; (tidParent, r) = getShort r;
               (time, r) = getLong64b r; (len, r) = getInt r
           in Some ((tidParent, version, time, len), r))"

definition load :: "u16 \<Rightarrow> nat \<Rightarrow> byte list \<Rightarrow> ((u16 \<times> u64 \<times> u64 \<times> u32) option \<times> seq) option" where
  "load tid eLimit r =
     (case r of
        [] \<Rightarrow> Some (None, seq_init)
      | b # r \<Rightarrow>
          (case getHeader b r of
             None \<Rightarrow> None
           | Some (h, r) \<Rightarrow> Some (Some h, load_loop tid eLimit seq_init r)))"

lemma got_step_count: "sq_eCount (got_step tid s g) \<le> Suc (sq_eCount s)"
  by (auto simp: got_step_def Let_def split: got.splits option.splits)

lemma load_loop_items:
  assumes "\<forall>it \<in> set its. wf_item it" "sq_eCount s + length its \<le> eLimit"
  shows "load_loop tid eLimit s (concat (map encode_item its)) =
     fold (\<lambda>it s. got_step tid s (got_of tid it)) its s"
  using assms
proof (induction its arbitrary: s)
  case Nil
  then show ?case by simp
next
  case (Cons it its)
  let ?rest = "concat (map encode_item its)"
  have ne: "encode_item it = hd (encode_item it) # tl (encode_item it)"
    by (cases it) (simp_all add: MemAccEvent_bytes_def)
  have g: "getNode tid (hd (encode_item it)) (tl (encode_item it) @ ?rest) = (got_of tid it, ?rest)"
    using Cons.prems(1) by (intro getNode_encode_item) simp
  have "load_loop tid eLimit s (encode_item it @ ?rest) =
      load_loop tid eLimit (got_step tid s (got_of tid it)) ?rest"
    using Cons.prems(2) by (subst ne) (simp add: g)
  also have "\<dots> = fold (\<lambda>it s. got_step tid s (got_of tid it)) its (got_step tid s (got_of tid it))"
    using Cons.prems got_step_count [of tid s "got_of tid it"] by (intro Cons.IH) auto
  finally show ?case by simp
qed

lemma getHeader_le:
  "getHeader 13 (tl (UFOHeader_bytes t tm len) @ r) = Some ((t, UFO_VERSION, tm, len), r)"
  by (simp add: getHeader_def UFOHeader_bytes_def)

lemma load_items:
  assumes "\<forall>it\<in>set its. wf_item it" "length its \<le> eLimit"
  shows "load tid eLimit (UFOHeader_bytes t tm len @ concat (map encode_item its)) =
    Some (Some (t, UFO_VERSION, tm, len), fold (\<lambda>it s. got_step tid s (got_of tid it)) its seq_init)"
proof -
  have h: "UFOHeader_bytes t tm len = 13 # tl (UFOHeader_bytes t tm len)" by (simp add: UFOHeader_bytes_def)
  have "load_loop tid eLimit seq_init (concat (map encode_item its)) = fold (\<lambda>it s. got_step tid s (got_of tid it)) its seq_init"
    using assms by (intro load_loop_items) (simp_all add: seq_init_def)
  then show ?thesis by (subst h) (simp add: load_def getHeader_le)
qed

section \<open>What a loaded sequence holds\<close>

text \<open>
  The sequence that \<^verbatim>\<open>load\<close> builds, described without its state. Every node counts, and its
  identifier is made of the thread and its number; the synchronisation nodes are not kept
  (\<^verbatim>\<open>skip isync node??\<close> in \<^verbatim>\<open>LoadingTask2.java\<close>). A memory access carries the pointer of the first
  de-reference event after it, unless another access comes before.
\<close>

fun ptr_after :: "got list \<Rightarrow> u64" where
  "ptr_after [] = 0"
| "ptr_after (DeRef p # gs) = p"
| "ptr_after (NoNode # gs) = ptr_after gs"
| "ptr_after (Node n # gs) = (if is_MemAccNode n then 0 else ptr_after gs)"

fun kept_events :: "u16 \<Rightarrow> u32 \<Rightarrow> got list \<Rightarrow> (u64 \<times> node \<times> u64) list" where
  "kept_events tid k [] = []"
| "kept_events tid k (Node n # gs) =
     (if is_ISyncNode n then []
      else [(longs_add tid (k + 1), n, if is_MemAccNode n then ptr_after gs else 0)]) @ kept_events tid (k + 1) gs"
| "kept_events tid k (_ # gs) = kept_events tid k gs"

fun nodes_of :: "got list \<Rightarrow> node list" where
  "nodes_of [] = []"
| "nodes_of (Node n # gs) = n # nodes_of gs"
| "nodes_of (_ # gs) = nodes_of gs"

definition kid_tids :: "node list \<Rightarrow> u16 list" where
  "kid_tids ns = concat (map (\<lambda>n. case n of TStartNode _ _ tidKid _ _ \<Rightarrow> [tidKid] | _ \<Rightarrow> []) ns)"

text \<open>The events read so far, with the pointer the rest of the file gives to the last access.\<close>

definition set_last :: "seq \<Rightarrow> u64 \<Rightarrow> (u64 \<times> node \<times> u64) list" where
  "set_last s p =
     (case sq_lastMemAcc s of None \<Rightarrow> sq_events s
      | Some i \<Rightarrow> (sq_events s)[i := (fst (sq_events s ! i), fst (snd (sq_events s ! i)), p)])"

definition last_ok :: "seq \<Rightarrow> bool" where
  "last_ok s \<longleftrightarrow> (case sq_lastMemAcc s of None \<Rightarrow> True
      | Some i \<Rightarrow> i < length (sq_events s) \<and> snd (snd (sq_events s ! i)) = 0)"

lemma set_last_0: "last_ok s \<Longrightarrow> set_last s 0 = sq_events s"
  by (auto simp: last_ok_def set_last_def split: option.splits intro!: list_update_same_conv [THEN iffD2] prod_eqI)

lemma MemAcc_not_sync: "is_MemAccNode n \<Longrightarrow> \<not> is_ISyncNode n"
  by (cases n) simp_all

lemma got_step_last_ok: "last_ok s \<Longrightarrow> last_ok (got_step tid s g)"
  by (auto simp: last_ok_def got_step_def Let_def nth_append split: got.splits option.splits)

lemma got_step_events:
  assumes "last_ok s"
  shows "set_last (got_step tid s g) (ptr_after gs) @ kept_events tid (sq_numOfEvents (got_step tid s g)) gs =
    set_last s (ptr_after (g # gs)) @ kept_events tid (sq_numOfEvents s) (g # gs)"
proof (cases g)
  case (Node n)
  then show ?thesis
    using assms set_last_0 [OF assms]
    by (cases "is_MemAccNode n"; cases "sq_lastMemAcc s")
       (auto simp: got_step_def Let_def set_last_def last_ok_def MemAcc_not_sync nth_append list_update_append)
next
  case NoNode
  then show ?thesis by (simp add: got_step_def)
next
  case (DeRef p)
  then show ?thesis by (simp add: got_step_def set_last_def split: option.splits)
qed

lemma fold_got_step:
  assumes "last_ok s"
  shows "sq_events (fold (\<lambda>g s. got_step tid s g) gs s) =
      set_last s (ptr_after gs) @ kept_events tid (sq_numOfEvents s) gs"
    and "sq_numOfEvents (fold (\<lambda>g s. got_step tid s g) gs s) = sq_numOfEvents s + of_nat (length (nodes_of gs))"
    and "sq_newTids (fold (\<lambda>g s. got_step tid s g) gs s) = sq_newTids s @ kid_tids (nodes_of gs)"
proof -
  show "sq_events (fold (\<lambda>g s. got_step tid s g) gs s) =
      set_last s (ptr_after gs) @ kept_events tid (sq_numOfEvents s) gs"
    using assms
  proof (induction gs arbitrary: s)
    case Nil
    then show ?case by (simp add: set_last_0)
  next
    case (Cons g gs)
    show ?case
      using Cons.IH [OF got_step_last_ok [OF Cons.prems]] got_step_events [OF Cons.prems, of tid g gs] by simp
  qed
  show "sq_numOfEvents (fold (\<lambda>g s. got_step tid s g) gs s) = sq_numOfEvents s + of_nat (length (nodes_of gs))"
    by (induction gs arbitrary: s rule: nodes_of.induct)
       (simp_all add: got_step_def Let_def split: option.splits)
  show "sq_newTids (fold (\<lambda>g s. got_step tid s g) gs s) = sq_newTids s @ kid_tids (nodes_of gs)"
    by (induction gs arbitrary: s rule: nodes_of.induct)
       (simp_all add: got_step_def Let_def kid_tids_def split: option.splits)
qed

text \<open>The sequence of a file, from its items.\<close>

definition seq_of :: "u16 \<Rightarrow> item list \<Rightarrow> seq \<Rightarrow> bool" where
  "seq_of tid its s \<longleftrightarrow>
     sq_events s = kept_events tid 0 (map (got_of tid) its) \<and>
     sq_numOfEvents s = of_nat (length (nodes_of (map (got_of tid) its))) \<and>
     sq_newTids s = kid_tids (nodes_of (map (got_of tid) its))"

lemma fold_items_seq: "seq_of tid its (fold (\<lambda>it s. got_step tid s (got_of tid it)) its seq_init)"
proof -
  have "last_ok seq_init" by (simp add: last_ok_def seq_init_def)
  from fold_got_step [OF this, of tid "map (got_of tid) its"] show ?thesis
    by (simp add: seq_of_def fold_map comp_def seq_init_def set_last_def)
qed

section \<open>Properties\<close>

text \<open>
  C8. Loading is the inverse of writing. Every well-formed event, the synchronisation events
  included, is decoded by \<^verbatim>\<open>getNode\<close> to the node with its 48-bit addresses and indices, its sizes, times
  and values, and decoding consumes its encoding exactly. A trace file that consists of a header and
  the encodings of any well-formed events is read by \<^verbatim>\<open>LoadingTask2.load\<close> as that header and a sequence
  that counts all their nodes, lists the created threads, and holds in order the nodes that are not
  synchronisation nodes, each numbered by its position in the file and each access with the pointer
  of the de-reference event that follows it.
\<close>

theorem load_roundtrip:
  assumes "\<forall>it\<in>set its. wf_item it" "length its \<le> eLimit"
  shows "(\<forall>it\<in>set its. \<forall>r. getNode tid (hd (encode_item it)) (tl (encode_item it) @ r) = (got_of tid it, r)) \<and>
    (\<exists>s. load tid eLimit (UFOHeader_bytes t tm len @ concat (map encode_item its)) = Some (Some (t, UFO_VERSION, tm, len), s) \<and>
       sq_events s = kept_events tid 0 (map (got_of tid) its) \<and>
       sq_numOfEvents s = of_nat (length (nodes_of (map (got_of tid) its))) \<and>
       sq_newTids s = kid_tids (nodes_of (map (got_of tid) its)))"
  using assms getNode_encode_item load_items [OF assms, of tid t tm len] fold_items_seq [of tid its]
  unfolding seq_of_def by blast

theorem load_roundtrip_witness:
  "\<exists>s. load 3 10 (UFOHeader_bytes 3 99 0 @ concat (map encode_item
       [Plain (LockEvent 0x1234 0x5678), Access True 1 0x10 0x20 [0xfe, 0xff], Plain (FuncEntryEvent 0x30), Plain (PtrDeRefEvent 0x40)])) =
     Some (Some (3, UFO_VERSION, 99, 0), s) \<and>
     sq_events s = [(longs_add 3 2, WriteNode 3 0x20 0x10 2 (-2), 0x40), (longs_add 3 3, FuncEntryNode 3 0x30, 0)] \<and>
     sq_numOfEvents s = 3 \<and> sq_newTids s = [] \<and>
     getNode 3 4 (tl (encode (LockEvent 0x1234 0x5678)) @ [7]) = (Node (LockNode 3 0x1234 0x5678), [7])"
proof -
  let ?its = "[Plain (LockEvent 0x1234 0x5678), Access True 1 0x10 0x20 [0xfe, 0xff], Plain (FuncEntryEvent 0x30), Plain (PtrDeRefEvent 0x40)]"
  have t: "t48 0x1234 = 0x1234" "t48 0x5678 = 0x5678" "t48 0x10 = 0x10" "t48 0x20 = 0x20" "t48 0x30 = 0x30" "t48 0x40 = 0x40"
    by (simp_all add: take_bit_eq_mod)
  have v: "value_of [0xfe, 0xff] = -2" by code_simp
  have h: "hd (encode (LockEvent 0x1234 0x5678)) = 4" by (simp add: event_bytes_defs)
  have wf: "\<forall>it\<in>set ?its. wf_item it" "length ?its \<le> 10" by simp_all
  note l = load_roundtrip [OF wf, of 3 3 99 0]
  have "getNode 3 (hd (encode (LockEvent 0x1234 0x5678))) (tl (encode (LockEvent 0x1234 0x5678)) @ [7]) =
      (Node (LockNode 3 0x1234 0x5678), [7])"
    using l [THEN conjunct1] t by simp
  then show ?thesis
    using l [THEN conjunct2] t v unfolding h by (simp add: kid_tids_def del: encode.simps)
qed

end
