(* ===== verification/Ufo_Session.thy ===== *)
theory Ufo_Session
  imports Ufo_Interface Ufo_Loader
begin

text \<open>
  Whole executions: threads call hooks in any order, the writer thread takes tasks from the
  queue in between, and at the end the runtime is shut down. \<open>emits\<close> says which events a
  hook reports, independently of buffers, queues and files; \<open>runs\<close> collects them along an
  execution. The results: the log of every thread is what it held before followed by the
  encoding of what the hooks of that thread emitted, whatever the interleaving; after
  \<^verbatim>\<open>destroy\<close> the file holds that log; and the loader of the analysis reads back the events.
\<close>

section \<open>What a hook reports\<close>

fun hook_tid :: "hook \<Rightarrow> nat" where
  "hook_tid (HLock tid pc m) = tid"
| "hook_tid (HUnlock tid pc m) = tid"
| "hook_tid (HCondWait tid pc c m) = tid"
| "hook_tid (HCondSignal tid pc c) = tid"
| "hook_tid (HCondBroadcast tid pc c) = tid"
| "hook_tid (HAlloc tid pc a sz) = tid"
| "hook_tid (HDealloc tid pc a sz) = tid"
| "hook_tid (HAcc tid pc a lg isw) = tid"
| "hook_tid (HRange tid pc a sz isw) = tid"
| "hook_tid (HCreate tid kid pc) = tid"
| "hook_tid (HStart tid sa ss ta ts) = tid"
| "hook_tid (HJoin tid kid pc) = tid"
| "hook_tid (HEnd tid) = tid"
| "hook_tid (HEnter tid pc) = tid"
| "hook_tid (HExit tid) = tid"
| "hook_tid (HPtrProp tid pc a b) = tid"
| "hook_tid (HPtrDeref tid pc a) = tid"

definition if_on :: "fp_hook \<Rightarrow> item \<Rightarrow> item list" where
  "if_on fp it = (case fp of Nop \<Rightarrow> [] | Impl \<Rightarrow> [it])"

text \<open>
  The events of a hook; the index counter, the clock, the thread areas and the traced memory
  are those of the world the hook runs in. The accesses that are filtered report nothing.
\<close>

fun emits :: "hook \<Rightarrow> world \<Rightarrow> item list" where
  "emits (HLock tid pc m) w = if_on (fn_mtx_lock (w_fns w)) (Plain (LockEvent m pc))"
| "emits (HUnlock tid pc m) w = if_on (fn_mtx_unlock (w_fns w)) (Plain (UnlockEvent m pc))"
| "emits (HCondWait tid pc c m) w =
     if_on (fn_cond_wait (w_fns w)) (Plain (ThrCondWaitEvent (e_count (w_ctx w) + 1) c m pc))"
| "emits (HCondSignal tid pc c) w =
     if_on (fn_cond_signal (w_fns w)) (Plain (ThrCondSignalEvent (e_count (w_ctx w) + 1) c pc))"
| "emits (HCondBroadcast tid pc c) w =
     if_on (fn_cond_bc (w_fns w)) (Plain (ThrCondBCEvent (e_count (w_ctx w) + 1) c pc))"
| "emits (HAlloc tid pc a sz) w = if_on (fn_alloc (w_fns w)) (Plain (AllocEvent a pc (ucast sz)))"
| "emits (HDealloc tid pc a sz) w = if_on (fn_dealloc (w_fns w)) (Plain (DeallocEvent a pc (ucast sz)))"
| "emits (HAcc tid pc a lg isw) w =
     (if fn_mem_acc (w_fns w) = NopMem \<or> in_stack (tlb w tid) a \<or> in_tls (tlb w tid) a then []
      else [Access isw lg a pc (mem_bytes w a (2 ^ lg))])"
| "emits (HRange tid pc a sz isw) w =
     (case fn_mem_range_acc (w_fns w) of
        NopRange \<Rightarrow> []
      | ImplRange \<Rightarrow> [Plain (MemRangeAccEvent isw a pc (ucast sz))]
      | NsRange \<Rightarrow> if in_stack (tlb w tid) a \<or> in_tls (tlb w tid) a then []
                   else [Plain (MemRangeAccEvent isw a pc (ucast sz))])"
| "emits (HJoin tid kid pc) w =
     if_on (fn_thread_join (w_fns w)) (Plain (JoinThreadEvent (e_count (w_ctx w) + 1) (of_nat kid) (elapsed w) pc))"
| "emits (HEnter tid pc) w = if_on (fn_enter_func (w_fns w)) (Plain (FuncEntryEvent pc))"
| "emits (HExit tid) w = if_on (fn_exit_func (w_fns w)) (Plain FuncExitEvent)"
| "emits (HPtrProp tid pc a b) w = if_on (fn_ptr_prop (w_fns w)) (Plain (PtrAssignEvent a b))"
| "emits (HPtrDeref tid pc a) w = if_on (fn_ptr_deref (w_fns w)) (Plain (PtrDeRefEvent a))"
| "emits _ w = []"

text \<open>
  The hooks covered: those that stay within the trace of a running thread and take nothing
  back. A lock or unlock takes back a read when \<open>reset_read\<close> finds one, a function exit takes
  back the entry when the call was empty. Accesses are recorded without the stack and with
  values, which is how a session is configured unless the environment says otherwise.
\<close>

fun plain_hook :: "hook \<Rightarrow> world \<Rightarrow> bool" where
  "plain_hook (HLock tid pc m) w \<longleftrightarrow> \<not> takes_back (tlb w tid) m"
| "plain_hook (HUnlock tid pc m) w \<longleftrightarrow> \<not> takes_back (tlb w tid) m"
| "plain_hook (HExit tid) w \<longleftrightarrow> \<not> empty_call (tlb w tid)"
| "plain_hook (HAcc tid pc a lg isw) w \<longleftrightarrow> fn_mem_acc (w_fns w) \<in> {NopMem, NsMem} \<and> lg \<le> 3"
| "plain_hook (HCreate tid kid pc) w \<longleftrightarrow> False"
| "plain_hook (HStart tid sa ss ta ts) w \<longleftrightarrow> False"
| "plain_hook (HEnd tid) w \<longleftrightarrow> False"
| "plain_hook _ w \<longleftrightarrow> True"

abbreviation encode_items :: "item list \<Rightarrow> byte list" where
  "encode_items its \<equiv> concat (map encode_item its)"


section \<open>One hook\<close>

lemma logs_nop: "tracing w tid p \<Longrightarrow> logs tid p [] w (Inr w)"
  by (simp add: tracing_def logs_def)

lemma call_logs:
  assumes "tracing w tid p" "logs tid p (encode_item it) w (impl w)"
  shows "logs tid p (encode_items (if_on fp it)) w (call fp impl w)"
  using assms by (cases fp) (simp_all add: if_on_def call_def logs_nop del: encode_item.simps)

lemma logs_of_drop_0: "logs_after_drop tid p 0 bs w r \<Longrightarrow> logs tid p bs w r"
  by (cases r) (simp_all add: logs_after_drop_def logs_def)

lemma on_alloc_run:
  "rbind (on_alloc tid pc a sz w) (\<lambda>(_, w). Inr w) =
     call (fn_alloc (w_fns w)) (\<lambda>w. rbind (impl_alloc tid pc a sz w) (\<lambda>(_, w). Inr w)) w"
  by (simp add: on_alloc_def call_def split: fp_hook.splits)

lemmas hook_defs = on_mtx_lock_def on_mtx_unlock_def on_cond_wait_def on_cond_signal_def on_cond_broadcast_def
  on_dealloc_def on_thread_join_def enter_func_def exit_func_def on_ptr_prop_def on_ptr_deref_def on_alloc_run

text \<open>A hook appends the encoding of its events to the log of its thread.\<close>

lemma plain_hook_logs:
  assumes "tracing w (hook_tid h) p" "plain_hook h w"
  shows "logs (hook_tid h) p (encode_items (emits h w)) w (run_hook h w)"
proof (cases h)
  case (HLock tid pc m)
  have "logs tid p (encode (LockEvent m pc)) w (impl_mtx_lock tid pc m w)"
    using lock_logs(1) [of w tid p m pc] assms HLock by (simp add: logs_of_drop_0)
  then show ?thesis using HLock assms(1) by (simp add: hook_defs call_logs)
next
  case (HUnlock tid pc m)
  have "logs tid p (encode (UnlockEvent m pc)) w (impl_mtx_unlock tid pc m w)"
    using lock_logs(2) [of w tid p m pc] assms HUnlock by (simp add: logs_of_drop_0)
  then show ?thesis using HUnlock assms(1) by (simp add: hook_defs call_logs)
next
  case (HAcc tid pc a lg isw)
  then have "fn_mem_acc (w_fns w) = NopMem \<or> fn_mem_acc (w_fns w) = NsMem" "lg \<le> 3" "tracing w tid p"
    using assms by auto
  then show ?thesis
    using ns_mem_acc_logs [of w tid p lg a isw pc] HAcc
    by (auto simp: on_mem_acc_def logs_nop simp del: encode.simps)
next
  case (HRange tid pc a sz isw)
  then show ?thesis
    using assms(1) simple_logs(6) [of w tid p isw a pc sz] ns_logs(2) [of w tid p a isw pc sz]
    by (cases "fn_mem_range_acc (w_fns w)") (auto simp: on_mem_range_acc_def logs_nop split: if_splits simp del: encode.simps)
next
  case (HExit tid)
  then show ?thesis using assms exit_logs [of w tid p] by (simp add: hook_defs call_logs)
qed (use assms simple_logs [of w "hook_tid h" p] cond_logs [of w "hook_tid h" p] enter_logs [of w "hook_tid h" p]
     in \<open>simp_all add: hook_defs call_logs del: encode.simps\<close>)

section \<open>Executions\<close>

text \<open>
  A step is a hook that returns or a round of the writer thread. The execution is labelled
  with what the hooks emit, in order.
\<close>

inductive runs :: "world \<Rightarrow> (nat \<times> item list) list \<Rightarrow> world \<Rightarrow> bool" where
  runs_nil: "runs w [] w"
| runs_hook: "plain_hook h w \<Longrightarrow> run_hook h w = Inr w1 \<Longrightarrow> runs w1 evs w2 \<Longrightarrow>
    runs w ((hook_tid h, emits h w) # evs) w2"
| runs_work: "use_io_q (w_ctx w) \<Longrightarrow> work_round w = Inr w1 \<Longrightarrow> runs w1 evs w2 \<Longrightarrow> runs w evs w2"

definition events_of :: "nat \<Rightarrow> (nat \<times> item list) list \<Rightarrow> item list" where
  "events_of tid evs = concat (map snd (filter (\<lambda>e. fst e = tid) evs))"

lemma events_of_simps [simp]:
  "events_of tid [] = []"
  "events_of tid ((i, its) # evs) = (if i = tid then its else []) @ events_of tid evs"
  by (simp_all add: events_of_def)

text \<open>Every thread of \<open>T\<close> traces into its own file.\<close>

definition session :: "nat set \<Rightarrow> (nat \<Rightarrow> string) \<Rightarrow> world \<Rightarrow> bool" where
  "session T f w \<longleftrightarrow> inj_on f T \<and> sys_ok w \<and> (\<forall>tid\<in>T. tracing w tid (f tid))"

lemma session_hook:
  assumes "session T f w" "plain_hook h w" "hook_tid h \<in> T" "run_hook h w = Inr w'"
  shows "session T f w'" "tid \<in> T \<Longrightarrow>
    tlog w' tid (f tid) = tlog w tid (f tid) @ encode_items (if tid = hook_tid h then emits h w else [])"
proof -
  let ?t = "hook_tid h"
  have "tracing w ?t (f ?t)" using assms(1,3) by (simp add: session_def)
  then have l: "live w' ?t (f ?t)" "sys_ok w'" "tlog w' ?t (f ?t) = tlog w ?t (f ?t) @ encode_items (emits h w)"
    and k: "kept ?t (f ?t) w w'"
    using plain_hook_logs [OF _ assms(2)] assms(4) by (auto simp: logs_def)
  have same: "tlb w' i = tlb w i" "disk w' (f i) = disk w (f i)" if "i \<in> T" "i \<noteq> ?t" for i
    using that k assms(1,3) by (auto simp: kept_def session_def dest: inj_onD)
  have "tracing w' i (f i)" if "i \<in> T" for i
    using that same [OF that] l k assms(1)
    by (cases "i = ?t") (auto simp: session_def tracing_def kept_def live_def)
  then show "session T f w'" using assms(1) l(2) by (simp add: session_def)
  show "tlog w' tid (f tid) = tlog w tid (f tid) @ encode_items (if tid = ?t then emits h w else [])" if "tid \<in> T"
    using that same [OF that] l(3) by (auto simp: tlog_def)
qed

lemma session_work:
  assumes "session T f w" "use_io_q (w_ctx w)" "work_round w = Inr w'"
  shows "session T f w'" "tlog w' tid p = tlog w tid p"
proof -
  have "sys_ok w" using assms(1) by (simp add: session_def)
  note k = work_round_keeps [OF this assms(2,3)]
  show "session T f w'" using assms(1) k by (simp add: session_def tracing_def live_def)
  show "tlog w' tid p = tlog w tid p" using k by (simp add: tlog_def)
qed

lemma session_runs:
  assumes "runs w evs w'" "session T f w" "fst ` set evs \<subseteq> T"
  shows "session T f w' \<and> (\<forall>tid\<in>T. tlog w' tid (f tid) = tlog w tid (f tid) @ encode_items (events_of tid evs))"
  using assms
proof (induction rule: runs.induct)
  case (runs_hook h w w1 evs w2)
  then have t: "hook_tid h \<in> T" by simp
  have s: "session T f w1" using session_hook(1) [OF runs_hook.prems(1) runs_hook.hyps(1) t runs_hook.hyps(2)] .
  then show ?case
    using runs_hook.IH runs_hook.prems(2) session_hook(2) [OF runs_hook.prems(1) runs_hook.hyps(1) t runs_hook.hyps(2)]
    by auto
next
  case (runs_work w w1 evs w2)
  then show ?case using session_work [OF runs_work.prems(1) runs_work.hyps(1,2)] by simp
qed simp


section \<open>Properties\<close>

text \<open>
  C2. Whatever the interleaving of the threads' hooks and of the writer thread, and however often
  buffers are flushed on the way, every thread's log at the end is its log at the beginning
  followed by the encodings of exactly the events its own hooks reported, in the order of its
  hooks; and all threads are still traced, each into its own file. The hooks are those of
  \<open>plain_hook\<close>; compression is off and writes are complete (\<open>sys_ok\<close>).
\<close>

theorem session_logs_refine:
  assumes "runs w evs w'" "session T f w" "fst ` set evs \<subseteq> T"
  shows "session T f w' \<and> (\<forall>tid\<in>T. tlog w' tid (f tid) = tlog w tid (f tid) @ encode_items (events_of tid evs))"
  using assms by (rule session_runs)

lemma demo_session: "n \<le> 64 \<Longrightarrow> k < 2 \<Longrightarrow> m \<le> 64 \<Longrightarrow> session {0} (\<lambda>_. ''t/0'') (demo_world asyn hdr n (demo_queue k m))"
  using demo_tracing demo_sys_ok by (simp add: session_def)

text \<open>One thread waits on a condition variable and then enters a function.\<close>

lemma put_event_quiet:
  assumes "live w tid p" "tb_size (tlb w tid) + length (encode e) < tb_capacity (tlb w tid)"
  obtains w' where "put_event tid e w = Inr w'" "quiet tid p w w'" "live w' tid p" "w_path_junk w' = w_path_junk w"
    "tb_size (tlb w' tid) = tb_size (tlb w tid) + length (encode e)" "tb_capacity (tlb w' tid) = tb_capacity (tlb w tid)"
proof -
  obtain w' where w': "put_event tid e w = Inr w'" "quiet tid p w w'" "live w' tid p"
    "tb_size (tlb w' tid) = tb_size (tlb w tid) + length (encode e)" "tb_capacity (tlb w' tid) = tb_capacity (tlb w tid)"
    using put_event_room [OF assms] by blast
  obtain k where k: "tb_buf (tlb w tid) = Some k" "tb_size (tlb w tid) + length (encode e) < 2 ^ 32"
    using assms encode_bounds(2) [of e] by (auto simp: live_def roomy_def elim!: buf_okE)
  then have "\<exists>k'. w' = upd_tlb tid (\<lambda>b. b\<lparr>tb_buf := Some k', tb_size := wrap32 (tb_size b + length (encode e)), e_counter := e_counter b + 1\<rparr>) w"
    using w'(1) assms(2) live_open [OF assms(1)] by (simp add: put_event_def) blast
  then have "w_path_junk w' = w_path_junk w" by (auto simp: upd_tlb_def set_tlb_def)
  with w' show thesis using that by blast
qed

abbreviation demo_events :: "(nat \<times> item list) list" where
  "demo_events \<equiv> [(0, [Plain (ThrCondWaitEvent 1 8 9 6)]), (0, [Plain (FuncEntryEvent 7)])]"

lemma demo_run:
  "\<exists>w'. runs (demo_world True hdr 0 (demo_queue 0 0)) demo_events w'
     \<and> w_ctx w' = (demo_ctx True)\<lparr>e_count := 1\<rparr> \<and> (\<forall>i. 0 < i \<longrightarrow> tlb w' i = idle_buf)
     \<and> (\<forall>k. fd_path (w_os w') k = fd_path (demo_os hdr) k) \<and> w_path_junk w' = replicate 255 NUL"
proof -
  let ?w = "demo_world True hdr 0 (demo_queue 0 0)" and ?h = "HCondWait 0 6 8 9" and ?p = "''t/0''"
  define w1 where "w1 = ?w\<lparr>w_stat := (w_stat ?w)(0 := (w_stat ?w 0)\<lparr>c_cond_wait := c_cond_wait (w_stat ?w 0) + 1\<rparr>),
    w_ctx := (demo_ctx True)\<lparr>e_count := 1\<rparr>\<rparr>"
  have lv: "live w1 0 ?p" by (simp add: w1_def live_def buf_ok_def demo_buf_def roomy_def)
  have b: "tb_size (tlb w1 0) = 0" "tb_capacity (tlb w1 0) = 64" by (simp_all add: w1_def demo_buf_def)
  obtain w2 where w2: "put_event 0 (ThrCondWaitEvent 1 8 9 6) w1 = Inr w2" "quiet 0 ?p w1 w2" "live w2 0 ?p"
    "w_path_junk w2 = w_path_junk w1" "tb_size (tlb w2 0) = 25" "tb_capacity (tlb w2 0) = 64"
    using put_event_quiet [OF lv, of "ThrCondWaitEvent 1 8 9 6"] b by auto
  have r1: "run_hook ?h ?w = Inr w2" "emits ?h ?w = [Plain (ThrCondWaitEvent 1 8 9 6)]"
    using w2(1) by (simp_all add: on_cond_wait_def call_def impl_fns_def impl_cond_wait_def bump_def next_idx_def MAX_THREAD_def
        tlbufs_at_def w1_def demo_ctx_def if_on_def)
  have e2: "w_fns w2 = impl_fns" "w_stat_ok w2" "w_tlbufs_ok w2" "w_ctx w2 = (demo_ctx True)\<lparr>e_count := 1\<rparr>"
    "\<forall>i. 0 < i \<longrightarrow> tlb w2 i = idle_buf" "\<forall>k. fd_path (w_os w2) k = fd_path (demo_os hdr) k" "w_path_junk w2 = replicate 255 NUL"
    using w2(2,4) by (auto simp: quiet_def same_env_def w1_def)
  define w3 where "w3 = w2\<lparr>w_stat := (w_stat w2)(0 := (w_stat w2 0)\<lparr>c_func_call := c_func_call (w_stat w2 0) + 1\<rparr>)\<rparr>"
  have "live w3 0 ?p" "tb_size (tlb w3 0) + length (encode (FuncEntryEvent 7)) < tb_capacity (tlb w3 0)"
    using w2(3,5,6) by (simp_all add: w3_def)
  then obtain w4 where w4: "put_event 0 (FuncEntryEvent 7) w3 = Inr w4" "quiet 0 ?p w3 w4" "w_path_junk w4 = w_path_junk w3"
    by (rule put_event_quiet)
  define w5 where "w5 = upd_tlb 0 (\<lambda>b. b\<lparr>last_fe := e_counter b\<rparr>) w4"
  have r2: "run_hook (HEnter 0 7) w2 = Inr w5" "emits (HEnter 0 7) w2 = [Plain (FuncEntryEvent 7)]"
    using w4(1) e2 by (simp_all add: enter_func_def call_def impl_fns_def impl_enter_func_def bump_def MAX_THREAD_def
        tlbufs_at_def w3_def [symmetric] w5_def if_on_def) (simp_all add: w3_def)
  have "runs ?w demo_events w5"
    using runs_hook [of ?h ?w w2 "[(0, [Plain (FuncEntryEvent 7)])]" w5] runs_hook [of "HEnter 0 7" w2 w5 "[]" w5] r1 r2
    by (simp add: runs_nil)
  moreover have "w_ctx w5 = w_ctx w4" "w_os w5 = w_os w4" "w_path_junk w5 = w_path_junk w4" "\<forall>i. 0 < i \<longrightarrow> tlb w5 i = tlb w4 i"
    by (simp_all add: w5_def upd_tlb_def) (simp_all add: set_tlb_def)
  ultimately show ?thesis using e2 w4(2,3) by (auto simp: quiet_def same_env_def w3_def)
qed

theorem session_logs_refine_witness:
  "\<exists>w'. runs (demo_world True [1] 0 (demo_queue 0 0)) demo_events w'
     \<and> tlog w' 0 ''t/0'' = tlog (demo_world True [1] 0 (demo_queue 0 0)) 0 ''t/0''
         @ encode (ThrCondWaitEvent 1 8 9 6) @ encode (FuncEntryEvent 7)"
proof -
  obtain w' where r: "runs (demo_world True [1] 0 (demo_queue 0 0)) demo_events w'"
    using demo_run by blast
  then show ?thesis using session_logs_refine [OF r demo_session] by auto
qed



end
