(* ===== verification/Ufo_QueueThreads.thy ===== *)
theory Ufo_QueueThreads
  imports Ufo_TLBuffer
begin

text \<open>
  The output queue with its threads: any number of traced threads in \<^verbatim>\<open>push\<close>, the writer thread
  in \<^verbatim>\<open>_work_loop\<close> and the thread that calls \<^verbatim>\<open>stop\<close>, over one mutex and two condition variables, as
  a step relation with all interleavings. Shown are mutual exclusion, that no byte is lost or
  reordered, that nobody sleeps on work that is there, and the one lost wake-up of the protocol.
\<close>

section \<open>Threads\<close>

text \<open>
  Where a thread is in \<^verbatim>\<open>OutQueue::push\<close>, in \<^verbatim>\<open>_work_loop\<close> and in \<^verbatim>\<open>OutQueue::stop\<close>. What a
  thread does to the ring while it holds the mutex is one step.
\<close>

datatype producer_pc = P_Idle | P_Lock | P_Test | P_Wait | P_Relock | P_Load | P_Notify | P_Unlock

datatype worker_pc = W_Loop | W_Lock | W_Test | W_Check | W_Sleep | W_Wait | W_Relock | W_Write | W_Notify | W_Unlock | W_Leave | W_Done

datatype stopper_pc = S_Idle | S_Signal | S_Join | S_Lock | S_Drain | S_Unlock | S_Done

datatype actor = Producer nat | Worker | Stopper

record threads =
  th_w :: world
  th_owner :: "actor option"
  th_prod :: "nat \<Rightarrow> producer_pc"
  th_work :: worker_pc
  th_stop :: stopper_pc

text \<open>
  A label tells the steps apart that do not come from a thread running on: a thread has filled its
  buffer and enters \<^verbatim>\<open>push\<close>, a wait ends although nobody signalled, \<^verbatim>\<open>stop\<close> is called. It also records the task a \<^verbatim>\<open>push\<close>
  queues.
\<close>

datatype label = Begin | Spurious | Stop | Queue WriteTask | Run

definition set_prod :: "nat \<Rightarrow> producer_pc \<Rightarrow> threads \<Rightarrow> threads" where
  "set_prod i pc t = t\<lparr>th_prod := (th_prod t)(i := pc)\<rparr>"

text \<open>
  What the handlers of thread \<open>i\<close> leave in its buffer between two pushes, as far as \<^verbatim>\<open>push\<close> reads it: any
  contents and any size within the capacity.
\<close>

definition fill :: "nat \<Rightarrow> block \<Rightarrow> nat \<Rightarrow> world \<Rightarrow> world" where
  "fill i k m w = upd_tlb i (\<lambda>b. b\<lparr>tb_buf := Some k, tb_size := m\<rparr>) w"

definition ring_of :: "threads \<Rightarrow> OutQueue" where
  "ring_of t = the (w_queue (th_w t))"

section \<open>Steps\<close>

text \<open>
  \<^verbatim>\<open>pthread_mutex_lock\<close> waits for the mutex to be free, \<^verbatim>\<open>pthread_cond_wait\<close> releases it and waits in
  one step and takes it again when it has been woken, \<^verbatim>\<open>pthread_cond_signal\<close> wakes one waiting
  thread if there is one. The \<open>n\<close> threads that push are numbered from 0. Before each push a thread has
  stored events of its own in its buffer.
\<close>

inductive producer_step :: "nat \<Rightarrow> label \<Rightarrow> threads \<Rightarrow> threads \<Rightarrow> bool" for n where
  p_begin: "i < n \<Longrightarrow> th_prod t i = P_Idle \<Longrightarrow> blk_len k = tb_capacity (tlb (th_w t) i) \<Longrightarrow> m \<le> tb_capacity (tlb (th_w t) i) \<Longrightarrow>
    producer_step n Begin t (set_prod i P_Lock (t\<lparr>th_w := fill i k m (th_w t)\<rparr>))"
| p_lock: "th_prod t i = P_Lock \<or> th_prod t i = P_Relock \<Longrightarrow> th_owner t = None \<Longrightarrow>
    producer_step n Run t (set_prod i P_Test (t\<lparr>th_owner := Some (Producer i)\<rparr>))"
| p_full: "th_prod t i = P_Test \<Longrightarrow> is_full (ring_of t) \<Longrightarrow>
    producer_step n Run t (set_prod i P_Wait (t\<lparr>th_owner := None\<rparr>))"
| p_room: "th_prod t i = P_Test \<Longrightarrow> \<not> is_full (ring_of t) \<Longrightarrow> producer_step n Run t (set_prod i P_Load t)"
| p_load: "th_prod t i = P_Load \<Longrightarrow> push_buf i (th_w t) = Inr w \<Longrightarrow>
    producer_step n (Queue (fst (load_with (q_slot (ring_of t)) (tlb (th_w t) i)))) t (set_prod i P_Notify (t\<lparr>th_w := w\<rparr>))"
| p_notify: "th_prod t i = P_Notify \<Longrightarrow>
    producer_step n Run t (set_prod i P_Unlock (t\<lparr>th_work := (if th_work t = W_Wait then W_Relock else th_work t)\<rparr>))"
| p_unlock: "th_prod t i = P_Unlock \<Longrightarrow> producer_step n Run t (set_prod i P_Idle (t\<lparr>th_owner := None\<rparr>))"
| p_spurious: "th_prod t i = P_Wait \<Longrightarrow> producer_step n Spurious t (set_prod i P_Relock t)"

inductive worker_step :: "label \<Rightarrow> threads \<Rightarrow> threads \<Rightarrow> bool" where
  w_loop: "th_work t = W_Loop \<Longrightarrow>
    worker_step Run t (t\<lparr>th_work := (if is_started (ring_of t) then W_Lock else W_Done)\<rparr>)"
| w_lock: "th_work t = W_Lock \<or> th_work t = W_Relock \<Longrightarrow> th_owner t = None \<Longrightarrow>
    worker_step Run t (t\<lparr>th_work := W_Test, th_owner := Some Worker\<rparr>)"
| w_test: "th_work t = W_Test \<Longrightarrow>
    worker_step Run t (t\<lparr>th_work := (if is_empty (ring_of t) then W_Check else W_Write)\<rparr>)"
| w_check: "th_work t = W_Check \<Longrightarrow>
    worker_step Run t (t\<lparr>th_work := (if is_started (ring_of t) then W_Sleep else W_Leave)\<rparr>)"
| w_sleep: "th_work t = W_Sleep \<Longrightarrow> worker_step Run t (t\<lparr>th_work := W_Wait, th_owner := None\<rparr>)"
| w_write: "th_work t = W_Write \<Longrightarrow> work_round (th_w t) = Inr w \<Longrightarrow>
    worker_step Run t (t\<lparr>th_work := W_Notify, th_w := w\<rparr>)"
| w_notify: "th_work t = W_Notify \<Longrightarrow> th_prod t i = P_Wait \<Longrightarrow>
    worker_step Run t (set_prod i P_Relock (t\<lparr>th_work := W_Unlock\<rparr>))"
| w_notify_none: "th_work t = W_Notify \<Longrightarrow> (\<forall>i. th_prod t i \<noteq> P_Wait) \<Longrightarrow>
    worker_step Run t (t\<lparr>th_work := W_Unlock\<rparr>)"
| w_unlock: "th_work t = W_Unlock \<Longrightarrow> worker_step Run t (t\<lparr>th_work := W_Loop, th_owner := None\<rparr>)"
| w_leave: "th_work t = W_Leave \<Longrightarrow> worker_step Run t (t\<lparr>th_work := W_Done, th_owner := None\<rparr>)"
| w_spurious: "th_work t = W_Wait \<Longrightarrow> worker_step Spurious t (t\<lparr>th_work := W_Relock\<rparr>)"

text \<open>The queue \<^verbatim>\<open>stop\<close> leaves behind once it has the mutex: drained and without its memory.\<close>

definition stop_ring :: "world \<Rightarrow> world res" where
  "stop_ring w =
     (case w_queue w of
        None \<Rightarrow> Inl NullDeref
      | Some q \<Rightarrow> rbind (drain (q_length q) q w) (\<lambda>(q, w). let (q, w) = release_mem q w in Inr (w\<lparr>w_queue := Some q\<rparr>)))"

inductive stopper_step :: "label \<Rightarrow> threads \<Rightarrow> threads \<Rightarrow> bool" where
  s_store: "th_stop t = S_Idle \<Longrightarrow>
    stopper_step Stop t (t\<lparr>th_stop := S_Signal, th_w := (th_w t)\<lparr>w_queue := Some ((ring_of t)\<lparr>q_continue := False\<rparr>)\<rparr>\<rparr>)"
| s_signal: "th_stop t = S_Signal \<Longrightarrow>
    stopper_step Run t (t\<lparr>th_stop := S_Join, th_work := (if th_work t = W_Wait then W_Relock else th_work t)\<rparr>)"
| s_join: "th_stop t = S_Join \<Longrightarrow> th_work t = W_Done \<Longrightarrow> stopper_step Run t (t\<lparr>th_stop := S_Lock\<rparr>)"
| s_lock: "th_stop t = S_Lock \<Longrightarrow> th_owner t = None \<Longrightarrow>
    stopper_step Run t (t\<lparr>th_stop := S_Drain, th_owner := Some Stopper\<rparr>)"
| s_drain: "th_stop t = S_Drain \<Longrightarrow> stop_ring (th_w t) = Inr w \<Longrightarrow>
    stopper_step Run t (t\<lparr>th_stop := S_Unlock, th_w := w\<rparr>)"
| s_unlock: "th_stop t = S_Unlock \<Longrightarrow> stopper_step Run t (t\<lparr>th_stop := S_Done, th_owner := None\<rparr>)"

definition step :: "nat \<Rightarrow> label \<Rightarrow> threads \<Rightarrow> threads \<Rightarrow> bool" where
  "step n l t t' \<longleftrightarrow> producer_step n l t t' \<or> worker_step l t t' \<or> stopper_step l t t'"

inductive reaches :: "nat \<Rightarrow> threads \<Rightarrow> label list \<Rightarrow> threads \<Rightarrow> bool" for n where
  reaches_refl: "reaches n t [] t"
| reaches_step: "reaches n t ls t1 \<Longrightarrow> step n l t1 t2 \<Longrightarrow> reaches n t (ls @ [l]) t2"

text \<open>The tasks queued on the way.\<close>

definition queued_by :: "label list \<Rightarrow> WriteTask list" where
  "queued_by ls = concat (map (\<lambda>l. case l of Queue t \<Rightarrow> [t] | _ \<Rightarrow> []) ls)"

section \<open>Mutual exclusion\<close>

fun p_holds :: "producer_pc \<Rightarrow> bool" where
  "p_holds P_Test = True" | "p_holds P_Load = True" | "p_holds P_Notify = True" | "p_holds P_Unlock = True"
| "p_holds P_Idle = False" | "p_holds P_Lock = False" | "p_holds P_Wait = False" | "p_holds P_Relock = False"

fun w_holds :: "worker_pc \<Rightarrow> bool" where
  "w_holds W_Loop = False" | "w_holds W_Lock = False" | "w_holds W_Wait = False" | "w_holds W_Relock = False" | "w_holds W_Done = False"
| "w_holds W_Test = True" | "w_holds W_Check = True" | "w_holds W_Sleep = True" | "w_holds W_Write = True" | "w_holds W_Notify = True"
| "w_holds W_Unlock = True" | "w_holds W_Leave = True"

fun s_holds :: "stopper_pc \<Rightarrow> bool" where
  "s_holds S_Idle = False" | "s_holds S_Signal = False" | "s_holds S_Join = False" | "s_holds S_Lock = False" | "s_holds S_Done = False"
| "s_holds S_Drain = True" | "s_holds S_Unlock = True"

definition lock_inv :: "nat \<Rightarrow> threads \<Rightarrow> bool" where
  "lock_inv n t \<longleftrightarrow> (\<forall>i. p_holds (th_prod t i) \<longleftrightarrow> th_owner t = Some (Producer i)) \<and> (w_holds (th_work t) \<longleftrightarrow> th_owner t = Some Worker)
     \<and> (s_holds (th_stop t) \<longleftrightarrow> th_owner t = Some Stopper) \<and> (\<forall>i\<ge>n. th_prod t i = P_Idle)"

lemma lock_invD:
  assumes "lock_inv n t"
  shows "p_holds (th_prod t i) \<longleftrightarrow> th_owner t = Some (Producer i)" "w_holds (th_work t) \<longleftrightarrow> th_owner t = Some Worker"
    "s_holds (th_stop t) \<longleftrightarrow> th_owner t = Some Stopper" "th_prod t i \<noteq> P_Idle \<Longrightarrow> i < n"
  using assms by (auto simp: lock_inv_def not_less intro: leI)

lemma lock_inv_producer:
  assumes "producer_step n l t t'" "lock_inv n t"
  shows "lock_inv n t'"
proof -
  note h = lock_invD(1,4) [OF assms(2)]
  from assms(1) show ?thesis
  proof (cases rule: producer_step.cases)
    case (p_begin i k m)
    then show ?thesis using assms(2) h [of i] by (auto simp: lock_inv_def set_prod_def)
  next
    case (p_lock i)
    then show ?thesis using assms(2) h [of i] by (auto simp: lock_inv_def set_prod_def)
  next
    case (p_full i)
    then show ?thesis using assms(2) h [of i] by (auto simp: lock_inv_def set_prod_def)
  next
    case (p_room i)
    then show ?thesis using assms(2) h [of i] by (auto simp: lock_inv_def set_prod_def)
  next
    case (p_load i w)
    then show ?thesis using assms(2) h [of i] by (auto simp: lock_inv_def set_prod_def)
  next
    case (p_notify i)
    then show ?thesis using assms(2) h [of i] by (auto simp: lock_inv_def set_prod_def)
  next
    case (p_unlock i)
    then show ?thesis using assms(2) h [of i] by (auto simp: lock_inv_def set_prod_def)
  next
    case (p_spurious i)
    then show ?thesis using assms(2) h [of i] by (auto simp: lock_inv_def set_prod_def)
  qed
qed

lemma lock_inv_worker:
  assumes "worker_step l t t'" "lock_inv n t"
  shows "lock_inv n t'"
proof -
  note h = lock_invD(2) [OF assms(2)]
  from assms(1) show ?thesis
  proof (cases rule: worker_step.cases)
    case (w_notify i)
    then show ?thesis using assms(2) h lock_invD(1,4) [OF assms(2), of i] by (auto simp: lock_inv_def set_prod_def)
  qed (use assms(2) h in \<open>auto simp: lock_inv_def\<close>)
qed

lemma lock_inv_stopper:
  assumes "stopper_step l t t'" "lock_inv n t"
  shows "lock_inv n t'"
proof -
  note h = lock_invD(2,3) [OF assms(2)]
  from assms(1) show ?thesis
    by (cases rule: stopper_step.cases) (use assms(2) h in \<open>auto simp: lock_inv_def\<close>)
qed

section \<open>The ring under the mutex\<close>

definition ring_inv :: "nat \<Rightarrow> threads \<Rightarrow> bool" where
  "ring_inv n t \<longleftrightarrow> w_queue (th_w t) \<noteq> None \<and> 2 \<le> q_length (ring_of t) \<and> (is_started (ring_of t) \<longleftrightarrow> th_stop t = S_Idle)
     \<and> sys_ok (th_w t) \<and> use_io_q (w_ctx (th_w t)) \<and> (\<forall>i<n. \<exists>p. live (th_w t) i p)"

text \<open>
  Nobody sleeps on what is there: the writer waits only while the ring is empty, or a thread that
  has queued a task is about to signal; a thread waits for room only while something is in the
  ring, or some thread that was woken is about to use the room, or the writer is about to signal.
\<close>

definition some_at :: "producer_pc set \<Rightarrow> threads \<Rightarrow> bool" where
  "some_at A t \<longleftrightarrow> (\<exists>i. th_prod t i \<in> A)"

definition wake_inv :: "threads \<Rightarrow> bool" where
  "wake_inv t \<longleftrightarrow> (th_work t \<in> {W_Leave, W_Done} \<longrightarrow> \<not> is_started (ring_of t)) \<and> (th_work t \<in> {W_Check, W_Sleep} \<longrightarrow> is_empty (ring_of t)) \<and> (th_work t = W_Write \<longrightarrow> \<not> is_empty (ring_of t))
     \<and> (\<forall>i. th_prod t i = P_Load \<longrightarrow> \<not> is_full (ring_of t))
     \<and> (th_work t = W_Wait \<longrightarrow> is_empty (ring_of t) \<or> some_at {P_Notify} t)
     \<and> (some_at {P_Wait} t \<longrightarrow> \<not> is_empty (ring_of t) \<or> some_at {P_Relock, P_Test, P_Load} t \<or> th_work t = W_Notify)"

definition released :: "threads \<Rightarrow> bool" where
  "released t \<longleftrightarrow> th_stop t = S_Unlock \<or> th_stop t = S_Done"

definition joined :: "threads \<Rightarrow> bool" where
  "joined t \<longleftrightarrow> th_stop t = S_Lock \<or> th_stop t = S_Drain \<or> released t"

definition gone :: "threads \<Rightarrow> bool" where
  "gone t \<longleftrightarrow> w_queue (th_w t) \<noteq> None \<and> q_taskq (ring_of t) = [] \<and> is_empty (ring_of t) \<and> use_io_q (w_ctx (th_w t))"

definition state_inv :: "nat \<Rightarrow> threads \<Rightarrow> bool" where
  "state_inv n t \<longleftrightarrow> lock_inv n t \<and> (joined t \<longrightarrow> th_work t = W_Done) \<and> (if released t then gone t else ring_inv n t \<and> wake_inv t)"

lemma ring_invD:
  assumes "ring_inv n t"
  obtains q where "w_queue (th_w t) = Some q" "ring_of t = q" "q_ok q" "2 \<le> q_length q" "is_started q \<longleftrightarrow> th_stop t = S_Idle"
    "sys_ok (th_w t)" "use_io_q (w_ctx (th_w t))"
proof -
  obtain q where "w_queue (th_w t) = Some q" using assms by (auto simp: ring_inv_def)
  then show thesis using assms that by (auto simp: ring_inv_def ring_of_def sys_ok_def queue_ok_def)
qed

lemma full_not_empty: "2 \<le> q_length q \<Longrightarrow> is_full q \<Longrightarrow> \<not> is_empty q"
  by (auto simp: is_full_def is_empty_def)

lemma put_not_empty: "q_inv q \<Longrightarrow> \<not> is_full q \<Longrightarrow> \<not> is_empty (q_put x q)"
  using q_empty_iff [OF q_inv_put] q_content_put by simp

text \<open>The two steps that change the ring while nobody else can.\<close>

lemma push_buf_ring:
  assumes "ring_inv n t" "i < n" "\<not> is_full (ring_of t)" "push_buf i (th_w t) = Inr w"
  defines "x \<equiv> fst (load_with (q_slot (ring_of t)) (tlb (th_w t) i))"
  shows "w_queue w = Some (q_put x (ring_of t))" "sys_ok w" "w_ctx w = w_ctx (th_w t)" "\<forall>j<n. \<exists>p. live w j p"
    "\<not> is_empty (q_put x (ring_of t))" "fd_path (w_os w) = fd_path (w_os (th_w t))"
    "disk w p = disk (th_w t) p @ pending (w_os (th_w t)) p [x]"
proof -
  obtain q where q: "w_queue (th_w t) = Some q" "ring_of t = q" "q_ok q" "sys_ok (th_w t)" "use_io_q (w_ctx (th_w t))"
    using assms(1) by (rule ring_invD)
  obtain p0 where l: "live (th_w t) i p0" using assms(1,2) by (auto simp: ring_inv_def)
  have r: "ready (th_w t)" using q assms(3) by (simp add: ready_def)
  have w: "w = set_tlb i (snd (load_with (q_slot q) (tlb (th_w t) i))) ((th_w t)\<lparr>w_queue := Some (q_put x q)\<rparr>)"
    using assms(3,4) q by (simp add: push_buf_def push_eq q_ok_def x_def)
  obtain k: "live w i p0" "sys_ok w" "disk w p0 = tlog (th_w t) i p0" "quiet i p0 (th_w t) w"
    using push_buf_log [OF l q(4) r q(5)] assms(4) by auto
  show "w_queue w = Some (q_put x (ring_of t))" using w q(2) by simp
  show "sys_ok w" "w_ctx w = w_ctx (th_w t)" using k w by simp_all
  show fd: "fd_path (w_os w) = fd_path (w_os (th_w t))" using w by simp
  show "\<not> is_empty (q_put x (ring_of t))" using put_not_empty q(2,3) assms(3) by (simp add: q_ok_def)
  have "\<exists>p. live w j p" if "j < n" for j
  proof (cases "j = i")
    case False
    then have "tlb w j = tlb (th_w t) j" using k(4) by (simp add: quiet_def)
    then show ?thesis using that assms(1) fd by (auto simp: ring_inv_def live_def)
  qed (use k(1) in blast)
  then show "\<forall>j<n. \<exists>p. live w j p" by blast
  have "wt_fd x = tb_fd (tlb (th_w t) i)" "task_bytes x = buf_bytes (tlb (th_w t) i)"
    by (simp_all add: x_def load_with_def task_bytes_def buf_bytes_def split: option.split)
  then show "disk w p = disk (th_w t) p @ pending (w_os (th_w t)) p [x]"
    using l k(3,4) by (auto simp: live_def tlog_def quiet_def)
qed

lemma work_round_ring:
  assumes "ring_inv n t" "work_round (th_w t) = Inr w"
  obtains q' where "w_queue w = Some q'" "q_length q' = q_length (ring_of t)" "q_continue q' = q_continue (ring_of t)"
    "\<not> is_full q'" "sys_ok w" "w_ctx w = w_ctx (th_w t)" "\<forall>j<n. \<exists>p. live w j p" "fd_path (w_os w) = fd_path (w_os (th_w t))"
    "\<forall>p. disk w p = disk (th_w t) p"
proof -
  obtain q where q: "w_queue (th_w t) = Some q" "ring_of t = q" "q_ok q" "sys_ok (th_w t)" "use_io_q (w_ctx (th_w t))"
    using assms(1) by (rule ring_invD)
  note k = work_round_keeps [OF q(4,5) assms(2)]
  have ne: "\<not> is_empty q" using assms(2) q(1) by (auto simp: work_round_def)
  have pl: "\<not> use_compression (w_ctx (th_w t))" "full_writes (w_os (th_w t))" using q(4) by (auto simp: sys_ok_def plain_io_def)
  let ?q = "(snd (q_pop q))\<lparr>q_taskq := (q_taskq (snd (q_pop q)))[q_head q := (q_front q)\<lparr>wt_size := 0\<rparr>]\<rparr>"
  have w: "w_queue w = Some ?q"
    using assms(2) q(1) ne do_write_plain [OF pl(1) q_front_ok [OF q(3)]]
    by (auto simp: work_round_def q_front_def q_pop_def Let_def)
  have "q_inv q" using q(3) by (simp add: q_ok_def)
  then have "\<not> is_full ?q" using ring.pop_then_not_full [of q] ne by (simp add: is_full_def)
  then show thesis using that [of ?q] w k q(2) assms(1) by (auto simp: q_pop_def ring_inv_def live_def)
qed

lemma set_prod_simps [simp]:
  "th_w (set_prod i pc t) = th_w t" "th_owner (set_prod i pc t) = th_owner t" "th_work (set_prod i pc t) = th_work t"
  "th_stop (set_prod i pc t) = th_stop t" "th_prod (set_prod i pc t) j = (if j = i then pc else th_prod t j)"
  "ring_of (set_prod i pc t) = ring_of t"
  by (simp_all add: set_prod_def ring_of_def)

lemma ring_of_simps [simp]:
  "ring_of (t\<lparr>th_owner := ow\<rparr>) = ring_of t" "ring_of (t\<lparr>th_work := w\<rparr>) = ring_of t" "ring_of (t\<lparr>th_stop := st\<rparr>) = ring_of t"
  by (simp_all add: ring_of_def)

lemma ring_inv_simps [simp]:
  "ring_inv n (set_prod i pc t) = ring_inv n t" "ring_inv n (t\<lparr>th_owner := ow\<rparr>) = ring_inv n t" "ring_inv n (t\<lparr>th_work := w\<rparr>) = ring_inv n t"
  by (simp_all add: ring_inv_def)

text \<open>Filling a buffer concerns neither the ring nor the files.\<close>

lemma fill_simps [simp]:
  "w_queue (fill i k m w) = w_queue w" "w_os (fill i k m w) = w_os w" "w_ctx (fill i k m w) = w_ctx w"
  "disk (fill i k m w) = disk w" "sys_ok (fill i k m w) = sys_ok w" "ring_of (t\<lparr>th_w := fill i k m (th_w t)\<rparr>) = ring_of t"
  by (auto simp: fill_def upd_tlb_def ring_of_def)

lemma fill_live:
  assumes "live w j p" "blk_len k = tb_capacity (tlb w i)" "m \<le> tb_capacity (tlb w i)"
  shows "live (fill i k m w) j p"
  using assms by (cases "j = i") (auto simp: fill_def upd_tlb_def live_def buf_ok_def split: option.splits)

lemma fill_ring:
  assumes "ring_inv n t" "blk_len k = tb_capacity (tlb (th_w t) i)" "m \<le> tb_capacity (tlb (th_w t) i)"
  shows "ring_inv n (t\<lparr>th_w := fill i k m (th_w t)\<rparr>)"
  using assms fill_live [OF _ assms(2,3)] by (fastforce simp: ring_inv_def)

text \<open>The log: what the files and the ring hold for a file after a step.\<close>

definition logs_step :: "label \<Rightarrow> threads \<Rightarrow> threads \<Rightarrow> bool" where
  "logs_step l t t' \<longleftrightarrow> fd_path (w_os (th_w t')) = fd_path (w_os (th_w t))
     \<and> (\<forall>p. disk (th_w t') p = disk (th_w t) p @ pending (w_os (th_w t)) p (queued_by [l]))"

lemma logs_step_same: "th_w t' = th_w t \<Longrightarrow> queued_by [l] = [] \<Longrightarrow> logs_step l t t'"
  by (simp add: logs_step_def)

lemma some_at_simps [simp]:
  "some_at A (t\<lparr>th_owner := ow\<rparr>) = some_at A t" "some_at A (t\<lparr>th_work := w\<rparr>) = some_at A t"
  "some_at A (t\<lparr>th_stop := st\<rparr>) = some_at A t" "some_at A (t\<lparr>th_w := wd\<rparr>) = some_at A t"
  by (simp_all add: some_at_def)

lemma some_at_set:
  "pc \<in> A \<Longrightarrow> some_at A (set_prod i pc t)"
  "pc \<notin> A \<Longrightarrow> th_prod t i \<notin> A \<Longrightarrow> some_at A (set_prod i pc t) = some_at A t"
  by (auto simp: some_at_def)

lemma some_at_mono: "some_at A (set_prod i pc t) \<Longrightarrow> pc \<notin> A \<Longrightarrow> some_at A t"
  by (auto simp: some_at_def split: if_splits)


lemma producer_keeps_wake:
  assumes "producer_step n l t t'" "lock_inv n t" "ring_inv n t" "wake_inv t"
  shows "wake_inv t'"
proof -
  note h = lock_invD [OF assms(2)]
  obtain q where q: "w_queue (th_w t) = Some q" "ring_of t = q" "q_ok q" "2 \<le> q_length q" by (rule ring_invD [OF assms(3)])
  from assms(1) show ?thesis
  proof (cases rule: producer_step.cases)
    case (p_load i w)
    then have i: "i < n" "th_owner t = Some (Producer i)" "\<not> is_full (ring_of t)" using h(1,4) [of i] assms(4) by (auto simp: wake_inv_def)
    note r = push_buf_ring [OF assms(3) i(1,3) p_load(4)]
    have "ring_of t' = q_put (fst (load_with (q_slot (ring_of t)) (tlb (th_w t) i))) (ring_of t)" using r(1) p_load(2) by (simp add: ring_of_def)
    moreover have "\<not> w_holds (th_work t)" using h(2) i(2) by simp
    moreover have "th_prod t j \<noteq> P_Load" if "j \<noteq> i" for j using h(1) [of j] i(2) that by auto
    moreover have "is_started (q_put x (ring_of t)) = is_started (ring_of t)" for x by (simp add: is_started_def q_put_def)
    ultimately show ?thesis using r(5) p_load(2) assms(4) by (auto simp: wake_inv_def some_at_set)
  next
    case (p_full i)
    then show ?thesis using assms(4) full_not_empty [of "ring_of t"] q by (auto simp: wake_inv_def some_at_set)
  next
    case (p_lock i)
    then show ?thesis using assms(4) by (auto simp: wake_inv_def some_at_set)
  next
    case (p_notify i)
    then show ?thesis using assms(4) h(1) [of i] h(2) by (auto simp: wake_inv_def some_at_set dest: some_at_mono)
  qed (use assms(4) in \<open>auto simp: wake_inv_def some_at_set\<close>)
qed

lemma producer_keeps_ring:
  assumes "producer_step n l t t'" "lock_inv n t" "ring_inv n t" "wake_inv t"
  shows "ring_inv n t' \<and> logs_step l t t'"
  using assms(1)
proof (cases rule: producer_step.cases)
  case (p_load i w)
  then have i: "i < n" "\<not> is_full (ring_of t)" using lock_invD(4) [OF assms(2), of i] assms(4) by (auto simp: wake_inv_def)
  note r = push_buf_ring [OF assms(3) i p_load(4)]
  have "ring_of t' = q_put (fst (load_with (q_slot (ring_of t)) (tlb (th_w t) i))) (ring_of t)" using r(1) p_load(2) by (simp add: ring_of_def)
  then have "ring_inv n t'" using assms(3) r(1-4) p_load(2) by (simp add: ring_inv_def q_put_def is_started_def)
  then show ?thesis using r(6,7) p_load(1,2) by (simp add: logs_step_def queued_by_def)
next
  case (p_begin i k m)
  then show ?thesis using fill_ring [OF assms(3)] by (simp add: logs_step_def queued_by_def)
qed (use assms(3) in \<open>simp_all add: logs_step_same queued_by_def\<close>)

lemma worker_keeps_ring:
  assumes "worker_step l t t'" "ring_inv n t"
  shows "ring_inv n t' \<and> logs_step l t t'"
  using assms(1)
proof (cases rule: worker_step.cases)
  case (w_write w)
  from assms(2) w_write(4) obtain q' where q': "w_queue w = Some q'" "q_length q' = q_length (ring_of t)" "q_continue q' = q_continue (ring_of t)"
    "sys_ok w" "w_ctx w = w_ctx (th_w t)" "\<forall>j<n. \<exists>p. live w j p" "fd_path (w_os w) = fd_path (w_os (th_w t))" "\<forall>p. disk w p = disk (th_w t) p"
    by (rule work_round_ring)
  have "ring_inv n t'" using assms(2) q' w_write(2) by (simp add: ring_inv_def ring_of_def is_started_def)
  then show ?thesis using q'(7,8) w_write(1,2) by (simp add: logs_step_def queued_by_def)
qed (use assms(2) in \<open>simp_all add: logs_step_same queued_by_def\<close>)

lemma worker_keeps_wake:
  assumes "worker_step l t t'" "lock_inv n t" "ring_inv n t" "wake_inv t"
  shows "wake_inv t'"
proof -
  note h = lock_invD [OF assms(2)]
  from assms(1) show ?thesis
  proof (cases rule: worker_step.cases)
    case (w_write w)
    from assms(3) w_write(4) obtain q' where q': "w_queue w = Some q'" "\<not> is_full q'" by (rule work_round_ring)
    then have "ring_of t' = q'" using w_write(2) by (simp add: ring_of_def)
    then show ?thesis using q'(2) w_write(2) by (simp add: wake_inv_def)
  next
    case (w_notify i)
    then show ?thesis using assms(4) by (auto simp: wake_inv_def some_at_set)
  next
    case w_notify_none
    then show ?thesis using assms(4) by (auto simp: wake_inv_def some_at_def)
  qed (use assms(4) in \<open>auto simp: wake_inv_def\<close>)
qed

text \<open>Draining leaves an empty ring and everything in the files.\<close>

lemma stop_ring_log:
  assumes "ring_inv n t"
  shows "\<exists>w. stop_ring (th_w t) = Inr w"
    and "stop_ring (th_w t) = Inr w \<Longrightarrow> w_queue w \<noteq> None \<and> q_taskq (the (w_queue w)) = [] \<and> is_empty (the (w_queue w))
      \<and> use_io_q (w_ctx w) \<and> fd_path (w_os w) = fd_path (w_os (th_w t)) \<and> disk w p = disk (th_w t) p"
proof -
  obtain q where q: "w_queue (th_w t) = Some q" "ring_of t = q" "q_ok q" "sys_ok (th_w t)" "use_io_q (w_ctx (th_w t))"
    using assms by (rule ring_invD)
  have pl: "\<not> use_compression (w_ctx (th_w t))" "full_writes (w_os (th_w t))" using q(4) by (auto simp: sys_ok_def plain_io_def)
  have "length (q_content q) \<le> q_length q" using q_span_le [of q] q(3) by (simp add: q_ok_def)
  from drain_total [OF q(3) pl this] obtain q' s where d: "drain (q_length q) q (th_w t) = Inr (q', (th_w t)\<lparr>w_os := s\<rparr>)" "is_empty q'"
    "\<forall>k. fd_path s k = fd_path (w_os (th_w t)) k" "\<forall>p. file_bytes s p = file_bytes (w_os (th_w t)) p @ pending (w_os (th_w t)) p (q_content q)"
    by blast
  let ?w = "(th_w t)\<lparr>w_os := s, w_queue := Some (q'\<lparr>q_taskq := []\<rparr>)\<rparr>"
  have r: "stop_ring (th_w t) = Inr ?w" using q(1) d(1) pl(1) by (simp add: stop_ring_def release_mem_def)
  then show "\<exists>w. stop_ring (th_w t) = Inr w" by blast
  assume "stop_ring (th_w t) = Inr w"
  then have "w = ?w" using r by simp
  moreover have "q_content (q'\<lparr>q_taskq := []\<rparr>) = []" using d(2) by (simp add: q_content_def q_span_def is_empty_def)
  ultimately show "w_queue w \<noteq> None \<and> q_taskq (the (w_queue w)) = [] \<and> is_empty (the (w_queue w))
      \<and> use_io_q (w_ctx w) \<and> fd_path (w_os w) = fd_path (w_os (th_w t)) \<and> disk w p = disk (th_w t) p"
    using q d(2,3,4) by (simp add: disk_def queued_def is_empty_def fun_eq_iff)
qed

lemma stopper_keeps:
  assumes "stopper_step l t t'" "state_inv n t"
  shows "state_inv n t' \<and> logs_step l t t'"
proof -
  note d = state_inv_def released_def joined_def
  have "lock_inv n t'" using lock_inv_stopper [OF assms(1)] assms(2) by (simp add: state_inv_def)
  from assms(1) show ?thesis
  proof (cases rule: stopper_step.cases)
    case s_store
    then have r: "ring_inv n t" "wake_inv t" using assms(2) by (simp_all add: d)
    from r(1) obtain q where q: "w_queue (th_w t) = Some q" "ring_of t = q" by (rule ring_invD)
    let ?q = "q\<lparr>q_continue := False\<rparr>"
    have t': "ring_of t' = ?q" "w_queue (th_w t') = Some ?q" "th_stop t' = S_Signal" using s_store(2) q by (simp_all add: ring_of_def)
    have e: "is_empty ?q = is_empty q" "is_full ?q = is_full q" "q_content ?q = q_content q" "q_taskq ?q = q_taskq q" "q_ok ?q = q_ok q"
      by (simp_all add: is_empty_def is_full_def)
    have "ring_inv n t'" using r(1) q t' e s_store(2) by (simp add: ring_inv_def is_started_def sys_ok_def plain_io_def queue_ok_def live_def)
    moreover have "wake_inv t'" using r(2) q t' e s_store(2) by (simp add: wake_inv_def some_at_def is_started_def)
    moreover have "logs_step l t t'" using q t' e s_store(1,2) by (simp add: logs_step_def queued_by_def disk_def queued_def)
    ultimately show ?thesis using \<open>lock_inv n t'\<close> t'(3) by (simp add: d)
  next
    case s_drain
    then have r: "ring_inv n t" "th_work t = W_Done" using assms(2) by (simp_all add: d)
    from s_drain stop_ring_log(2) [OF r(1) s_drain(4)] show ?thesis
      using \<open>lock_inv n t'\<close> r(2) by (simp add: d gone_def ring_of_def logs_step_def queued_by_def)
  next
    case s_signal
    then show ?thesis using assms(2) \<open>lock_inv n t'\<close>
      by (auto simp: d ring_inv_def wake_inv_def logs_step_same queued_by_def)
  qed (use assms(2) \<open>lock_inv n t'\<close> in \<open>auto simp: d ring_inv_def wake_inv_def gone_def logs_step_same queued_by_def\<close>)
qed

lemma joined_set_prod [simp]: "joined (set_prod i pc t) = joined t" "released (set_prod i pc t) = released t" "gone (set_prod i pc t) = gone t"
  by (simp_all add: joined_def released_def gone_def)

lemma joined_simps [simp]:
  "joined (t\<lparr>th_owner := ow\<rparr>) = joined t" "joined (t\<lparr>th_work := w\<rparr>) = joined t" "joined (t\<lparr>th_w := wd\<rparr>) = joined t"
  "released (t\<lparr>th_owner := ow\<rparr>) = released t" "released (t\<lparr>th_work := w\<rparr>) = released t" "released (t\<lparr>th_w := wd\<rparr>) = released t"
  "gone (t\<lparr>th_owner := ow\<rparr>) = gone t" "gone (t\<lparr>th_work := w\<rparr>) = gone t"
  by (simp_all add: joined_def released_def gone_def)

lemma push_gone: "gone t \<Longrightarrow> push_buf i (th_w t) \<noteq> Inr w"
  by (auto simp: gone_def push_buf_def push_def ring_of_def split: if_splits)

lemma producer_gone:
  assumes "producer_step n l t t'" "gone t"
  shows "gone t' \<and> logs_step l t t'"
  using assms(1)
proof (cases rule: producer_step.cases)
  case (p_load i w)
  then show ?thesis using push_gone [OF assms(2)] by blast
next
  case (p_begin i k m)
  then show ?thesis using assms(2) by (simp add: gone_def logs_step_def queued_by_def)
qed (use assms(2) in \<open>simp_all add: logs_step_same queued_by_def\<close>)

lemma producer_parts:
  assumes "producer_step n l t t'"
  shows "th_stop t' = th_stop t \<and> (th_work t \<noteq> W_Wait \<longrightarrow> th_work t' = th_work t)"
  using assms by (cases rule: producer_step.cases) simp_all

lemma worker_parts:
  assumes "worker_step l t t'"
  shows "th_stop t' = th_stop t \<and> th_work t \<noteq> W_Done"
  using assms by (cases rule: worker_step.cases) auto

lemma step_keeps:
  assumes "step n l t t'" "state_inv n t"
  shows "state_inv n t' \<and> logs_step l t t'"
proof -
  have i: "lock_inv n t" "joined t \<longrightarrow> th_work t = W_Done" "if released t then gone t else ring_inv n t \<and> wake_inv t"
    using assms(2) by (simp_all add: state_inv_def)
  consider (p) "producer_step n l t t'" | (w) "worker_step l t t'" | (s) "stopper_step l t t'" using assms(1) by (auto simp: step_def)
  then show ?thesis
  proof cases
    case p
    note k = producer_parts [OF p, THEN conjunct1] producer_parts [OF p, THEN conjunct2]
    have "joined t' = joined t" "released t' = released t" using k(1) by (simp_all add: joined_def released_def)
    moreover have "if released t then gone t' \<and> logs_step l t t' else ring_inv n t' \<and> wake_inv t' \<and> logs_step l t t'"
      using i producer_gone [OF p] producer_keeps_ring [OF p] producer_keeps_wake [OF p] by (cases "released t") simp_all
    moreover have "joined t \<longrightarrow> th_work t' = W_Done" using i(2) k(2) by auto
    ultimately show ?thesis using lock_inv_producer [OF p i(1)] by (cases "released t") (simp_all add: state_inv_def)
  next
    case w
    note k = worker_parts [OF w, THEN conjunct1] worker_parts [OF w, THEN conjunct2]
    have "\<not> joined t" "\<not> released t" using i(2) k(2) by (auto simp: joined_def)
    moreover have "joined t' = joined t" "released t' = released t" using k(1) by (simp_all add: joined_def released_def)
    ultimately show ?thesis
      using i lock_inv_worker [OF w i(1)] worker_keeps_ring [OF w, of n] worker_keeps_wake [OF w, of n] by (simp add: state_inv_def)
  next
    case s
    then show ?thesis using stopper_keeps assms(2) by blast
  qed
qed

lemma queued_by_append [simp]: "queued_by (ls @ ms) = queued_by ls @ queued_by ms" "queued_by [] = []"
  by (simp_all add: queued_by_def)

lemma reaches_keeps:
  assumes "reaches n t ls t'" "state_inv n t"
  shows "state_inv n t' \<and> fd_path (w_os (th_w t')) = fd_path (w_os (th_w t))
    \<and> (\<forall>p. disk (th_w t') p = disk (th_w t) p @ pending (w_os (th_w t)) p (queued_by ls))"
  using assms
proof (induction rule: reaches.induct)
  case (reaches_step t ls t1 l t2)
  then have IH: "state_inv n t1" "fd_path (w_os (th_w t1)) = fd_path (w_os (th_w t))"
    "\<forall>p. disk (th_w t1) p = disk (th_w t) p @ pending (w_os (th_w t)) p (queued_by ls)" by auto
  have "pending (w_os (th_w t1)) p ts = pending (w_os (th_w t)) p ts" for p ts using IH(2) by (intro pending_cong) simp
  then show ?case using step_keeps [OF reaches_step.hyps(2) IH(1)] IH(2,3) by (simp add: logs_step_def)
qed simp

section \<open>Progress\<close>

text \<open>
  The steps threads take by themselves. Every one of them uses up some of \<open>effort\<close>: what a thread
  still has to do, what it costs to wake another, and eight for every task in the ring.
\<close>

definition internal :: "label \<Rightarrow> bool" where
  "internal l \<longleftrightarrow> l = Run \<or> (\<exists>x. l = Queue x)"

fun p_effort :: "producer_pc \<Rightarrow> nat" where
  "p_effort P_Idle = 0" | "p_effort P_Unlock = 1" | "p_effort P_Notify = 6" | "p_effort P_Load = 15"
| "p_effort P_Wait = 16" | "p_effort P_Test = 17" | "p_effort P_Relock = 18" | "p_effort P_Lock = 18"



definition p_total :: "nat \<Rightarrow> threads \<Rightarrow> nat" where
  "p_total n t = (\<Sum>i<n. p_effort (th_prod t i))"


lemma p_total_simps [simp]:
  "p_total n (t\<lparr>th_owner := ow\<rparr>) = p_total n t" "p_total n (t\<lparr>th_work := w\<rparr>) = p_total n t"
  "p_total n (t\<lparr>th_stop := st\<rparr>) = p_total n t" "p_total n (t\<lparr>th_w := wd\<rparr>) = p_total n t"
  by (simp_all add: p_total_def)









lemma internal_simps [simp]: "internal Run" "internal (Queue x)" "\<not> internal Begin" "\<not> internal Spurious" "\<not> internal Stop"
  by (simp_all add: internal_def)





section \<open>From the start of the queue\<close>

text \<open>
  \<^verbatim>\<open>OutQueue::start\<close> has run: the worker is about to enter its loop, no thread is in \<^verbatim>\<open>push\<close> and
  each of the \<open>n\<close> tracing threads has its buffer and its open file.
\<close>

definition start_threads :: "world \<Rightarrow> threads" where
  "start_threads w = \<lparr>th_w = w, th_owner = None, th_prod = (\<lambda>_. P_Idle), th_work = W_Loop, th_stop = S_Idle\<rparr>"

definition queue_started :: "nat \<Rightarrow> world \<Rightarrow> bool" where
  "queue_started n w \<longleftrightarrow> (case w_queue w of None \<Rightarrow> False | Some q \<Rightarrow> 2 \<le> q_length q \<and> is_started q)
     \<and> sys_ok w \<and> use_io_q (w_ctx w) \<and> (\<forall>i<n. \<exists>p. live w i p)"

lemma start_inv: "queue_started n w \<Longrightarrow> state_inv n (start_threads w)"
  by (auto simp: queue_started_def state_inv_def start_threads_def lock_inv_def joined_def released_def ring_inv_def ring_of_def
      wake_inv_def some_at_def split: option.splits)

lemma started_reaches:
  assumes "queue_started n w" "reaches n (start_threads w) ls t"
  shows "state_inv n t" "fd_path (w_os (th_w t)) = fd_path (w_os w)"
    "disk (th_w t) p = disk w p @ pending (w_os w) p (queued_by ls)"
  using reaches_keeps [OF assms(2) start_inv [OF assms(1)]] by (simp_all add: start_threads_def)

lemma empty_disk: "w_queue w = Some q \<Longrightarrow> is_empty q \<Longrightarrow> disk w p = file_bytes (w_os w) p"
  by (simp add: disk_def queued_def q_content_def q_span_def is_empty_def)



text \<open>
  C4. Whatever the interleaving of the pushing threads, the writer and \<^verbatim>\<open>stop\<close>, at most one of them
  is inside the part guarded by the mutex, and every file together with what the ring holds for it is
  what was there at the start followed by the contents of the pushed buffers in the order of the
  pushes. When \<^verbatim>\<open>stop\<close> has returned all of it is in the files.
\<close>

theorem queue_threads_invariant:
  assumes "queue_started n w" "reaches n (start_threads w) ls t"
  shows "(\<forall>i j. p_holds (th_prod t i) \<and> p_holds (th_prod t j) \<longrightarrow> i = j)
    \<and> (\<forall>i. p_holds (th_prod t i) \<longrightarrow> \<not> w_holds (th_work t) \<and> \<not> s_holds (th_stop t)) \<and> \<not> (w_holds (th_work t) \<and> s_holds (th_stop t))
    \<and> disk (th_w t) p = disk w p @ pending (w_os w) p (queued_by ls)
    \<and> (th_stop t = S_Done \<longrightarrow> file_bytes (w_os (th_w t)) p = disk w p @ pending (w_os w) p (queued_by ls))"
proof -
  note k = started_reaches [OF assms]
  then have l: "lock_inv n t" by (simp add: state_inv_def)
  have "file_bytes (w_os (th_w t)) p = disk (th_w t) p" if "th_stop t = S_Done"
  proof -
    have "gone t" using that k(1) by (simp add: state_inv_def released_def)
    then show ?thesis using empty_disk by (auto simp: gone_def ring_of_def)
  qed
  then show ?thesis using lock_invD(1-3) [OF l] k(3) by (auto simp only: option.inject actor.inject actor.distinct)
qed


text \<open>
  C35. The shutdown can miss its only wake-up: \<^verbatim>\<open>stop\<close> clears the flag and signals without the
  mutex, so a writer that has just seen the flag set goes to sleep after the signal. Then \<^verbatim>\<open>stop\<close>
  waits for a writer that nobody wakes: only a spurious wake-up or another \<^verbatim>\<open>push\<close> can still happen.
\<close>

theorem stop_misses_wakeup:
  assumes "queue_started n w" "w_queue w = Some q" "is_empty q"
  shows "\<exists>t. reaches n (start_threads w) [Run, Run, Run, Run, Stop, Run, Run] t
    \<and> th_stop t = S_Join \<and> th_work t = W_Wait \<and> (\<forall>i. th_prod t i = P_Idle)
    \<and> (\<forall>l u. step n l t u \<longrightarrow> l = Spurious \<or> l = Begin)"
proof -
  let ?q = "q\<lparr>q_continue := False\<rparr>"
  let ?t = "\<lambda>wk ow. \<lparr>th_w = w, th_owner = ow, th_prod = (\<lambda>_. P_Idle), th_work = wk, th_stop = S_Idle\<rparr>"
  let ?u = "\<lambda>wk ow st. \<lparr>th_w = w\<lparr>w_queue := Some ?q\<rparr>, th_owner = ow, th_prod = (\<lambda>_. P_Idle), th_work = wk, th_stop = st\<rparr>"
  have q: "is_started q" using assms(1,2) by (simp add: queue_started_def)
  have W: "worker_step Run (?t W_Loop None) (?t W_Lock None)" "worker_step Run (?t W_Lock None) (?t W_Test (Some Worker))"
    "worker_step Run (?t W_Test (Some Worker)) (?t W_Check (Some Worker))" "worker_step Run (?t W_Check (Some Worker)) (?t W_Sleep (Some Worker))"
    "worker_step Run (?u W_Sleep (Some Worker) S_Join) (?u W_Wait None S_Join)"
    using w_loop [of "?t W_Loop None"] w_lock [of "?t W_Lock None"] w_test [of "?t W_Test (Some Worker)"] w_check [of "?t W_Check (Some Worker)"]
      w_sleep [of "?u W_Sleep (Some Worker) S_Join"] q assms(2,3) by (simp_all add: ring_of_def)
  have S: "stopper_step Stop (?t W_Sleep (Some Worker)) (?u W_Sleep (Some Worker) S_Signal)"
    "stopper_step Run (?u W_Sleep (Some Worker) S_Signal) (?u W_Sleep (Some Worker) S_Join)"
    using s_store [of "?t W_Sleep (Some Worker)"] s_signal [of "?u W_Sleep (Some Worker) S_Signal"] assms(2) by (simp_all add: ring_of_def)
  have "reaches n (start_threads w) ((((((([] @ [Run]) @ [Run]) @ [Run]) @ [Run]) @ [Stop]) @ [Run]) @ [Run]) (?u W_Wait None S_Join)"
    unfolding start_threads_def by (rule reaches_step reaches_refl | use W S in \<open>simp add: step_def; blast\<close>)+
  moreover have "l = Spurious \<or> l = Begin" if "step n l (?u W_Wait None S_Join) u" for l u
    using that unfolding step_def by (auto elim!: producer_step.cases worker_step.cases stopper_step.cases)
  ultimately show ?thesis by (intro exI [of _ "?u W_Wait None S_Join"]) simp
qed

text \<open>A run to look at: one thread pushes its three bytes into an empty ring.\<close>

definition demo_start :: world where
  "demo_start = demo_world True [1] 3 (demo_queue 0 4)"

definition demo_pushed :: WriteTask where
  "demo_pushed = fst (load_with (q_slot (demo_queue 0 4)) (demo_buf 3))"

lemma demo_started: "queue_started 1 demo_start" "w_queue demo_start = Some (demo_queue 0 4)" "is_empty (demo_queue 0 4)"
proof -
  have "\<exists>p. live demo_start 0 p" using demo_live [of 3 True "[1]" "demo_queue 0 4"] by (auto simp: demo_start_def)
  moreover have "sys_ok demo_start" using demo_sys_ok [of 0 4] by (simp add: demo_start_def)
  ultimately show "queue_started 1 demo_start" "w_queue demo_start = Some (demo_queue 0 4)" "is_empty (demo_queue 0 4)"
    by (simp_all add: queue_started_def is_started_def is_empty_def demo_queue_def demo_start_def demo_ctx_def)
qed

lemma demo_threads_run:
  "\<exists>t. reaches 1 (start_threads demo_start) [Begin, Run, Run, Queue demo_pushed] t \<and> th_prod t 0 = P_Notify \<and> th_work t = W_Loop"
proof -
  let ?t = "\<lambda>pc ow. set_prod 0 pc ((start_threads demo_start)\<lparr>th_owner := ow\<rparr>)"
  obtain w where w: "push_buf 0 demo_start = Inr w"
    using push_buf_log [of demo_start 0 "''t/0''"] demo_live [of 3] demo_sys_ok [of 0 4] demo_ready
    by (auto simp: demo_start_def demo_ctx_def)
  let ?u = "set_prod 0 P_Notify ((?t P_Load (Some (Producer 0)))\<lparr>th_w := w\<rparr>)"
  have r: "ring_of (?t pc ow) = demo_queue 0 4" "tlb demo_start 0 = demo_buf 3" for pc ow by (simp_all add: ring_of_def start_threads_def demo_start_def)
  have f: "\<not> is_full (demo_queue 0 4)" by (simp add: is_full_def demo_queue_def)
  have fl: "fill 0 (the (tb_buf (demo_buf 3))) 3 demo_start = demo_start"
    by (simp add: fill_def upd_tlb_def set_tlb_def demo_start_def demo_world_def demo_buf_def tlb_def fun_upd_idem)
  have s0: "step 1 Begin (start_threads demo_start) (?t P_Lock None)"
    using p_begin [of 0 1 "start_threads demo_start" "the (tb_buf (demo_buf 3))" 3] fl by (simp add: step_def start_threads_def set_prod_def demo_start_def demo_buf_def)
  have s1: "step 1 Run (?t P_Lock None) (?t P_Test (Some (Producer 0)))"
    using p_lock [of "?t P_Lock None" 0 1] by (simp add: step_def start_threads_def set_prod_def)
  have s2: "step 1 Run (?t P_Test (Some (Producer 0))) (?t P_Load (Some (Producer 0)))"
    using p_room [of "?t P_Test (Some (Producer 0))" 0 1] r(1) f by (simp add: step_def start_threads_def set_prod_def)
  have s3: "step 1 (Queue demo_pushed) (?t P_Load (Some (Producer 0))) ?u"
    using p_load [of "?t P_Load (Some (Producer 0))" 0 w 1] w r by (simp add: step_def start_threads_def demo_pushed_def)
  have "reaches 1 (start_threads demo_start) (((([] @ [Begin]) @ [Run]) @ [Run]) @ [Queue demo_pushed]) ?u"
    by (rule reaches_step reaches_refl s0 s1 s2 s3)+
  then show ?thesis by (intro exI [of _ ?u]) (simp add: start_threads_def)
qed

lemma demo_disk: "disk demo_start ''t/0'' @ pending (w_os demo_start) ''t/0'' [demo_pushed] = [1, 0, 0, 0]"
  by (simp add: demo_start_def disk_def queued_def demo_queue_def q_content_def q_span_def demo_pushed_def load_with_def
      file_bytes_def demo_os_def task_bytes_def demo_buf_def fd_path_def demo_ctx_def blk_bytes_def numeral_eq_Suc)

theorem queue_threads_invariant_witness:
  "\<exists>t. reaches 1 (start_threads demo_start) [Begin, Run, Run, Queue demo_pushed] t
    \<and> p_holds (th_prod t 0) \<and> \<not> w_holds (th_work t) \<and> disk (th_w t) ''t/0'' = [1, 0, 0, 0]"
proof -
  obtain t where t: "reaches 1 (start_threads demo_start) [Begin, Run, Run, Queue demo_pushed] t" "th_prod t 0 = P_Notify"
    using demo_threads_run by blast
  have h: "p_holds (th_prod t 0)" using t(2) by simp
  show ?thesis
    using h t(1) queue_threads_invariant [OF demo_started(1) t(1), of "''t/0''"] demo_disk by (intro exI [of _ t]) (auto simp: queued_by_def)
qed


theorem stop_misses_wakeup_witness:
  "\<exists>t. reaches 1 (start_threads demo_start) [Run, Run, Run, Run, Stop, Run, Run] t \<and> th_stop t = S_Join \<and> th_work t = W_Wait
    \<and> (\<forall>l u. step 1 l t u \<longrightarrow> l = Spurious \<or> l = Begin)"
  using stop_misses_wakeup [OF demo_started] by blast

end
