(* ===== verification/San_Report.thy ===== *)
theory San_Report
  imports San_Libc
begin

text \<open>
  The rest of \<^verbatim>\<open>sanitizer_printf.cc\<close>: \<^verbatim>\<open>Printf\<close> and \<^verbatim>\<open>Report\<close>, which format a message into a small buffer and,
  if it does not fit, into a large one, and the growing strings of the runtime. The message that
  goes to the log has its escape sequences removed in place (\<^verbatim>\<open>sanitizer_common.cc\<close>).
\<close>

section \<open>Escape sequences\<close>

definition ESC :: char where "ESC = CHR 0x1B"

function strip_loop :: "string \<Rightarrow> nat \<Rightarrow> nat \<Rightarrow> (string \<times> nat) res" where
  "strip_loop str s z =
     (if length str \<le> s then Inl ObjectOverread
      else if str ! s = NUL then Inr (str, z)
      else rbind (check (z \<le> s)) (\<lambda>_.
        if str ! s = ESC \<and> length str \<le> Suc s then Inl ObjectOverread
        else if str ! s = ESC \<and> str ! Suc s = CHR ''['' then
          rbind (internal_strchrnul (drop s str) (CHR ''m'')) (\<lambda>k.
            if length str \<le> s + k then Inl ObjectOverread
            else if str ! (s + k) = NUL then Inr (str, z)
            else strip_loop str (Suc (s + k)) z)
        else strip_loop (if s \<noteq> z then str[z := str ! s] else str) (Suc s) (Suc z)))"
  by pat_completeness auto
termination
  by (relation "measure (\<lambda>(str, s, z). length str - s)") auto

declare strip_loop.simps [simp del]

definition RemoveANSIEscapeSequencesFromString :: "string \<Rightarrow> string res" where
  "RemoveANSIEscapeSequencesFromString str = rbind (strip_loop str 0 0) (\<lambda>(str, z). Inr (str[z := NUL]))"

section \<open>Printing\<close>

text \<open>What a message depends on besides its format: the name and the id of the process.\<close>

record printer =
  log_exe_name :: bool
  exe_name :: "string option"
  printer_pid :: int

definition kLen :: nat where "kLen = 16 * 1024"

text \<open>
  The pieces of a message in the order they are printed. Each is printed behind the ones before it,
  and the attempt is given up as soon as they do not fit.
\<close>

definition message_parts :: "printer \<Rightarrow> bool \<Rightarrow> string \<Rightarrow> varg list \<Rightarrow> (string \<times> varg list) list" where
  "message_parts e append_pid format args =
     (if append_pid
      then (if log_exe_name e \<and> exe_name e \<noteq> None then [(''==%s'', [VStr (exe_name e)])] else []) @ [(''==%d=='', [VInt (printer_pid e)])]
      else []) @ [(format, args)]"

fun print_parts :: "nat \<Rightarrow> string \<Rightarrow> nat \<Rightarrow> (string \<times> varg list) list \<Rightarrow> string option res" where
  "print_parts buffer_size buffer needed_length [] = Inr (Some buffer)"
| "print_parts buffer_size buffer needed_length ((format, args) # ps) =
     rbind (VSNPrintf (int buffer_size - int needed_length) format args) (\<lambda>(out, n).
       if needed_length + n \<ge> buffer_size then Inr None
       else print_parts buffer_size (take needed_length buffer @ out) (needed_length + n) ps)"

text \<open>
  What is written to the standard error stream, and the text without colours that is handed to the
  callback and to \<^verbatim>\<open>LogMessageOnPrintf\<close>, which writes it out only if the runtime is set to log.
\<close>

definition print_buffer :: "string \<Rightarrow> (string \<times> string) res" where
  "print_buffer buffer =
     rbind (RemoveANSIEscapeSequencesFromString (buffer @ [NUL])) (\<lambda>b. Inr (cstr (buffer @ [NUL]), cstr b))"

definition SharedPrintfCodeNoBuffer :: "printer \<Rightarrow> bool \<Rightarrow> nat \<Rightarrow> string \<Rightarrow> varg list \<Rightarrow> (string \<times> string) res" where
  "SharedPrintfCodeNoBuffer e append_pid buffer_size format args =
     (let ps = message_parts e append_pid format args
      in rbind (print_parts buffer_size [] 0 ps) (\<lambda>r. case r of
           Some buffer \<Rightarrow> print_buffer buffer
         | None \<Rightarrow> rbind (print_parts kLen [] 0 ps) (\<lambda>r. case r of
             Some buffer \<Rightarrow> print_buffer buffer | None \<Rightarrow> Inl DieCalled)))"

definition SharedPrintfCode :: "printer \<Rightarrow> bool \<Rightarrow> string \<Rightarrow> varg list \<Rightarrow> (string \<times> string) res" where
  "SharedPrintfCode e append_pid format args = SharedPrintfCodeNoBuffer e append_pid 400 format args"

definition Printf :: "printer \<Rightarrow> string \<Rightarrow> varg list \<Rightarrow> (string \<times> string) res" where
  "Printf e format args = SharedPrintfCode e False format args"

definition Report :: "printer \<Rightarrow> string \<Rightarrow> varg list \<Rightarrow> (string \<times> string) res" where
  "Report e format args = SharedPrintfCode e True format args"

section \<open>Growing strings\<close>

record InternalScopedString =
  ss_data :: string
  ss_length :: nat

definition ScopedString :: "nat \<Rightarrow> InternalScopedString res" where
  "ScopedString max_length = rbind (check (0 < max_length)) (\<lambda>_. Inr \<lparr>ss_data = NUL # replicate (max_length - 1) NUL, ss_length = 0\<rparr>)"

definition ss_clear :: "InternalScopedString \<Rightarrow> InternalScopedString res" where
  "ss_clear s = rbind (check (0 < length (ss_data s))) (\<lambda>_. Inr (s\<lparr>ss_data := (ss_data s)[0 := NUL], ss_length := 0\<rparr>))"

definition ss_append :: "string \<Rightarrow> varg list \<Rightarrow> InternalScopedString \<Rightarrow> InternalScopedString res" where
  "ss_append format args s =
     (let n = ss_length s; d = ss_data s in
      rbind (check (n < length d)) (\<lambda>_.
      rbind (VSNPrintf (int (length d) - int n) format args) (\<lambda>(out, _).
      let d' = take n d @ out @ NUL # drop (n + length out + 1) d in
      rbind (internal_strlen (drop n d')) (\<lambda>k.
      rbind (check (n + k < length d')) (\<lambda>_. Inr (s\<lparr>ss_data := d', ss_length := n + k\<rparr>))))))"

section \<open>Removing escape sequences\<close>

text \<open>The text without its escape sequences: each from its introducer to the next \<^verbatim>\<open>m\<close>.\<close>

function ansi_strip :: "string \<Rightarrow> string" where
  "ansi_strip [] = []"
| "ansi_strip (c # cs) =
     (if c = ESC \<and> cs \<noteq> [] \<and> hd cs = CHR ''['' then
        (case dropWhile (\<lambda>x. x \<noteq> CHR ''m'') cs of [] \<Rightarrow> [] | _ # r \<Rightarrow> ansi_strip r)
      else c # ansi_strip cs)"
  by pat_completeness auto
termination
proof (relation "measure length", goal_cases)
  case (2 c cs x r)
  then have "length (x # r) \<le> length cs" by (metis length_dropWhile_le)
  then show ?case by simp
qed simp_all

lemma strchrnul_eq:
  "terminated s \<Longrightarrow> c \<noteq> NUL \<Longrightarrow> internal_strchrnul s c = Inr (length (takeWhile (\<lambda>x. x \<noteq> c) (cstr s)))"
proof -
  assume t: "terminated s" "c \<noteq> NUL"
  then have "internal_strchr s c = Inr (if c \<in> set (cstr s) then Some (length (takeWhile (\<lambda>x. x \<noteq> c) (cstr s))) else None)"
    by (induction s) auto
  moreover have "length (takeWhile (\<lambda>x. x \<noteq> c) (cstr s)) = length (cstr s)" if "c \<notin> set (cstr s)"
    using that by (metis (mono_tags, lifting) takeWhile_eq_all_conv)
  ultimately show ?thesis using t by (simp add: internal_strchrnul_def strlen_eq)
qed

lemma cstr_drop: "k \<le> length (cstr s) \<Longrightarrow> cstr (drop k s) = drop k (cstr s)"
proof (induction s arbitrary: k)
  case (Cons c s)
  then show ?case by (cases k) (auto split: if_splits)
qed simp

lemma terminated_drop: "terminated s \<Longrightarrow> k \<le> length (cstr s) \<Longrightarrow> terminated (drop k s)"
proof (induction s arbitrary: k)
  case (Cons c s)
  then show ?case by (cases k) (auto split: if_splits)
qed simp

lemma ansi_strip_seq:
  assumes "c = ESC" "cs \<noteq> []" "hd cs = CHR ''[''"
  shows "ansi_strip (c # cs) =
    (let k = length (takeWhile (\<lambda>x. x \<noteq> CHR ''m'') (c # cs)) in if k = length (c # cs) then [] else ansi_strip (drop (Suc k) (c # cs)))"
proof -
  let ?P = "\<lambda>x. x \<noteq> CHR ''m''"
  have d: "dropWhile ?P cs = drop (length (takeWhile ?P cs)) cs" by (simp add: dropWhile_eq_drop)
  have le: "length (takeWhile ?P cs) \<le> length cs" by (rule length_takeWhile_le)
  show ?thesis
  proof (cases "dropWhile ?P cs")
    case Nil
    then have "length (takeWhile ?P cs) = length cs" using d le by simp
    then show ?thesis using assms Nil by (simp add: ESC_def del: dropWhile_eq_Nil_conv)
  next
    case (Cons x r)
    then have e: "drop (length (takeWhile ?P cs)) cs = x # r" using d by simp
    then have "length (takeWhile ?P cs) < length cs" by (metis drop_all list.distinct(1) not_le)
    moreover have "r = drop (Suc (length (takeWhile ?P cs))) cs" using e by (metis drop_Suc list.sel(3) tl_drop)
    ultimately show ?thesis using assms Cons by (simp add: ESC_def)
  qed
qed

lemma strip_loop_correct:
  "terminated (drop s str) \<Longrightarrow> z \<le> s \<Longrightarrow>
   \<exists>str' z'. strip_loop str s z = Inr (str', z') \<and> length str' = length str \<and> z' < length str
     \<and> take z' str' = take z str @ ansi_strip (cstr (drop s str))"
proof (induction str s z rule: strip_loop.induct)
  case (1 str s z)
  then have s: "s < length str" by (metis drop_all not_le terminated_simps(1))
  then have d: "drop s str = str ! s # drop (Suc s) str" by (simp add: Cons_nth_drop_Suc)
  note simps = strip_loop.simps [of str s z]
  consider (nul) "str ! s = NUL" | (seq) "str ! s \<noteq> NUL" "str ! s = ESC" "Suc s < length str" "str ! Suc s = CHR ''[''"
    | (keep) "str ! s \<noteq> NUL" "str ! s = ESC \<Longrightarrow> Suc s < length str" "\<not> (str ! s = ESC \<and> str ! Suc s = CHR ''['')"
    using 1(3) d by (metis drop_all not_le_imp_less terminated_simps)
  then show ?case
  proof cases
    case nul
    then show ?thesis using simps s 1(4) d by simp
  next
    case seq
    let ?c = "cstr (drop s str)" and ?k = "length (takeWhile (\<lambda>x. x \<noteq> CHR ''m'') (cstr (drop s str)))"
    have c: "?c = ESC # cstr (drop (Suc s) str)" "cstr (drop (Suc s) str) \<noteq> []" "hd (cstr (drop (Suc s) str)) = CHR ''[''"
      using seq d by (simp_all add: Cons_nth_drop_Suc [symmetric])
    have k: "internal_strchrnul (drop s str) (CHR ''m'') = Inr ?k" using 1(3) by (simp add: strchrnul_eq)
    have le: "?k \<le> length ?c" by (rule length_takeWhile_le)
    have lt: "s + ?k < length str" using le length_cstr_less [OF 1(3)] by simp
    have e: "ansi_strip ?c = (if ?k = length ?c then [] else ansi_strip (drop (Suc ?k) ?c))"
      using ansi_strip_seq [OF refl c(2,3)] unfolding c(1) Let_def .
    have at: "cstr (drop (s + ?k) str) = drop ?k ?c" "terminated (drop (s + ?k) str)"
      using cstr_drop [OF le] terminated_drop [OF 1(3) le] by (simp_all add: add.commute)
    have d': "drop (s + ?k) str = str ! (s + ?k) # drop (Suc (s + ?k)) str" using lt by (simp add: Cons_nth_drop_Suc)
    show ?thesis
    proof (cases "str ! (s + ?k) = NUL")
      case True
      then have "drop ?k ?c = []" using at(1) d' by simp
      then have "?k = length ?c" using le by simp
      then show ?thesis using simps s seq k lt True 1(4) e by simp
    next
      case False
      then have "cstr (drop (Suc (s + ?k)) str) = drop (Suc ?k) ?c" "terminated (drop (Suc (s + ?k)) str)" "?k < length ?c"
        using at d' le by (auto simp: drop_Suc tl_drop intro: le_neq_implies_less) (metis drop_Suc list.sel(3) tl_drop)
      then show ?thesis using simps s seq k lt False 1(1) [of ?k] 1(4) e by simp
    qed
  next
    case keep
    let ?str = "if s \<noteq> z then str[z := str ! s] else str"
    have t: "drop (Suc s) ?str = drop (Suc s) str" "terminated (drop (Suc s) str)" "take (Suc z) ?str = take z str @ [str ! s]"
      using 1(3,4) keep(1) d s by (auto simp: take_Suc_conv_app_nth)
    have e: "ansi_strip (cstr (drop s str)) = str ! s # ansi_strip (cstr (drop (Suc s) str))"
      using keep d by (auto simp: Cons_nth_drop_Suc [symmetric])
    have "strip_loop str s z = strip_loop ?str (Suc s) (Suc z)" using simps s keep 1(4) by (auto simp: not_le)
    then show ?thesis using 1(2) s keep 1(4) t e by (auto simp: not_le)
  qed
qed

lemma strip_correct:
  assumes "terminated str"
  shows "\<exists>str'. RemoveANSIEscapeSequencesFromString str = Inr str' \<and> length str' = length str \<and> terminated str' \<and> cstr str' = ansi_strip (cstr str)"
proof -
  obtain b z where b: "strip_loop str 0 0 = Inr (b, z)" "length b = length str" "z < length str" "take z b = ansi_strip (cstr str)"
    using strip_loop_correct [of 0 str 0] assms by auto
  have sub: "set (ansi_strip s) \<subseteq> set s" for s
  proof (induction s rule: ansi_strip.induct)
    case (2 c cs)
    then show ?case by (auto split: list.splits dest: set_dropWhileD) (metis list.set_intros(2) set_dropWhileD subsetD)
  qed simp
  have "NUL \<notin> set (take z b)" using b(4) sub [of "cstr str"] by auto
  moreover have "b[z := NUL] = take z b @ NUL # drop (Suc z) b" using b(2,3) by (simp add: upd_conv_take_nth_drop)
  ultimately have "cstr (b[z := NUL]) = ansi_strip (cstr str)" "terminated (b[z := NUL])" using b(4) by (simp_all add: terminated_def)
  moreover have "length (b[z := NUL]) = length str" using b(2) by simp
  ultimately show ?thesis using b(1) by (simp add: RemoveANSIEscapeSequencesFromString_def)
qed

section \<open>Messages\<close>

text \<open>The text of a message.\<close>

fun parts_text :: "(string \<times> varg list) list \<Rightarrow> string res" where
  "parts_text [] = Inr []"
| "parts_text ((format, args) # ps) = rbind (render format args) (\<lambda>s. rbind (parts_text ps) (\<lambda>r. Inr (s @ r)))"

definition message_text :: "printer \<Rightarrow> bool \<Rightarrow> string \<Rightarrow> varg list \<Rightarrow> string res" where
  "message_text e append_pid format args = parts_text (message_parts e append_pid format args)"

lemma print_parts_text:
  assumes "parts_text ps = Inr s" "length buf = n" "n < sz"
  shows "print_parts sz buf n ps = Inr (if n + length s < sz then Some (buf @ s) else None)"
  using assms
proof (induction ps arbitrary: s buf n)
  case (Cons p ps)
  obtain fmt args where p: "p = (fmt, args)" by fastforce
  obtain a r where ar: "render fmt args = Inr a" "parts_text ps = Inr r" "s = a @ r" using Cons.prems(1) p by auto
  have "VSNPrintf (int (sz - n)) fmt args = Inr (take (sz - n - 1) a, length a)"
    using VSNPrintf_render [of "sz - n" fmt args] Cons.prems(3) ar(1) by simp
  then have v: "VSNPrintf (int sz - int n) fmt args = Inr (take (sz - n - 1) a, length a)" using Cons.prems(3) by (simp add: of_nat_diff)
  show ?case
  proof (cases "sz \<le> n + length a")
    case False
    then have "take (sz - n - 1) a = a" by simp
    then show ?thesis using v p False ar(3) Cons.IH [OF ar(2), of "buf @ a" "n + length a"] Cons.prems(2) by simp
  qed (use v p ar(3) in simp)
qed simp

lemma print_buffer_text: "print_buffer s = Inr (cstr s, ansi_strip (cstr s))"
proof -
  have "cstr (s @ [NUL]) = cstr s" by (induction s) auto
  then show ?thesis using strip_correct [of "s @ [NUL]"] by (auto simp: print_buffer_def)
qed

lemma shared_printf_text:
  assumes "message_text e append_pid format args = Inr s" "0 < sz" "sz \<le> kLen"
  shows "SharedPrintfCodeNoBuffer e append_pid sz format args = (if length s < kLen then Inr (cstr s, ansi_strip (cstr s)) else Inl DieCalled)"
  using print_parts_text [OF assms(1) [unfolded message_text_def], of "[]" 0 sz]
    print_parts_text [OF assms(1) [unfolded message_text_def], of "[]" 0 kLen] assms(2,3)
  by (simp add: SharedPrintfCodeNoBuffer_def Let_def print_buffer_text)

section \<open>Growing strings keep what fits\<close>

definition ss_ok :: "InternalScopedString \<Rightarrow> bool" where
  "ss_ok s \<longleftrightarrow> terminated (ss_data s) \<and> length (cstr (ss_data s)) = ss_length s"

definition ss_text :: "InternalScopedString \<Rightarrow> string" where
  "ss_text s = cstr (ss_data s)"

lemma ScopedString_ok: "0 < n \<Longrightarrow> \<exists>s. ScopedString n = Inr s \<and> ss_ok s \<and> ss_text s = [] \<and> length (ss_data s) = n"
  by (simp add: ScopedString_def ss_ok_def ss_text_def)

lemma ss_clear_ok: "ss_ok s \<Longrightarrow> \<exists>s'. ss_clear s = Inr s' \<and> ss_ok s' \<and> ss_text s' = [] \<and> length (ss_data s') = length (ss_data s)"
  by (cases "ss_data s") (simp_all add: ss_clear_def ss_ok_def ss_text_def)

lemma ss_append_text:
  assumes "ss_ok s" "render format args = Inr r" "NUL \<notin> set r"
  shows "\<exists>s'. ss_append format args s = Inr s' \<and> ss_ok s' \<and> length (ss_data s') = length (ss_data s)
    \<and> ss_text s' = take (length (ss_data s) - 1) (ss_text s @ r)"
proof -
  let ?n = "ss_length s" and ?d = "ss_data s"
  define ot where "ot = take (length ?d - ?n - 1) r"
  have n: "?n < length ?d" "take ?n ?d = cstr ?d" "length (cstr ?d) = ?n"
    using assms(1) length_cstr_less [of ?d] terminated_split [of ?d] by (auto simp: ss_ok_def) (metis append_eq_conv_conj)
  have "VSNPrintf (int (length ?d - ?n)) format args = Inr (ot, length r)"
    using VSNPrintf_render [of "length ?d - ?n" format args] n(1) assms(2) by (simp add: ot_def)
  then have v: "VSNPrintf (int (length ?d) - int ?n) format args = Inr (ot, length r)" using n(1) by (simp add: of_nat_diff)
  let ?d' = "take ?n ?d @ ot @ NUL # drop (?n + length ot + 1) ?d"
  have lo: "?n + length ot < length ?d" "NUL \<notin> set ot" using n(1) assms(3) by (auto simp: ot_def dest: in_set_takeD)
  have c: "drop ?n ?d' = ot @ NUL # drop (?n + length ot + 1) ?d" "length ?d' = length ?d" using n lo by simp_all
  have "internal_strlen (drop ?n ?d') = Inr (length ot)" using lo(2) unfolding c(1) strlen_eq by simp
  then have a: "ss_append format args s = Inr (s\<lparr>ss_data := ?d', ss_length := ?n + length ot\<rparr>)"
    using v n(1) lo(1) c(2) by (simp add: ss_append_def Let_def)
  have t: "cstr ?d' = cstr ?d @ ot" using n lo(2) by simp
  have "take (length ?d - 1) (cstr ?d @ r) = cstr ?d @ ot" using n by (simp add: ot_def)
  then show ?thesis using a t c(2) n by (intro exI [of _ "s\<lparr>ss_data := ?d', ss_length := ?n + length ot\<rparr>"]) (simp add: ss_ok_def ss_text_def)
qed

section \<open>Properties\<close>

text \<open>
  C31. A message reaches the error stream whole: whatever its length below 16 KB, and with whatever
  is put in front of it, \<^verbatim>\<open>Printf\<close> and \<^verbatim>\<open>Report\<close> print the text the format denotes, and log the same
  text with its escape sequences removed in place. A longer message ends the program.
\<close>

theorem printf_prints_all:
  assumes "message_text e append_pid format args = Inr s"
  shows "SharedPrintfCode e append_pid format args = (if length s < 16384 then Inr (cstr s, ansi_strip (cstr s)) else Inl DieCalled)"
  using shared_printf_text [OF assms, of 400] by (simp add: SharedPrintfCode_def kLen_def)

definition demo_printer :: printer where
  "demo_printer = \<lparr>log_exe_name = True, exe_name = Some ''a'', printer_pid = 7\<rparr>"

theorem printf_prints_all_witness:
  "SharedPrintfCode demo_printer True (''x'' @ [ESC] @ ''[1m%d'') [VInt 5] = Inr (''==a==7==x'' @ [ESC] @ ''[1m5'', ''==a==7==x5'')"
proof -
  have "message_text demo_printer True (''x'' @ [ESC] @ ''[1m%d'') [VInt 5] = Inr (''==a==7==x'' @ [ESC] @ ''[1m5'')" by code_simp
  from printf_prints_all [OF this] show ?thesis by (simp add: ESC_def)
qed

end
