(* ===== verification/San_BitVector.thy ===== *)
theory San_BitVector
  imports Ufo_Loop
begin

text \<open>
  The bit vectors of the sanitizer runtime (\<^verbatim>\<open>sanitizer_bitvector.h\<close>): one machine word, and the
  two-level vector in which a bit of the first level says that the word below it is in use. The
  locale \<open>bitvector\<close> is what their users rely on: a finite set of numbers below \<^verbatim>\<open>kSize\<close>.
\<close>

section \<open>Loops\<close>

lemma rbind_cong [fundef_cong]:
  "m = m' \<Longrightarrow> (\<And>x. m' = Inr x \<Longrightarrow> f x = g x) \<Longrightarrow> rbind m f = rbind m' g"
  by (cases m') simp_all

text \<open>A counting loop, and one that ends as soon as its body says so.\<close>

fun rfold :: "('i \<Rightarrow> 's \<Rightarrow> 's res) \<Rightarrow> 'i list \<Rightarrow> 's \<Rightarrow> 's res" where
  "rfold f [] s = Inr s"
| "rfold f (i # is) s = rbind (f i s) (rfold f is)"

fun rany :: "('i \<Rightarrow> bool res) \<Rightarrow> 'i list \<Rightarrow> bool res" where
  "rany f [] = Inr False"
| "rany f (i # is) = rbind (f i) (\<lambda>b. if b then Inr True else rany f is)"

section \<open>One word\<close>

text \<open>\<^verbatim>\<open>BasicBitVector<uptr>\<close>, with \<^verbatim>\<open>kSize\<close> = 64. A member that returns a Boolean gives it with the new vector.\<close>

type_synonym bbv = u64

definition bbv_kSize :: nat where "bbv_kSize = 64"

definition one_at :: "nat \<Rightarrow> u64" where
  "one_at idx = push_bit idx 1"

definition bbv_mask :: "nat \<Rightarrow> u64 res" where
  "bbv_mask idx = rbind (check (idx < bbv_kSize)) (\<lambda>_. Inr (one_at idx))"

definition bbv_clear :: "bbv \<Rightarrow> bbv" where
  "bbv_clear b = 0"

definition bbv_setAll :: "bbv \<Rightarrow> bbv" where
  "bbv_setAll b = NOT 0"

definition bbv_empty :: "bbv \<Rightarrow> bool" where
  "bbv_empty b \<longleftrightarrow> b = 0"

definition bbv_setBit :: "nat \<Rightarrow> bbv \<Rightarrow> (bool \<times> bbv) res" where
  "bbv_setBit idx b = rbind (bbv_mask idx) (\<lambda>m. let b' = b OR m in Inr (b' \<noteq> b, b'))"

definition bbv_clearBit :: "nat \<Rightarrow> bbv \<Rightarrow> (bool \<times> bbv) res" where
  "bbv_clearBit idx b = rbind (bbv_mask idx) (\<lambda>m. let b' = b AND NOT m in Inr (b' \<noteq> b, b'))"

definition bbv_getBit :: "nat \<Rightarrow> bbv \<Rightarrow> bool res" where
  "bbv_getBit idx b = rbind (bbv_mask idx) (\<lambda>m. Inr (b AND m \<noteq> 0))"

text \<open>The set bits in ascending order; the first is what \<^verbatim>\<open>__builtin_ctzl\<close> counts to.\<close>

definition ones :: "u64 \<Rightarrow> nat list" where
  "ones x = filter (bit x) [0..<64]"

definition LeastSignificantSetBitIndex :: "u64 \<Rightarrow> nat res" where
  "LeastSignificantSetBitIndex x = rbind (check (x \<noteq> 0)) (\<lambda>_. Inr (hd (ones x)))"

definition bbv_getAndClearFirstOne :: "bbv \<Rightarrow> (nat \<times> bbv) res" where
  "bbv_getAndClearFirstOne b =
     rbind (check (\<not> bbv_empty b)) (\<lambda>_.
     rbind (LeastSignificantSetBitIndex b) (\<lambda>idx.
     rbind (bbv_clearBit idx b) (\<lambda>(_, b). Inr (idx, b))))"

definition bbv_setUnion :: "bbv \<Rightarrow> bbv \<Rightarrow> bool \<times> bbv" where
  "bbv_setUnion v b = (let b' = b OR v in (b' \<noteq> b, b'))"

definition bbv_setIntersection :: "bbv \<Rightarrow> bbv \<Rightarrow> bool \<times> bbv" where
  "bbv_setIntersection v b = (let b' = b AND v in (b' \<noteq> b, b'))"

definition bbv_setDifference :: "bbv \<Rightarrow> bbv \<Rightarrow> bool \<times> bbv" where
  "bbv_setDifference v b = (let b' = b AND NOT v in (b' \<noteq> b, b'))"

definition bbv_copyFrom :: "bbv \<Rightarrow> bbv \<Rightarrow> bbv" where
  "bbv_copyFrom v b = v"

definition bbv_intersectsWith :: "bbv \<Rightarrow> bbv \<Rightarrow> bool" where
  "bbv_intersectsWith v b \<longleftrightarrow> b AND v \<noteq> 0"

text \<open>An iterator holds a copy of the vector and takes its bits away.\<close>

definition bit_iter :: "bbv \<Rightarrow> bbv" where
  "bit_iter bv = bv"

definition bit_hasNext :: "bbv \<Rightarrow> bool" where
  "bit_hasNext it \<longleftrightarrow> \<not> bbv_empty it"

definition bit_next :: "bbv \<Rightarrow> (nat \<times> bbv) res" where
  "bit_next it = bbv_getAndClearFirstOne it"

subsection \<open>Its bits\<close>

lemma bit_64D: "bit (w :: u64) i \<Longrightarrow> i < 64"
  using bit_imp_le_length [of w i] by simp

lemma u64_eqI: "(\<And>i. i < 64 \<Longrightarrow> bit v i = bit (w :: u64) i) \<Longrightarrow> v = w"
  by (rule bit_word_eqI) simp

lemma u64_eq_0: "(w :: u64) = 0 \<longleftrightarrow> (\<forall>i. \<not> bit w i)"
  by (auto intro: u64_eqI)

lemma bit_one_at [simp]: "bit (one_at i) j \<longleftrightarrow> j = i \<and> i < 64"
  unfolding one_at_def by (subst bit_push_bit_iff) (auto simp: bit_1_iff)

lemma set_ones [simp]: "set (ones w) = {i. bit w i}"
  by (auto simp: ones_def dest: bit_64D)

lemma sorted_ones: "sorted_wrt (<) (ones w)"
  unfolding ones_def by (intro sorted_wrt_filter sorted_wrt_upt)

lemma ones_Nil [simp]: "ones w = [] \<longleftrightarrow> w = 0"
  unfolding set_empty [symmetric] set_ones u64_eq_0 by blast

lemma ones_unique: "sorted_wrt (<) xs \<Longrightarrow> set xs = {i. bit w i} \<Longrightarrow> xs = ones w"
  by (rule strict_sorted_equal) (simp_all add: sorted_ones)

lemma bit_clear_one: "bit (w AND NOT (one_at i)) j \<longleftrightarrow> bit w j \<and> j \<noteq> i"
  by (auto simp: bit_and_iff bit_not_iff dest: bit_64D)

lemma bit_set_one: "i < 64 \<Longrightarrow> bit (w OR one_at i) j \<longleftrightarrow> bit w j \<or> j = i"
  by (auto simp: bit_or_iff)

lemma ones_clear_first:
  assumes "ones w = i # is"
  shows "ones (w AND NOT (one_at i)) = is"
proof -
  have s: "sorted_wrt (<) (i # is)" "set (i # is) = {j. bit w j}" using sorted_ones [of w] set_ones [of w] assms by simp_all
  then have "set is = {j. bit (w AND NOT (one_at i)) j}" unfolding bit_clear_one by auto
  moreover have "sorted_wrt (<) is" using s(1) by simp
  ultimately show ?thesis using ones_unique by metis
qed

lemma bbv_mask_eq: "i < 64 \<Longrightarrow> bbv_mask i = Inr (one_at i)"
  by (simp add: bbv_mask_def bbv_kSize_def)

lemma bbv_getBit_eq: "i < 64 \<Longrightarrow> bbv_getBit i b = Inr (bit b i)"
  by (auto simp: bbv_getBit_def bbv_mask_eq u64_eq_0 bit_and_iff)

lemma bbv_setBit_eq: "i < 64 \<Longrightarrow> bbv_setBit i b = Inr (\<not> bit b i, b OR one_at i)"
proof -
  assume i: "i < 64"
  have "b OR one_at i = b \<longleftrightarrow> bit b i" using bit_set_one [OF i, of b] by (metis u64_eqI)
  then show ?thesis using i by (simp add: bbv_setBit_def bbv_mask_eq)
qed

lemma bbv_clearBit_eq: "i < 64 \<Longrightarrow> bbv_clearBit i b = Inr (bit b i, b AND NOT (one_at i))"
proof -
  assume i: "i < 64"
  have "b AND NOT (one_at i) = b \<longleftrightarrow> \<not> bit b i" using bit_clear_one [of b i] by (metis u64_eqI)
  then show ?thesis using i by (simp add: bbv_clearBit_def bbv_mask_eq)
qed

lemma ones_ConsD: "ones b = i # is \<Longrightarrow> bit b i \<and> i < 64 \<and> b \<noteq> 0"
  by (metis bit_64D list.set_intros(1) list.simps(3) mem_Collect_eq ones_Nil set_ones)

lemma bbv_first_eq:
  assumes "ones b = i # is"
  shows "bbv_getAndClearFirstOne b = Inr (i, b AND NOT (one_at i))"
  using ones_ConsD [OF assms] assms
  by (simp add: bbv_getAndClearFirstOne_def bbv_empty_def LeastSignificantSetBitIndex_def bbv_clearBit_eq)

lemma bbv_first_cases:
  assumes "bbv_getAndClearFirstOne b = Inr (i, b')"
  shows "ones b = i # ones b'"
proof (cases "ones b")
  case Nil
  then show ?thesis using assms by (simp add: bbv_getAndClearFirstOne_def bbv_empty_def)
next
  case (Cons j js)
  then show ?thesis using assms bbv_first_eq [OF Cons] ones_clear_first [OF Cons] by auto
qed

text \<open>The loop over the set bits of a word: \<^verbatim>\<open>while (!t.empty()) { i = t.getAndClearFirstOne(); ... }\<close>.\<close>

function each_one :: "(nat \<Rightarrow> 's \<Rightarrow> 's res) \<Rightarrow> bbv \<Rightarrow> 's \<Rightarrow> 's res" where
  "each_one f t s =
     (if bbv_empty t then Inr s
      else rbind (bbv_getAndClearFirstOne t) (\<lambda>(i, t). rbind (f i s) (\<lambda>s. each_one f t s)))"
  by pat_completeness auto
termination
  by (relation "measure (\<lambda>(f, t, s). length (ones t))") (auto dest: bbv_first_cases)

declare each_one.simps [simp del]

function any_one :: "(nat \<Rightarrow> bool res) \<Rightarrow> bbv \<Rightarrow> bool res" where
  "any_one f t =
     (if bbv_empty t then Inr False
      else rbind (bbv_getAndClearFirstOne t) (\<lambda>(i, t). rbind (f i) (\<lambda>b. if b then Inr True else any_one f t)))"
  by pat_completeness auto
termination
  by (relation "measure (\<lambda>(f, t). length (ones t))") (auto dest: bbv_first_cases)

declare any_one.simps [simp del]

lemma each_one_rfold: "each_one f t s = rfold f (ones t) s"
proof (induction "ones t" arbitrary: t s)
  case Nil
  then have "t = 0" by (metis ones_Nil)
  then show ?case using Nil by (subst each_one.simps) (simp add: bbv_empty_def)
next
  case (Cons i js)
  from Cons.hyps(2) have c: "ones t = i # js" by simp
  have "js = ones (t AND NOT (one_at i))" using ones_clear_first [OF c] by simp
  then show ?case
    using Cons.hyps(1) c bbv_first_eq [OF c] ones_ConsD [OF c]
    by (subst each_one.simps) (auto simp: bbv_empty_def intro!: rbind_cong)
qed

lemma any_one_rany: "any_one f t = rany f (ones t)"
proof (induction "ones t" arbitrary: t)
  case Nil
  then have "t = 0" by (metis ones_Nil)
  then show ?case using Nil by (subst any_one.simps) (simp add: bbv_empty_def)
next
  case (Cons i js)
  from Cons.hyps(2) have c: "ones t = i # js" by simp
  have "js = ones (t AND NOT (one_at i))" using ones_clear_first [OF c] by simp
  then show ?case
    using Cons.hyps(1) c bbv_first_eq [OF c] ones_ConsD [OF c]
    by (subst any_one.simps) (auto simp: bbv_empty_def intro!: rbind_cong)
qed

section \<open>Two levels\<close>

text \<open>
  \<^verbatim>\<open>TwoLevelBitVector<kLevel1Size, BasicBitVector<> >\<close>; \<^verbatim>\<open>kLevel1Size\<close> is the length of the arrays.
  An index is checked with \<^verbatim>\<open>CHECK_LE\<close>, so that the accesses to the arrays have a check of their own.
\<close>

record TwoLevelBitVector =
  tl_l1 :: "u64 list"
  tl_l2 :: "u64 list list"

definition kLevel1Size :: "TwoLevelBitVector \<Rightarrow> nat" where
  "kLevel1Size t = length (tl_l1 t)"

definition tl_size :: "TwoLevelBitVector \<Rightarrow> nat" where
  "tl_size t = bbv_kSize * bbv_kSize * kLevel1Size t"

definition l1_at :: "TwoLevelBitVector \<Rightarrow> nat \<Rightarrow> u64 res" where
  "l1_at t i0 = (if i0 < length (tl_l1 t) then Inr (tl_l1 t ! i0) else Inl ObjectOverread)"

definition l2_at :: "TwoLevelBitVector \<Rightarrow> nat \<Rightarrow> nat \<Rightarrow> u64 res" where
  "l2_at t i0 i1 = (if i0 < length (tl_l2 t) \<and> i1 < length (tl_l2 t ! i0) then Inr (tl_l2 t ! i0 ! i1) else Inl ObjectOverread)"

definition set_l1 :: "nat \<Rightarrow> u64 \<Rightarrow> TwoLevelBitVector \<Rightarrow> TwoLevelBitVector res" where
  "set_l1 i0 w t = (if i0 < length (tl_l1 t) then Inr (t\<lparr>tl_l1 := (tl_l1 t)[i0 := w]\<rparr>) else Inl HeapOverflow)"

definition set_l2 :: "nat \<Rightarrow> nat \<Rightarrow> u64 \<Rightarrow> TwoLevelBitVector \<Rightarrow> TwoLevelBitVector res" where
  "set_l2 i0 i1 w t =
     (if i0 < length (tl_l2 t) \<and> i1 < length (tl_l2 t ! i0) then Inr (t\<lparr>tl_l2 := (tl_l2 t)[i0 := (tl_l2 t ! i0)[i1 := w]]\<rparr>) else Inl HeapOverflow)"

definition tl_clear :: "TwoLevelBitVector \<Rightarrow> TwoLevelBitVector" where
  "tl_clear t = t\<lparr>tl_l1 := map bbv_clear (tl_l1 t)\<rparr>"

definition tl_setAll :: "TwoLevelBitVector \<Rightarrow> TwoLevelBitVector" where
  "tl_setAll t = t\<lparr>tl_l1 := map bbv_setAll (tl_l1 t), tl_l2 := map (map bbv_setAll) (tl_l2 t)\<rparr>"

definition tl_empty :: "TwoLevelBitVector \<Rightarrow> bool" where
  "tl_empty t = list_all bbv_empty (tl_l1 t)"

definition tl_check :: "nat \<Rightarrow> TwoLevelBitVector \<Rightarrow> unit res" where
  "tl_check idx t = check (idx \<le> tl_size t)"

definition idx0 :: "nat \<Rightarrow> TwoLevelBitVector \<Rightarrow> nat res" where
  "idx0 idx t = (let r = idx div (bbv_kSize * bbv_kSize) in rbind (check (r \<le> kLevel1Size t)) (\<lambda>_. Inr r))"

definition idx1 :: "nat \<Rightarrow> nat res" where
  "idx1 idx = (let r = idx div bbv_kSize mod bbv_kSize in rbind (check (r \<le> bbv_kSize)) (\<lambda>_. Inr r))"

definition idx2 :: "nat \<Rightarrow> nat res" where
  "idx2 idx = (let r = idx mod bbv_kSize in rbind (check (r \<le> bbv_kSize)) (\<lambda>_. Inr r))"

definition tl_setBit :: "nat \<Rightarrow> TwoLevelBitVector \<Rightarrow> (bool \<times> TwoLevelBitVector) res" where
  "tl_setBit idx t =
     rbind (tl_check idx t) (\<lambda>_. rbind (idx0 idx t) (\<lambda>i0. rbind (idx1 idx) (\<lambda>i1. rbind (idx2 idx) (\<lambda>i2.
     rbind (l1_at t i0) (\<lambda>a. rbind (bbv_getBit i1 a) (\<lambda>g.
     rbind (if \<not> g then rbind (bbv_setBit i1 a) (\<lambda>(_, a). rbind (set_l1 i0 a t) (\<lambda>t.
                        rbind (l2_at t i0 i1) (\<lambda>b. set_l2 i0 i1 (bbv_clear b) t)))
            else Inr t) (\<lambda>t.
     rbind (l2_at t i0 i1) (\<lambda>b. rbind (bbv_setBit i2 b) (\<lambda>(res, b).
     rbind (set_l2 i0 i1 b t) (\<lambda>t. Inr (res, t)))))))))))"

definition tl_clearBit :: "nat \<Rightarrow> TwoLevelBitVector \<Rightarrow> (bool \<times> TwoLevelBitVector) res" where
  "tl_clearBit idx t =
     rbind (tl_check idx t) (\<lambda>_. rbind (idx0 idx t) (\<lambda>i0. rbind (idx1 idx) (\<lambda>i1. rbind (idx2 idx) (\<lambda>i2.
     rbind (l1_at t i0) (\<lambda>a. rbind (bbv_getBit i1 a) (\<lambda>g.
     if g then
       rbind (l2_at t i0 i1) (\<lambda>b. rbind (bbv_clearBit i2 b) (\<lambda>(res, b). rbind (set_l2 i0 i1 b t) (\<lambda>t.
       if bbv_empty b then rbind (bbv_clearBit i1 a) (\<lambda>(_, a). rbind (set_l1 i0 a t) (\<lambda>t. Inr (res, t))) else Inr (res, t))))
     else Inr (False, t)))))))"

definition tl_getBit :: "nat \<Rightarrow> TwoLevelBitVector \<Rightarrow> bool res" where
  "tl_getBit idx t =
     rbind (tl_check idx t) (\<lambda>_. rbind (idx0 idx t) (\<lambda>i0. rbind (idx1 idx) (\<lambda>i1. rbind (idx2 idx) (\<lambda>i2.
     rbind (l1_at t i0) (\<lambda>a. rbind (bbv_getBit i1 a) (\<lambda>g.
     if g then rbind (l2_at t i0 i1) (bbv_getBit i2) else Inr False))))))"

fun tl_first :: "nat list \<Rightarrow> TwoLevelBitVector \<Rightarrow> (nat \<times> TwoLevelBitVector) res" where
  "tl_first [] t = Inl CheckFailed"
| "tl_first (i0 # is) t =
     rbind (l1_at t i0) (\<lambda>a.
     if bbv_empty a then tl_first is t
     else rbind (bbv_getAndClearFirstOne a) (\<lambda>(i1, a). rbind (set_l1 i0 a t) (\<lambda>t.
       rbind (l2_at t i0 i1) (\<lambda>b. rbind (bbv_getAndClearFirstOne b) (\<lambda>(i2, b). rbind (set_l2 i0 i1 b t) (\<lambda>t.
       rbind (if \<not> bbv_empty b then rbind (bbv_setBit i1 a) (\<lambda>(_, a). set_l1 i0 a t) else Inr t) (\<lambda>t.
       Inr (i0 * bbv_kSize * bbv_kSize + i1 * bbv_kSize + i2, t))))))))"

definition tl_getAndClearFirstOne :: "TwoLevelBitVector \<Rightarrow> (nat \<times> TwoLevelBitVector) res" where
  "tl_getAndClearFirstOne t = tl_first [0..<kLevel1Size t] t"

definition union_at :: "TwoLevelBitVector \<Rightarrow> nat \<Rightarrow> nat \<Rightarrow> bool \<times> TwoLevelBitVector \<Rightarrow> (bool \<times> TwoLevelBitVector) res" where
  "union_at v i0 i1 = (\<lambda>(res, t).
     rbind (l1_at t i0) (\<lambda>a. rbind (bbv_setBit i1 a) (\<lambda>(new, a). rbind (set_l1 i0 a t) (\<lambda>t.
     rbind (l2_at t i0 i1) (\<lambda>b. rbind (if new then set_l2 i0 i1 (bbv_clear b) t else Inr t) (\<lambda>t.
     rbind (l2_at t i0 i1) (\<lambda>b. rbind (l2_at v i0 i1) (\<lambda>vb. let (ch, b) = bbv_setUnion vb b in
     rbind (set_l2 i0 i1 b t) (\<lambda>t. Inr (res \<or> ch, t))))))))))"

definition tl_setUnion :: "TwoLevelBitVector \<Rightarrow> TwoLevelBitVector \<Rightarrow> (bool \<times> TwoLevelBitVector) res" where
  "tl_setUnion v t =
     rfold (\<lambda>i0 s. rbind (l1_at v i0) (\<lambda>va. each_one (union_at v i0) va s)) [0..<kLevel1Size t] (False, t)"

text \<open>Storing a word that may have become empty.\<close>

definition store_cell :: "nat \<Rightarrow> nat \<Rightarrow> u64 \<Rightarrow> TwoLevelBitVector \<Rightarrow> TwoLevelBitVector res" where
  "store_cell i0 i1 b t =
     rbind (set_l2 i0 i1 b t) (\<lambda>t.
     if bbv_empty b then rbind (l1_at t i0) (\<lambda>a. rbind (bbv_clearBit i1 a) (\<lambda>(_, a). set_l1 i0 a t)) else Inr t)"

definition inter_at :: "TwoLevelBitVector \<Rightarrow> nat \<Rightarrow> nat \<Rightarrow> bool \<times> TwoLevelBitVector \<Rightarrow> (bool \<times> TwoLevelBitVector) res" where
  "inter_at v i0 i1 = (\<lambda>(res, t).
     rbind (l2_at t i0 i1) (\<lambda>b. rbind (l2_at v i0 i1) (\<lambda>vb. let (ch, b) = bbv_setIntersection vb b in
     rbind (store_cell i0 i1 b t) (\<lambda>t. Inr (res \<or> ch, t)))))"

definition inter_body :: "TwoLevelBitVector \<Rightarrow> nat \<Rightarrow> bool \<times> TwoLevelBitVector \<Rightarrow> (bool \<times> TwoLevelBitVector) res" where
  "inter_body v i0 = (\<lambda>(res, t).
     rbind (l1_at t i0) (\<lambda>a. rbind (l1_at v i0) (\<lambda>va. let (ch, a) = bbv_setIntersection va a in
     rbind (set_l1 i0 a t) (\<lambda>t.
     if \<not> bbv_empty a then each_one (inter_at v i0) a (res \<or> ch, t) else Inr (res \<or> ch, t)))))"

definition tl_setIntersection :: "TwoLevelBitVector \<Rightarrow> TwoLevelBitVector \<Rightarrow> (bool \<times> TwoLevelBitVector) res" where
  "tl_setIntersection v t = rfold (inter_body v) [0..<kLevel1Size t] (False, t)"

definition diff_at :: "TwoLevelBitVector \<Rightarrow> nat \<Rightarrow> nat \<Rightarrow> bool \<times> TwoLevelBitVector \<Rightarrow> (bool \<times> TwoLevelBitVector) res" where
  "diff_at v i0 i1 = (\<lambda>(res, t).
     rbind (l2_at t i0 i1) (\<lambda>b. rbind (l2_at v i0 i1) (\<lambda>vb. let (ch, b) = bbv_setDifference vb b in
     rbind (store_cell i0 i1 b t) (\<lambda>t. Inr (res \<or> ch, t)))))"

definition tl_setDifference :: "TwoLevelBitVector \<Rightarrow> TwoLevelBitVector \<Rightarrow> (bool \<times> TwoLevelBitVector) res" where
  "tl_setDifference v t =
     rfold (\<lambda>i0 (res, t).
       rbind (l1_at t i0) (\<lambda>a. rbind (l1_at v i0) (\<lambda>va.
       each_one (diff_at v i0) (snd (bbv_setIntersection va a)) (res, t))))
     [0..<kLevel1Size t] (False, t)"

definition tl_copyFrom :: "TwoLevelBitVector \<Rightarrow> TwoLevelBitVector \<Rightarrow> TwoLevelBitVector res" where
  "tl_copyFrom v t = rbind (tl_setUnion v (tl_clear t)) (\<lambda>(_, t). Inr t)"

definition tl_intersectsWith :: "TwoLevelBitVector \<Rightarrow> TwoLevelBitVector \<Rightarrow> bool res" where
  "tl_intersectsWith v t =
     rany (\<lambda>i0. rbind (l1_at t i0) (\<lambda>a. rbind (l1_at v i0) (\<lambda>va.
       any_one (\<lambda>i1. rbind (bbv_getBit i1 va) (\<lambda>g.
         if \<not> g then Inr False
         else rbind (l2_at t i0 i1) (\<lambda>b. rbind (l2_at v i0 i1) (\<lambda>vb. Inr (bbv_intersectsWith vb b)))))
       (snd (bbv_setIntersection va a)))))
     [0..<kLevel1Size t]"

record tl_Iterator =
  it_bv :: TwoLevelBitVector
  it_i0 :: nat
  it_i1 :: nat
  it_1 :: bbv
  it_2 :: bbv

definition tl_iter :: "TwoLevelBitVector \<Rightarrow> tl_Iterator" where
  "tl_iter bv = \<lparr>it_bv = bv, it_i0 = 0, it_i1 = 0, it_1 = 0, it_2 = 0\<rparr>"

definition tl_hasNext :: "tl_Iterator \<Rightarrow> bool" where
  "tl_hasNext it \<longleftrightarrow> bit_hasNext (it_1 it) \<or> (\<exists>a\<in>set (drop (it_i0 it) (tl_l1 (it_bv it))). \<not> bbv_empty a)"

text \<open>The search for the next first-level word in use.\<close>

fun next_row :: "tl_Iterator \<Rightarrow> u64 list \<Rightarrow> tl_Iterator" where
  "next_row it [] = it"
| "next_row it (a # as) = (if bbv_empty a then next_row (it\<lparr>it_i0 := Suc (it_i0 it)\<rparr>) as else it\<lparr>it_1 := bit_iter a\<rparr>)"

definition tl_next :: "tl_Iterator \<Rightarrow> (nat \<times> tl_Iterator) res" where
  "tl_next it =
     (let it = (if \<not> bit_hasNext (it_1 it) \<and> \<not> bit_hasNext (it_2 it) then next_row it (drop (it_i0 it) (tl_l1 (it_bv it))) else it) in
      rbind (if \<not> bit_hasNext (it_2 it) then
               rbind (check (bit_hasNext (it_1 it))) (\<lambda>_. rbind (bit_next (it_1 it)) (\<lambda>(i1, i).
               rbind (l2_at (it_bv it) (it_i0 it) i1) (\<lambda>b. Inr (it\<lparr>it_1 := i, it_i1 := i1, it_2 := bit_iter b\<rparr>))))
             else Inr it) (\<lambda>it.
      rbind (check (bit_hasNext (it_2 it))) (\<lambda>_. rbind (bit_next (it_2 it)) (\<lambda>(i2, i).
      let res = it_i0 it * bbv_kSize * bbv_kSize + it_i1 it * bbv_kSize + i2;
          it = it\<lparr>it_2 := i\<rparr>
      in Inr (res, if \<not> bit_hasNext (it_1 it) \<and> \<not> bit_hasNext (it_2 it) then it\<lparr>it_i0 := Suc (it_i0 it)\<rparr> else it)))))"

section \<open>Rows\<close>

text \<open>
  A row is a word of the first level with the 64 words below it. The pairs it contains, and that
  no first-level bit is set without need.
\<close>

type_synonym row = "u64 \<times> u64 list"

fun rowmem :: "row \<Rightarrow> nat \<Rightarrow> nat \<Rightarrow> bool" where
  "rowmem (a, r) i1 i2 \<longleftrightarrow> bit a i1 \<and> bit (r ! i1) i2"

fun row_ok :: "row \<Rightarrow> bool" where
  "row_ok (a, r) \<longleftrightarrow> length r = 64 \<and> (\<forall>i1. bit a i1 \<longrightarrow> r ! i1 \<noteq> 0)"

definition row_of :: "TwoLevelBitVector \<Rightarrow> nat \<Rightarrow> row" where
  "row_of t i0 = (tl_l1 t ! i0, tl_l2 t ! i0)"

definition put_row :: "nat \<Rightarrow> row \<Rightarrow> TwoLevelBitVector \<Rightarrow> TwoLevelBitVector" where
  "put_row i0 x t = t\<lparr>tl_l1 := (tl_l1 t)[i0 := fst x], tl_l2 := (tl_l2 t)[i0 := snd x]\<rparr>"

definition tl_shape :: "nat \<Rightarrow> TwoLevelBitVector \<Rightarrow> bool" where
  "tl_shape k t \<longleftrightarrow> length (tl_l1 t) = k \<and> length (tl_l2 t) = k \<and> (\<forall>i0<k. length (tl_l2 t ! i0) = 64)"

definition tl_ok :: "nat \<Rightarrow> TwoLevelBitVector \<Rightarrow> bool" where
  "tl_ok k t \<longleftrightarrow> tl_shape k t \<and> (\<forall>i0<k. row_ok (row_of t i0))"

text \<open>The three parts of an index.\<close>

definition p0 :: "nat \<Rightarrow> nat" where "p0 x = x div 4096"
definition p1 :: "nat \<Rightarrow> nat" where "p1 x = x div 64 mod 64"
definition p2 :: "nat \<Rightarrow> nat" where "p2 x = x mod 64"

definition in_tl :: "nat \<Rightarrow> TwoLevelBitVector \<Rightarrow> nat \<Rightarrow> bool" where
  "in_tl k t x \<longleftrightarrow> p0 x < k \<and> rowmem (row_of t (p0 x)) (p1 x) (p2 x)"

definition tl_set :: "nat \<Rightarrow> TwoLevelBitVector \<Rightarrow> nat set" where
  "tl_set k t = {x. in_tl k t x}"

lemma tl_okD:
  assumes "tl_ok k t"
  shows "tl_shape k t" "length (tl_l1 t) = k" "length (tl_l2 t) = k" "i0 < k \<Longrightarrow> length (tl_l2 t ! i0) = 64" "i0 < k \<Longrightarrow> row_ok (row_of t i0)"
  using assms by (simp_all add: tl_ok_def tl_shape_def)

lemma rowmem_less: "rowmem x i1 i2 \<Longrightarrow> i1 < 64 \<and> i2 < 64"
  by (cases x) (auto dest: bit_64D)

lemma row_of_put [simp]: "tl_shape k t \<Longrightarrow> i0 < k \<Longrightarrow> row_of (put_row i0 x t) j0 = (if j0 = i0 then x else row_of t j0)"
  by (simp add: row_of_def put_row_def tl_shape_def)

lemma tl_shape_put [simp]: "tl_shape k t \<Longrightarrow> length (snd x) = 64 \<Longrightarrow> tl_shape k (put_row i0 x t)"
  by (cases "i0 < k") (auto simp: tl_shape_def put_row_def nth_list_update)

lemma put_row_same: "tl_shape k t \<Longrightarrow> i0 < k \<Longrightarrow> put_row i0 (row_of t i0) t = t"
  by (simp add: put_row_def row_of_def tl_shape_def)

lemma put_row_put [simp]: "put_row i0 x (put_row i0 y t) = put_row i0 x t"
  by (simp add: put_row_def)

lemma p_less [simp]: "p1 x < 64" "p2 x < 64"
  by (simp_all add: p1_def p2_def)

lemma p_join: "p0 x * 4096 + p1 x * 64 + p2 x = x"
proof -
  have "x div 64 div 64 = x div 4096" by (simp add: div_mult2_eq [symmetric])
  then have "x div 64 = x div 4096 * 64 + x div 64 mod 64" using div_mult_mod_eq [of "x div 64" 64] by simp
  then show ?thesis using div_mult_mod_eq [of x 64] unfolding p0_def p1_def p2_def by linarith
qed

lemma p_split:
  assumes "i1 < 64" "i2 < 64"
  shows "p0 (i0 * 4096 + i1 * 64 + i2) = i0" "p1 (i0 * 4096 + i1 * 64 + i2) = i1" "p2 (i0 * 4096 + i1 * 64 + i2) = i2"
proof -
  have "i1 * 64 + i2 < 4096" using assms by linarith
  then show "p0 (i0 * 4096 + i1 * 64 + i2) = i0" by (simp add: p0_def add.assoc div_mult_self3)
  have "(i0 * 4096 + i1 * 64 + i2) div 64 = i0 * 64 + i1" using assms by (simp add: div_add1_eq)
  then show "p1 (i0 * 4096 + i1 * 64 + i2) = i1" using assms by (simp add: p1_def)
  have "i0 * 4096 + i1 * 64 + i2 = i2 + (i0 * 64 + i1) * 64" by simp
  then show "p2 (i0 * 4096 + i1 * 64 + i2) = i2" using assms(2) unfolding p2_def by (metis mod_less mod_mult_self1)
qed

lemma p_eq: "x = y \<longleftrightarrow> p0 x = p0 y \<and> p1 x = p1 y \<and> p2 x = p2 y"
  by (metis p_join)

lemma in_tl_at: "i1 < 64 \<Longrightarrow> i2 < 64 \<Longrightarrow> in_tl k t (i0 * 4096 + i1 * 64 + i2) \<longleftrightarrow> i0 < k \<and> rowmem (row_of t i0) i1 i2"
  by (simp add: in_tl_def p_split)

text \<open>Reading and writing the arrays through the rows.\<close>

lemma array_ops:
  assumes "tl_shape k t" "i0 < k"
  shows "l1_at t i0 = Inr (fst (row_of t i0))" "i1 < 64 \<Longrightarrow> l2_at t i0 i1 = Inr (snd (row_of t i0) ! i1)"
    "set_l1 i0 a t = Inr (put_row i0 (a, snd (row_of t i0)) t)"
    "i1 < 64 \<Longrightarrow> set_l2 i0 i1 b t = Inr (put_row i0 (fst (row_of t i0), (snd (row_of t i0))[i1 := b]) t)"
  using assms by (simp_all add: l1_at_def l2_at_def set_l1_def set_l2_def row_of_def put_row_def tl_shape_def)

lemma index_ops:
  assumes "tl_shape k t" "idx < 4096 * k"
  shows "tl_check idx t = Inr ()" "idx0 idx t = Inr (p0 idx)" "idx1 idx = Inr (p1 idx)" "idx2 idx = Inr (p2 idx)"
    "p0 idx < k"
proof -
  show "p0 idx < k" using assms(2) by (simp add: p0_def less_mult_imp_div_less mult.commute)
  then show "tl_check idx t = Inr ()" "idx0 idx t = Inr (p0 idx)" "idx1 idx = Inr (p1 idx)" "idx2 idx = Inr (p2 idx)"
    using assms by (simp_all add: tl_check_def idx0_def idx1_def idx2_def tl_size_def bbv_kSize_def kLevel1Size_def tl_shape_def less_imp_le p0_def p1_def p2_def)
qed

section \<open>Single bits\<close>

lemma rowmem_set:
  assumes "length r = 64" "i1 < 64" "i2 < 64"
  shows "rowmem (a OR one_at i1, r[i1 := (if bit a i1 then r ! i1 else 0) OR one_at i2]) j1 j2 \<longleftrightarrow> rowmem (a, r) j1 j2 \<or> (j1 = i1 \<and> j2 = i2)"
  using assms by (cases "j1 = i1") (auto simp: bit_set_one bit_or_iff)

lemma row_ok_set:
  assumes "row_ok (a, r)" "i1 < 64" "b \<noteq> 0"
  shows "row_ok (a OR one_at i1, r[i1 := b])"
  using assms by (auto simp: bit_set_one nth_list_update)

lemma tl_setBit_eq:
  assumes "tl_ok k t" "idx < 4096 * k"
  and "i0 = p0 idx" "i1 = p1 idx" "i2 = p2 idx" "row_of t i0 = (a, r)"
  shows "tl_setBit idx t = Inr (\<not> in_tl k t idx, put_row i0 (a OR one_at i1, r[i1 := (if bit a i1 then r ! i1 else 0) OR one_at i2]) t)"
proof -
  have s: "tl_shape k t" "i0 < k" "i1 < 64" "i2 < 64" "length r = 64"
    using index_ops(5) [of k t idx] tl_okD(1) [OF assms(1)] tl_okD(4) [OF assms(1), of i0] assms by (auto simp: row_of_def)
  note ops = index_ops(1-4) [OF s(1) assms(2), folded assms(3-5)] array_ops [OF s(1,2), unfolded assms(6) fst_conv snd_conv]
  have m: "in_tl k t idx \<longleftrightarrow> bit a i1 \<and> bit (r ! i1) i2"
    using s(2) assms(6) by (simp add: in_tl_def assms(3-5) [symmetric])
  have rows: "row_of (put_row i0 x t) i0 = x" "tl_shape k (put_row i0 x t)" if "length (snd x) = 64" for x using s that by simp_all
  note ops' = array_ops(2,4) [OF rows(2) s(2) s(3)]
  show ?thesis
  proof (cases "bit a i1")
    case True
    then have "a OR one_at i1 = a" using s(3) by (intro u64_eqI) (auto simp: bit_set_one)
    then show ?thesis using True s m by (simp add: tl_setBit_def ops bbv_getBit_eq bbv_setBit_eq)
  next
    case False
    then show ?thesis using s m by (simp add: tl_setBit_def ops ops' rows bbv_getBit_eq bbv_setBit_eq bbv_clear_def)
  qed
qed

lemma tl_put_row:
  assumes "tl_ok k t" "i0 < k" "row_ok x"
  shows "tl_ok k (put_row i0 x t)" "in_tl k (put_row i0 x t) y \<longleftrightarrow> (if p0 y = i0 then rowmem x (p1 y) (p2 y) else in_tl k t y)"
proof -
  have "length (snd x) = 64" using assms(3) by (cases x) simp
  then show "tl_ok k (put_row i0 x t)" using assms by (auto simp: tl_ok_def)
  show "in_tl k (put_row i0 x t) y \<longleftrightarrow> (if p0 y = i0 then rowmem x (p1 y) (p2 y) else in_tl k t y)"
    using assms tl_okD(1) [OF assms(1)] by (auto simp: in_tl_def)
qed

lemma tl_setBit_set:
  assumes "tl_ok k t" "idx < 4096 * k"
  shows "\<exists>t'. tl_setBit idx t = Inr (idx \<notin> tl_set k t, t') \<and> tl_ok k t' \<and> tl_set k t' = insert idx (tl_set k t)"
proof -
  let ?i0 = "p0 idx" and ?i1 = "p1 idx" and ?i2 = "p2 idx"
  obtain a r where ar: "row_of t ?i0 = (a, r)" by fastforce
  have i0: "?i0 < k" using index_ops(5) [OF tl_okD(1) [OF assms(1)] assms(2)] .
  have ok: "row_ok (a, r)" "length r = 64" using tl_okD(5) [OF assms(1) i0] ar by simp_all
  let ?x = "(a OR one_at ?i1, r[?i1 := (if bit a ?i1 then r ! ?i1 else 0) OR one_at ?i2])"
  have "(if bit a ?i1 then r ! ?i1 else 0) OR one_at ?i2 \<noteq> 0" by (auto simp: u64_eq_0 bit_or_iff intro: exI [of _ ?i2])
  then have okx: "row_ok ?x" by (rule row_ok_set [OF ok(1), rotated]) simp
  have "in_tl k (put_row ?i0 ?x t) y \<longleftrightarrow> y = idx \<or> in_tl k t y" for y
    using tl_put_row(2) [OF assms(1) i0 okx, of y] rowmem_set [OF ok(2), of ?i1 ?i2 a] ar i0 p_eq [of y idx]
    by (auto simp: in_tl_def)
  then have "tl_set k (put_row ?i0 ?x t) = insert idx (tl_set k t)" by (auto simp: tl_set_def)
  then show ?thesis using tl_setBit_eq [OF assms refl refl refl ar] tl_put_row(1) [OF assms(1) i0 okx] unfolding tl_set_def by auto
qed

lemma rowmem_clear:
  assumes "length r = 64" "i1 < 64" "bit a i1" "b = r ! i1 AND NOT (one_at i2)"
  shows "rowmem (if b = 0 then a AND NOT (one_at i1) else a, r[i1 := b]) j1 j2 \<longleftrightarrow> rowmem (a, r) j1 j2 \<and> \<not> (j1 = i1 \<and> j2 = i2)"
proof (cases "j1 = i1")
  case True
  have "bit b j2 \<longleftrightarrow> bit (r ! i1) j2 \<and> j2 \<noteq> i2" using assms(4) bit_clear_one by simp
  then show ?thesis using assms(1-3) True by (auto simp: bit_clear_one)
qed (auto simp: bit_clear_one)

lemma row_ok_clear:
  assumes "row_ok (a, r)" "i1 < 64"
  shows "row_ok (if b = 0 then a AND NOT (one_at i1) else a, r[i1 := b])"
  using assms by (auto simp: bit_clear_one nth_list_update)

lemma index_row:
  assumes "tl_ok k t" "idx < 4096 * k"
  obtains a r where "row_of t (p0 idx) = (a, r)" "p0 idx < k" "row_ok (a, r)" "length r = 64" "tl_shape k t"
    "in_tl k t idx \<longleftrightarrow> bit a (p1 idx) \<and> bit (r ! p1 idx) (p2 idx)"
proof -
  obtain a r where ar: "row_of t (p0 idx) = (a, r)" by fastforce
  have "p0 idx < k" using index_ops(5) [OF tl_okD(1) [OF assms(1)] assms(2)] .
  then show thesis using that [OF ar] tl_okD(5) [OF assms(1), of "p0 idx"] tl_okD(1) [OF assms(1)] ar by (simp add: in_tl_def)
qed

lemma tl_getBit_set:
  assumes "tl_ok k t" "idx < 4096 * k"
  shows "tl_getBit idx t = Inr (idx \<in> tl_set k t)"
proof -
  from assms obtain a r where ar: "row_of t (p0 idx) = (a, r)" "p0 idx < k" "row_ok (a, r)" "length r = 64" "tl_shape k t"
    "in_tl k t idx \<longleftrightarrow> bit a (p1 idx) \<and> bit (r ! p1 idx) (p2 idx)" by (rule index_row)
  then show ?thesis
    using index_ops(1-4) [OF ar(5) assms(2)] array_ops [OF ar(5,2)] by (simp add: tl_getBit_def tl_set_def bbv_getBit_eq)
qed

lemma tl_clearBit_set:
  assumes "tl_ok k t" "idx < 4096 * k"
  shows "\<exists>t'. tl_clearBit idx t = Inr (idx \<in> tl_set k t, t') \<and> tl_ok k t' \<and> tl_set k t' = tl_set k t - {idx}"
proof -
  from assms obtain a r where ar: "row_of t (p0 idx) = (a, r)" "p0 idx < k" "row_ok (a, r)" "length r = 64" "tl_shape k t"
    "in_tl k t idx \<longleftrightarrow> bit a (p1 idx) \<and> bit (r ! p1 idx) (p2 idx)" by (rule index_row)
  note ops = index_ops(1-4) [OF ar(5) assms(2)] array_ops [OF ar(5,2), unfolded ar(1) fst_conv snd_conv]
  show ?thesis
  proof (cases "bit a (p1 idx)")
    case True
    let ?b = "r ! p1 idx AND NOT (one_at (p2 idx))"
    let ?x = "(if ?b = 0 then a AND NOT (one_at (p1 idx)) else a, r[p1 idx := ?b])"
    have ok: "row_ok ?x" by (rule row_ok_clear [OF ar(3)]) simp
    have rows: "row_of (put_row (p0 idx) x t) (p0 idx) = x" "tl_shape k (put_row (p0 idx) x t)" if "length (snd x) = 64" for x
      using ar(2,5) that by simp_all
    have "in_tl k (put_row (p0 idx) ?x t) y \<longleftrightarrow> y \<noteq> idx \<and> in_tl k t y" for y
      using tl_put_row(2) [OF assms(1) ar(2) ok, of y] rowmem_clear [OF ar(4) _ True refl, of "p2 idx"] ar(1,2) p_eq [of y idx]
      by (auto simp: in_tl_def)
    then have "tl_set k (put_row (p0 idx) ?x t) = tl_set k t - {idx}" by (auto simp: tl_set_def)
    moreover have "tl_clearBit idx t = Inr (idx \<in> tl_set k t, put_row (p0 idx) ?x t)"
      using True ar(4,6) array_ops(3) [OF rows(2) ar(2)]
      by (simp add: tl_clearBit_def ops bbv_getBit_eq bbv_clearBit_eq bbv_empty_def rows tl_set_def)
    ultimately show ?thesis using tl_put_row(1) [OF assms(1) ar(2) ok] by blast
  next
    case False
    then show ?thesis using ar(6) assms(1) by (simp add: tl_clearBit_def ops bbv_getBit_eq tl_set_def)
  qed
qed

section \<open>Whole vectors\<close>

lemma tl_clear_set: "tl_shape k t \<Longrightarrow> tl_ok k (tl_clear t) \<and> tl_set k (tl_clear t) = {}"
  by (auto simp: tl_ok_def tl_shape_def tl_clear_def row_of_def bbv_clear_def tl_set_def in_tl_def)

lemma tl_setAll_set:
  assumes "tl_shape k t"
  shows "tl_ok k (tl_setAll t) \<and> tl_set k (tl_setAll t) = {..<4096 * k}"
proof -
  have "row_of (tl_setAll t) i0 = (- 1, replicate 64 (- 1))" if "i0 < k" for i0
    using assms that by (auto simp: row_of_def tl_setAll_def tl_shape_def bbv_setAll_def map_replicate_const intro!: nth_equalityI)
  moreover have "p0 x < k \<longleftrightarrow> x < 4096 * k" for x by (simp add: p0_def div_less_iff_less_mult mult.commute)
  ultimately show ?thesis using assms by (auto simp: tl_ok_def tl_shape_def tl_setAll_def tl_set_def in_tl_def)
qed

lemma row_nonempty: "row_ok (a, r) \<Longrightarrow> a \<noteq> 0 \<longleftrightarrow> (\<exists>i1 i2. rowmem (a, r) i1 i2)"
  by (auto simp: u64_eq_0)

lemma tl_empty_set:
  assumes "tl_ok k t"
  shows "tl_empty t \<longleftrightarrow> tl_set k t = {}"
proof -
  have "tl_empty t \<longleftrightarrow> (\<forall>i0<k. fst (row_of t i0) = 0)"
    using tl_okD(2) [OF assms] by (auto simp: tl_empty_def list_all_length bbv_empty_def row_of_def)
  also have "\<dots> \<longleftrightarrow> (\<forall>i0<k. \<forall>i1 i2. \<not> rowmem (row_of t i0) i1 i2)"
    using row_nonempty tl_okD(5) [OF assms] by (metis prod.collapse)
  also have "\<dots> \<longleftrightarrow> (\<forall>x. \<not> in_tl k t x)"
    by (metis in_tl_at in_tl_def rowmem_less)
  finally show ?thesis by (simp add: tl_set_def)
qed

lemma tl_set_bound: "tl_set k t \<subseteq> {..<4096 * k}"
  by (auto simp: tl_set_def in_tl_def p0_def div_less_iff_less_mult mult.commute)

lemma ones_least: "ones b = i # is \<Longrightarrow> bit b j \<Longrightarrow> i \<le> j"
proof -
  assume o: "ones b = i # is" "bit b j"
  then have "j \<in> set (i # is)" using set_ones [of b] by simp
  then show "i \<le> j" using sorted_ones [of b] o(1) by auto
qed

lemma tl_first_skip:
  assumes "tl_shape k t" "\<forall>i\<in>set is. i < k \<and> fst (row_of t i) = 0"
  shows "tl_first (is @ js) t = tl_first js t"
  using assms(2) by (induction "is") (simp_all add: array_ops [OF assms(1)] bbv_empty_def)

lemma tl_first_row:
  assumes "tl_ok k t" "i0 < k" "row_of t i0 = (a, r)" "ones a = i1 # is" "ones (r ! i1) = i2 # js"
  defines "b \<equiv> r ! i1 AND NOT (one_at i2)"
  shows "tl_first (i0 # rest) t = Inr (i0 * 4096 + i1 * 64 + i2, put_row i0 (if b = 0 then a AND NOT (one_at i1) else a, r[i1 := b]) t)"
proof -
  have i: "bit a i1" "i1 < 64" "a \<noteq> 0" "i2 < 64" using ones_ConsD [OF assms(4)] ones_ConsD [OF assms(5)] by simp_all
  have s: "tl_shape k t" "length r = 64" using tl_okD(1,4) [OF assms(1)] assms(2,3) by (auto simp: row_of_def)
  have rows: "row_of (put_row i0 x t) i0 = x" "tl_shape k (put_row i0 x t)" if "length (snd x) = 64" for x using s assms(2) that by simp_all
  have bk: "(a AND NOT (one_at i1)) OR one_at i1 = a" using i by (intro u64_eqI) (auto simp: bit_set_one bit_clear_one)
  show ?thesis
    using i s(2) bk
    by (simp add: array_ops [OF s(1) assms(2)] array_ops [OF rows(2) assms(2)] rows assms(3) bbv_empty_def bbv_first_eq [OF assms(4)]
        bbv_first_eq [OF assms(5)] b_def [symmetric] bbv_setBit_eq bbv_kSize_def)
qed

lemma tl_first_set:
  assumes "tl_ok k t" "tl_set k t \<noteq> {}"
  shows "\<exists>t'. tl_getAndClearFirstOne t = Inr (Min (tl_set k t), t') \<and> tl_ok k t' \<and> tl_set k t' = tl_set k t - {Min (tl_set k t)}"
proof -
  have "\<exists>i0<k. fst (row_of t i0) \<noteq> 0"
    using assms tl_empty_set [OF assms(1)] tl_okD(2) [OF assms(1)] by (auto simp: tl_empty_def list_all_length bbv_empty_def row_of_def)
  then obtain i0 where i0: "i0 < k" "fst (row_of t i0) \<noteq> 0" "\<forall>j<i0. \<not> (j < k \<and> fst (row_of t j) \<noteq> 0)"
    using exists_least_iff [of "\<lambda>i. i < k \<and> fst (row_of t i) \<noteq> 0"] by blast
  obtain a r where ar: "row_of t i0 = (a, r)" by fastforce
  obtain i1 js where o1: "ones a = i1 # js" using i0(2) ar by (metis fst_conv list.exhaust ones_Nil)
  have ok: "row_ok (a, r)" "length r = 64" using tl_okD(5) [OF assms(1) i0(1)] ar by simp_all
  have i1: "bit a i1" "i1 < 64" using ones_ConsD [OF o1] by simp_all
  then obtain i2 ks where o2: "ones (r ! i1) = i2 # ks" using ok(1) by (metis list.exhaust ones_Nil row_ok.simps)
  have i2: "bit (r ! i1) i2" "i2 < 64" using ones_ConsD [OF o2] by simp_all
  let ?x = "i0 * 4096 + i1 * 64 + i2" and ?b = "r ! i1 AND NOT (one_at i2)"
  let ?row = "(if ?b = 0 then a AND NOT (one_at i1) else a, r[i1 := ?b])"
  have x: "?x \<in> tl_set k t" using i0(1) i1 i2 ar by (simp add: tl_set_def in_tl_at)
  have "?x \<le> y" if y: "y \<in> tl_set k t" for y
  proof -
    have m: "p0 y < k" "rowmem (row_of t (p0 y)) (p1 y) (p2 y)" using y by (simp_all add: tl_set_def in_tl_def)
    then have "fst (row_of t (p0 y)) \<noteq> 0" by (cases "row_of t (p0 y)") (auto simp: u64_eq_0)
    then have g: "i0 \<le> p0 y" using i0(3) m(1) by (meson not_le_imp_less)
    show ?thesis
    proof (cases "p0 y = i0")
      case True
      then have "i1 \<le> p1 y" "p1 y = i1 \<Longrightarrow> i2 \<le> p2 y" using m(2) ar ones_least [OF o1] ones_least [OF o2] by auto
      then show ?thesis using True p_join [of y] i2 p_less [of y] by (cases "p1 y = i1") (linarith+)
    next
      case False
      then have "i0 * 4096 + 4096 \<le> p0 y * 4096" using g by simp
      then show ?thesis using p_join [of y] i1 i2 by linarith
    qed
  qed
  then have min: "Min (tl_set k t) = ?x" using x finite_subset [OF tl_set_bound] by (intro Min_eqI) auto
  have okx: "row_ok ?row" by (rule row_ok_clear [OF ok(1) i1(2)])
  have sp: "[0..<kLevel1Size t] = [0..<i0] @ i0 # [Suc i0..<k]"
    using i0(1) tl_okD(2) [OF assms(1)] upt_add_eq_append [of 0 i0 "k - i0"] by (simp add: kLevel1Size_def upt_conv_Cons)
  have "tl_getAndClearFirstOne t = Inr (?x, put_row i0 ?row t)"
    using tl_first_skip [OF tl_okD(1) [OF assms(1)], of "[0..<i0]" "i0 # [Suc i0..<k]"] tl_first_row [OF assms(1) i0(1) ar o1 o2] i0
    unfolding tl_getAndClearFirstOne_def sp by simp
  moreover have "in_tl k (put_row i0 ?row t) y \<longleftrightarrow> y \<noteq> ?x \<and> in_tl k t y" for y
    using tl_put_row(2) [OF assms(1) i0(1) okx, of y] rowmem_clear [OF ok(2) i1(2,1) refl, of i2] ar i0(1) p_eq [of y ?x] p_split [OF i1(2) i2(2), of i0]
    by (auto simp: in_tl_def)
  then have "tl_set k (put_row i0 ?row t) = tl_set k t - {?x}" by (auto simp: tl_set_def)
  ultimately show ?thesis using tl_put_row(1) [OF assms(1) i0(1) okx] min by simp
qed

section \<open>Loops over the rows\<close>

lemma rfold_inv:
  assumes "distinct js" "\<And>D i s. i \<in> set js \<Longrightarrow> i \<notin> D \<Longrightarrow> I D s \<Longrightarrow> \<exists>s'. f i s = Inr s' \<and> I (insert i D) s'" "I D0 s" "D0 \<inter> set js = {}"
  shows "\<exists>s'. rfold f js s = Inr s' \<and> I (set js \<union> D0) s'"
  using assms
proof (induction js arbitrary: s D0)
  case (Cons i js)
  from Cons.prems(2) [of i D0 s] Cons.prems(3,4) obtain s1 where s1: "f i s = Inr s1" "I (insert i D0) s1" by auto
  have "\<exists>s'. rfold f js s1 = Inr s' \<and> I (set js \<union> insert i D0) s'"
    using Cons.prems s1(2) by (intro Cons.IH) auto
  then show ?case using s1(1) by simp
qed simp

lemma rfold_inv0:
  assumes "distinct js" "\<And>D i s. i \<in> set js \<Longrightarrow> i \<notin> D \<Longrightarrow> I D s \<Longrightarrow> \<exists>s'. f i s = Inr s' \<and> I (insert i D) s'" "I {} s"
  shows "\<exists>s'. rfold f js s = Inr s' \<and> I (set js) s'"
proof -
  have "\<exists>s'. rfold f js s = Inr s' \<and> I (set js \<union> {}) s'" by (rule rfold_inv [OF assms(1)]) (use assms(2,3) in auto)
  then show ?thesis by simp
qed

lemma rany_eq: "(\<And>i. i \<in> set js \<Longrightarrow> f i = Inr (P i)) \<Longrightarrow> rany f js = Inr (\<exists>i\<in>set js. P i)"
  by (induction js) auto

lemma distinct_ones: "distinct (ones w)"
  using sorted_ones strict_sorted_iff by blast

text \<open>What a loop over the rows does to the vector when its body does \<open>G\<close> to the pairs of a row and notes \<open>C\<close>.\<close>

definition row_step :: "nat \<Rightarrow> (nat \<Rightarrow> bool \<times> TwoLevelBitVector \<Rightarrow> (bool \<times> TwoLevelBitVector) res)
    \<Rightarrow> (nat \<Rightarrow> row \<Rightarrow> nat \<Rightarrow> nat \<Rightarrow> bool) \<Rightarrow> (nat \<Rightarrow> row \<Rightarrow> bool) \<Rightarrow> bool" where
  "row_step k f G C \<longleftrightarrow> (\<forall>i0<k. \<forall>t res. tl_ok k t \<longrightarrow>
     (\<exists>x. f i0 (res, t) = Inr (res \<or> C i0 (row_of t i0), put_row i0 x t) \<and> row_ok x \<and> (\<forall>i1 i2. rowmem x i1 i2 \<longleftrightarrow> G i0 (row_of t i0) i1 i2)))"

lemma row_loop:
  assumes "row_step k f G C" "tl_ok k t"
  shows "\<exists>t'. rfold f [0..<kLevel1Size t] (False, t) = Inr (\<exists>i0<k. C i0 (row_of t i0), t') \<and> tl_ok k t'
    \<and> (\<forall>y. in_tl k t' y \<longleftrightarrow> p0 y < k \<and> G (p0 y) (row_of t (p0 y)) (p1 y) (p2 y))"
proof -
  let ?I = "\<lambda>D (res, u). tl_ok k u \<and> (res \<longleftrightarrow> (\<exists>i0\<in>D. C i0 (row_of t i0))) \<and> (\<forall>i0. i0 \<notin> D \<longrightarrow> row_of u i0 = row_of t i0)
    \<and> (\<forall>i0\<in>D. \<forall>i1 i2. rowmem (row_of u i0) i1 i2 \<longleftrightarrow> G i0 (row_of t i0) i1 i2)"
  have k: "kLevel1Size t = k" using tl_okD(2) [OF assms(2)] by (simp add: kLevel1Size_def)
  have "\<exists>s'. rfold f [0..<k] (False, t) = Inr s' \<and> ?I (set [0..<k]) s'"
  proof (rule rfold_inv0)
    fix D i0 s assume i0: "i0 \<in> set [0..<k]" "i0 \<notin> D" and I: "?I D s"
    obtain res u where s: "s = (res, u)" by fastforce
    have u: "tl_ok k u" "row_of u i0 = row_of t i0" using I s i0(2) by auto
    obtain x where x: "f i0 (res, u) = Inr (res \<or> C i0 (row_of t i0), put_row i0 x u)" "row_ok x" "\<forall>i1 i2. rowmem x i1 i2 \<longleftrightarrow> G i0 (row_of t i0) i1 i2"
      using assms(1) u i0(1) unfolding row_step_def by (metis atLeastLessThan_iff set_upt)
    have "?I (insert i0 D) (res \<or> C i0 (row_of t i0), put_row i0 x u)"
      using I s x(2,3) i0 tl_put_row(1) [OF u(1) _ x(2)] tl_okD(1) [OF u(1)] by auto
    then show "\<exists>s'. f i0 s = Inr s' \<and> ?I (insert i0 D) s'" using x(1) s by blast
  qed (use assms(2) in auto)
  then obtain res u where ru: "rfold f [0..<k] (False, t) = Inr (res, u)" "?I {..<k} (res, u)" by (auto simp: atLeast0LessThan)
  then have "in_tl k u y \<longleftrightarrow> p0 y < k \<and> G (p0 y) (row_of t (p0 y)) (p1 y) (p2 y)" for y by (auto simp: in_tl_def)
  then show ?thesis using ru k by auto
qed

declare rowmem.simps [simp del] row_ok.simps [simp del]

text \<open>
  And the loop within a row: the body is applied to the cells named by the bits of a word, and
  each time finds its cell as it was.
\<close>

fun cell :: "row \<Rightarrow> nat \<Rightarrow> bool \<times> u64" where
  "cell (a, r) i1 = (bit a i1, r ! i1)"

lemma rowmem_cell: "cell x i1 = cell y i1 \<Longrightarrow> rowmem x i1 i2 = rowmem y i1 i2"
  by (cases x; cases y) (simp add: rowmem.simps)

definition cell_step :: "(nat \<Rightarrow> bool \<times> TwoLevelBitVector \<Rightarrow> (bool \<times> TwoLevelBitVector) res) \<Rightarrow> nat \<Rightarrow> TwoLevelBitVector \<Rightarrow> row \<Rightarrow> nat
    \<Rightarrow> bool \<Rightarrow> (nat \<Rightarrow> bool) \<Rightarrow> bool" where
  "cell_step f i0 t x0 i1 C G \<longleftrightarrow> (\<forall>x res. row_ok x \<longrightarrow> cell x i1 = cell x0 i1 \<longrightarrow>
     (\<exists>y. f i1 (res, put_row i0 x t) = Inr (res \<or> C, put_row i0 y t) \<and> row_ok y
        \<and> (\<forall>j. j \<noteq> i1 \<longrightarrow> cell y j = cell x j) \<and> (\<forall>i2. rowmem y i1 i2 \<longleftrightarrow> G i2)))"

lemma cell_loop:
  assumes "row_ok x0" "\<And>i1. bit w i1 \<Longrightarrow> cell_step f i0 t x0 i1 (C i1) (G i1)"
  shows "\<exists>x. each_one f w (res, put_row i0 x0 t) = Inr (res \<or> (\<exists>i1. bit w i1 \<and> C i1), put_row i0 x t) \<and> row_ok x
    \<and> (\<forall>i1 i2. rowmem x i1 i2 \<longleftrightarrow> (if bit w i1 then G i1 i2 else rowmem x0 i1 i2))"
proof -
  let ?I = "\<lambda>D s. \<exists>x. s = (res \<or> (\<exists>i1\<in>D. C i1), put_row i0 x t) \<and> row_ok x \<and> (\<forall>j. j \<notin> D \<longrightarrow> cell x j = cell x0 j)
    \<and> (\<forall>i1\<in>D. \<forall>i2. rowmem x i1 i2 \<longleftrightarrow> G i1 i2)"
  have "\<exists>s'. rfold f (ones w) (res, put_row i0 x0 t) = Inr s' \<and> ?I (set (ones w)) s'"
  proof (rule rfold_inv0 [OF distinct_ones])
    fix D i1 s assume i1: "i1 \<in> set (ones w)" "i1 \<notin> D" and "?I D s"
    then obtain x where x: "s = (res \<or> (\<exists>i1\<in>D. C i1), put_row i0 x t)" "row_ok x" "\<forall>j. j \<notin> D \<longrightarrow> cell x j = cell x0 j"
      "\<forall>i1\<in>D. \<forall>i2. rowmem x i1 i2 \<longleftrightarrow> G i1 i2" by blast
    have "cell_step f i0 t x0 i1 (C i1) (G i1)" using assms(2) i1(1) by simp
    then obtain y where y: "f i1 s = Inr ((res \<or> (\<exists>i1\<in>D. C i1)) \<or> C i1, put_row i0 y t)" "row_ok y"
      "\<forall>j. j \<noteq> i1 \<longrightarrow> cell y j = cell x j" "\<forall>i2. rowmem y i1 i2 \<longleftrightarrow> G i1 i2"
      unfolding cell_step_def x(1) using x(2,3) i1(2) by meson
    have "\<forall>j\<in>D. \<forall>i2. rowmem y j i2 \<longleftrightarrow> G j i2" using x(4) y(3) rowmem_cell i1(2) by metis
    then have "?I (insert i1 D) ((res \<or> (\<exists>i1\<in>D. C i1)) \<or> C i1, put_row i0 y t)" using x(3) y by (intro exI [of _ y]) auto
    then show "\<exists>s'. f i1 s = Inr s' \<and> ?I (insert i1 D) s'" using y(1) by blast
  qed (rule exI [of _ x0], use assms(1) in simp)
  then obtain x where x: "rfold f (ones w) (res, put_row i0 x0 t) = Inr (res \<or> (\<exists>i1\<in>set (ones w). C i1), put_row i0 x t)" "row_ok x"
    "\<forall>j. j \<notin> set (ones w) \<longrightarrow> cell x j = cell x0 j" "\<forall>i1\<in>set (ones w). \<forall>i2. rowmem x i1 i2 \<longleftrightarrow> G i1 i2" by blast
  have "rowmem x i1 i2 \<longleftrightarrow> (if bit w i1 then G i1 i2 else rowmem x0 i1 i2)" for i1 i2
    using x(3,4) rowmem_cell [of x i1 x0 i2] by simp
  moreover have "each_one f w (res, put_row i0 x0 t) = Inr (res \<or> (\<exists>i1. bit w i1 \<and> C i1), put_row i0 x t)"
    using x(1) by (simp add: each_one_rfold Bex_def)
  ultimately show ?thesis using x(2) by blast
qed

text \<open>Reading and writing one cell of a vector whose row is \<open>x\<close>.\<close>

lemma cell_ops:
  assumes "tl_shape k t" "i0 < k" "length r = 64" "i1 < 64"
  shows "l1_at (put_row i0 (a, r) t) i0 = Inr a" "l2_at (put_row i0 (a, r) t) i0 i1 = Inr (r ! i1)"
    "set_l1 i0 w (put_row i0 (a, r) t) = Inr (put_row i0 (w, r) t)" "set_l2 i0 i1 w (put_row i0 (a, r) t) = Inr (put_row i0 (a, r[i1 := w]) t)"
proof -
  have "tl_shape k (put_row i0 (a, r) t)" using assms by simp
  note ops = array_ops [OF this assms(2)]
  show "l1_at (put_row i0 (a, r) t) i0 = Inr a" "l2_at (put_row i0 (a, r) t) i0 i1 = Inr (r ! i1)"
    "set_l1 i0 w (put_row i0 (a, r) t) = Inr (put_row i0 (w, r) t)" "set_l2 i0 i1 w (put_row i0 (a, r) t) = Inr (put_row i0 (a, r[i1 := w]) t)"
    using assms ops by simp_all
qed

subsection \<open>Union, intersection, difference\<close>

lemma word_or_eq: "(v OR w :: u64) = v \<longleftrightarrow> (\<forall>i. bit w i \<longrightarrow> bit v i)"
  by (metis bit_or_iff u64_eqI)

lemma word_and_eq: "(v AND w :: u64) = v \<longleftrightarrow> (\<forall>i. bit v i \<longrightarrow> bit w i)"
  by (metis bit_and_iff u64_eqI)

lemma word_andnot_eq: "(v AND NOT w :: u64) = v \<longleftrightarrow> (\<forall>i. bit v i \<longrightarrow> \<not> bit w i)"
  unfolding word_and_eq by (auto simp: bit_not_iff dest: bit_64D)

lemma bit_andnot: "bit (v AND NOT w :: u64) i \<longleftrightarrow> bit v i \<and> \<not> bit w i"
  by (auto simp: bit_and_iff bit_not_iff dest: bit_64D)

lemma union_cell:
  assumes "tl_shape k t" "tl_ok k v" "i0 < k" "row_of v i0 = (va, vr)" "bit va i1"
  shows "cell_step (union_at v i0) i0 t x0 i1 (\<exists>i2. rowmem (va, vr) i1 i2 \<and> \<not> rowmem x0 i1 i2)
    (\<lambda>i2. rowmem x0 i1 i2 \<or> rowmem (va, vr) i1 i2)"
  unfolding cell_step_def
proof (intro allI impI)
  fix x res assume x: "row_ok x" "cell x i1 = cell x0 i1"
  obtain a r where ar: "x = (a, r)" by fastforce
  have i: "i1 < 64" "length r = 64" using assms(5) x(1) ar by (auto simp: row_ok.simps dest: bit_64D)
  have v: "l2_at v i0 i1 = Inr (vr ! i1)" using array_ops(2) [OF tl_okD(1) [OF assms(2)] assms(3) i(1)] assms(4) by simp
  define old where "old = (if bit a i1 then r ! i1 else 0)"
  let ?y = "(a OR one_at i1, r[i1 := old OR vr ! i1])"
  have "vr ! i1 \<noteq> 0" using tl_okD(5) [OF assms(2,3)] assms(4,5) by (simp add: row_ok.simps)
  then have ok: "row_ok ?y" using x(1) ar i(1) by (intro row_ok_set) (auto simp: u64_eq_0 bit_or_iff)
  have o: "bit old i2 \<longleftrightarrow> rowmem x0 i1 i2" for i2 using rowmem_cell [OF x(2), of i2] ar by (auto simp: old_def rowmem.simps)
  have "union_at v i0 i1 (res, put_row i0 x t) = Inr (res \<or> old OR vr ! i1 \<noteq> old, put_row i0 ?y t)"
    using i v unfolding ar by (simp add: union_at_def cell_ops [OF assms(1,3)] bbv_setBit_eq bbv_clear_def bbv_setUnion_def old_def Let_def)
  moreover have "old OR vr ! i1 \<noteq> old \<longleftrightarrow> (\<exists>i2. rowmem (va, vr) i1 i2 \<and> \<not> rowmem x0 i1 i2)"
    using assms(5) unfolding word_or_eq o by (simp add: rowmem.simps)
  moreover have "cell ?y j = cell x j" if "j \<noteq> i1" for j using that i ar by (simp add: bit_set_one)
  moreover have "rowmem ?y i1 i2 \<longleftrightarrow> rowmem x0 i1 i2 \<or> rowmem (va, vr) i1 i2" for i2
    using i assms(5) o [of i2] by (simp add: rowmem.simps bit_set_one bit_or_iff)
  ultimately show "\<exists>y. union_at v i0 i1 (res, put_row i0 x t) = Inr (res \<or> (\<exists>i2. rowmem (va, vr) i1 i2 \<and> \<not> rowmem x0 i1 i2), put_row i0 y t) \<and> row_ok y
      \<and> (\<forall>j. j \<noteq> i1 \<longrightarrow> cell y j = cell x j) \<and> (\<forall>i2. rowmem y i1 i2 \<longleftrightarrow> rowmem x0 i1 i2 \<or> rowmem (va, vr) i1 i2)"
    using ok by (intro exI [of _ ?y]) auto
qed

text \<open>The two operations that take bits away share what they do to a cell.\<close>

lemma shrink_cell:
  assumes "tl_shape k t" "i0 < k" "row_ok x" "cell x i1 = cell x0 i1" "cell x0 i1 = (True, w0)"
    and b: "\<And>i2. bit b i2 \<longleftrightarrow> bit w0 i2 \<and> K i2"
  shows "\<exists>y. store_cell i0 i1 b (put_row i0 x t) = Inr (put_row i0 y t) \<and> row_ok y \<and> (\<forall>j. j \<noteq> i1 \<longrightarrow> cell y j = cell x j)
    \<and> (\<forall>i2. rowmem y i1 i2 \<longleftrightarrow> rowmem x0 i1 i2 \<and> K i2)"
proof -
  obtain a r where ar: "x = (a, r)" by fastforce
  have a: "bit a i1" "r ! i1 = w0" using assms(4,5) ar by simp_all
  have i: "i1 < 64" "length r = 64" using a(1) assms(3) ar by (auto simp: row_ok.simps dest: bit_64D)
  let ?y = "(if b = 0 then a AND NOT (one_at i1) else a, r[i1 := b])"
  have "row_ok ?y" using assms(3) i(1) unfolding ar by (rule row_ok_clear)
  moreover have "cell ?y j = cell x j" if "j \<noteq> i1" for j using that i ar by (simp add: bit_clear_one)
  moreover have "rowmem ?y i1 i2 \<longleftrightarrow> rowmem x0 i1 i2 \<and> K i2" for i2
  proof -
    have "rowmem x0 i1 i2 \<longleftrightarrow> bit w0 i2" using rowmem_cell [OF assms(4), of i2] ar a by (simp add: rowmem.simps)
    then show ?thesis using i a(1) b [of i2] by (auto simp: rowmem.simps bit_clear_one)
  qed
  moreover have "store_cell i0 i1 b (put_row i0 x t) = Inr (put_row i0 ?y t)"
    using i unfolding ar by (simp add: store_cell_def cell_ops [OF assms(1,2)] bbv_empty_def bbv_clearBit_eq)
  ultimately show ?thesis by blast
qed

lemma inter_cell:
  assumes "tl_shape k t" "tl_ok k v" "i0 < k" "row_of v i0 = (va, vr)" "bit va i1" "cell x0 i1 = (True, w0)"
  shows "cell_step (inter_at v i0) i0 t x0 i1 (\<exists>i2. rowmem x0 i1 i2 \<and> \<not> rowmem (va, vr) i1 i2) (\<lambda>i2. rowmem x0 i1 i2 \<and> rowmem (va, vr) i1 i2)"
  unfolding cell_step_def
proof (intro allI impI)
  fix x res assume x: "row_ok x" "cell x i1 = cell x0 i1"
  have i: "i1 < 64" "length (snd x) = 64" "snd x ! i1 = w0"
    using assms(5,6) x by (cases x; auto simp: row_ok.simps dest: bit_64D)+
  have v: "l2_at v i0 i1 = Inr (vr ! i1)" using array_ops(2) [OF tl_okD(1) [OF assms(2)] assms(3) i(1)] assms(4) by simp
  have m: "rowmem x0 i1 i2 \<longleftrightarrow> bit w0 i2" for i2 using assms(6) by (cases x0) (simp add: rowmem.simps)
  have "bit (w0 AND vr ! i1) i2 \<longleftrightarrow> bit w0 i2 \<and> rowmem (va, vr) i1 i2" for i2 using assms(5) by (simp add: rowmem.simps bit_and_iff)
  from shrink_cell [OF assms(1,3) x assms(6) this] obtain y where y: "store_cell i0 i1 (w0 AND vr ! i1) (put_row i0 x t) = Inr (put_row i0 y t)" "row_ok y"
    "\<forall>j. j \<noteq> i1 \<longrightarrow> cell y j = cell x j" "\<forall>i2. rowmem y i1 i2 \<longleftrightarrow> rowmem x0 i1 i2 \<and> rowmem (va, vr) i1 i2" by blast
  have "inter_at v i0 i1 (res, put_row i0 x t) = Inr (res \<or> w0 AND vr ! i1 \<noteq> w0, put_row i0 y t)"
    using i v y(1) cell_ops(2) [OF assms(1,3) i(2,1), of "fst x"] by (simp add: inter_at_def bbv_setIntersection_def Let_def)
  moreover have "w0 AND vr ! i1 \<noteq> w0 \<longleftrightarrow> (\<exists>i2. rowmem x0 i1 i2 \<and> \<not> rowmem (va, vr) i1 i2)"
    using assms(5) unfolding word_and_eq m by (simp add: rowmem.simps)
  ultimately show "\<exists>y. inter_at v i0 i1 (res, put_row i0 x t) = Inr (res \<or> (\<exists>i2. rowmem x0 i1 i2 \<and> \<not> rowmem (va, vr) i1 i2), put_row i0 y t) \<and> row_ok y
      \<and> (\<forall>j. j \<noteq> i1 \<longrightarrow> cell y j = cell x j) \<and> (\<forall>i2. rowmem y i1 i2 \<longleftrightarrow> rowmem x0 i1 i2 \<and> rowmem (va, vr) i1 i2)" using y(2-4) by (intro exI [of _ y]) simp
qed

lemma diff_cell:
  assumes "tl_shape k t" "tl_ok k v" "i0 < k" "row_of v i0 = (va, vr)" "bit va i1" "cell x0 i1 = (True, w0)"
  shows "cell_step (diff_at v i0) i0 t x0 i1 (\<exists>i2. rowmem x0 i1 i2 \<and> rowmem (va, vr) i1 i2) (\<lambda>i2. rowmem x0 i1 i2 \<and> \<not> rowmem (va, vr) i1 i2)"
  unfolding cell_step_def
proof (intro allI impI)
  fix x res assume x: "row_ok x" "cell x i1 = cell x0 i1"
  have i: "i1 < 64" "length (snd x) = 64" "snd x ! i1 = w0"
    using assms(5,6) x by (cases x; auto simp: row_ok.simps dest: bit_64D)+
  have v: "l2_at v i0 i1 = Inr (vr ! i1)" using array_ops(2) [OF tl_okD(1) [OF assms(2)] assms(3) i(1)] assms(4) by simp
  have m: "rowmem x0 i1 i2 \<longleftrightarrow> bit w0 i2" for i2 using assms(6) by (cases x0) (simp add: rowmem.simps)
  have "bit (w0 AND NOT (vr ! i1)) i2 \<longleftrightarrow> bit w0 i2 \<and> \<not> rowmem (va, vr) i1 i2" for i2 using assms(5) by (simp add: rowmem.simps bit_andnot)
  from shrink_cell [OF assms(1,3) x assms(6) this] obtain y where y: "store_cell i0 i1 (w0 AND NOT (vr ! i1)) (put_row i0 x t) = Inr (put_row i0 y t)" "row_ok y"
    "\<forall>j. j \<noteq> i1 \<longrightarrow> cell y j = cell x j" "\<forall>i2. rowmem y i1 i2 \<longleftrightarrow> rowmem x0 i1 i2 \<and> \<not> rowmem (va, vr) i1 i2" by blast
  have "diff_at v i0 i1 (res, put_row i0 x t) = Inr (res \<or> w0 AND NOT (vr ! i1) \<noteq> w0, put_row i0 y t)"
    using i v y(1) cell_ops(2) [OF assms(1,3) i(2,1), of "fst x"] by (simp add: diff_at_def bbv_setDifference_def Let_def)
  moreover have "w0 AND NOT (vr ! i1) \<noteq> w0 \<longleftrightarrow> (\<exists>i2. rowmem x0 i1 i2 \<and> rowmem (va, vr) i1 i2)"
    using assms(5) unfolding word_andnot_eq m by (simp add: rowmem.simps)
  ultimately show "\<exists>y. diff_at v i0 i1 (res, put_row i0 x t) = Inr (res \<or> (\<exists>i2. rowmem x0 i1 i2 \<and> rowmem (va, vr) i1 i2), put_row i0 y t) \<and> row_ok y
      \<and> (\<forall>j. j \<noteq> i1 \<longrightarrow> cell y j = cell x j) \<and> (\<forall>i2. rowmem y i1 i2 \<longleftrightarrow> rowmem x0 i1 i2 \<and> \<not> rowmem (va, vr) i1 i2)" using y(2-4) by (intro exI [of _ y]) simp
qed

lemma union_row:
  assumes "tl_ok k v"
  shows "row_step k (\<lambda>i0 s. rbind (l1_at v i0) (\<lambda>va. each_one (union_at v i0) va s))
    (\<lambda>i0 x i1 i2. rowmem x i1 i2 \<or> rowmem (row_of v i0) i1 i2) (\<lambda>i0 x. \<exists>i1 i2. rowmem (row_of v i0) i1 i2 \<and> \<not> rowmem x i1 i2)"
  unfolding row_step_def
proof (intro allI impI)
  fix i0 t res assume i0: "i0 < k" and t: "tl_ok k t"
  obtain va vr where v: "row_of v i0 = (va, vr)" by fastforce
  let ?C = "\<lambda>i1. \<exists>i2. rowmem (va, vr) i1 i2 \<and> \<not> rowmem (row_of t i0) i1 i2" and ?G = "\<lambda>i1 i2. rowmem (row_of t i0) i1 i2 \<or> rowmem (va, vr) i1 i2"
  from cell_loop [OF tl_okD(5) [OF t i0] union_cell [OF tl_okD(1) [OF t] assms i0 v], of va res]
  obtain x where x: "each_one (union_at v i0) va (res, t) = Inr (res \<or> (\<exists>i1. bit va i1 \<and> ?C i1), put_row i0 x t)" "row_ok x"
    "\<forall>i1 i2. rowmem x i1 i2 \<longleftrightarrow> (if bit va i1 then ?G i1 i2 else rowmem (row_of t i0) i1 i2)"
    using put_row_same [OF tl_okD(1) [OF t] i0] by auto
  have b: "rowmem (va, vr) i1 i2 \<Longrightarrow> bit va i1" for i1 i2 by (simp add: rowmem.simps)
  show "\<exists>x. rbind (l1_at v i0) (\<lambda>va. each_one (union_at v i0) va (res, t)) =
      Inr (res \<or> (\<exists>i1 i2. rowmem (row_of v i0) i1 i2 \<and> \<not> rowmem (row_of t i0) i1 i2), put_row i0 x t)
      \<and> row_ok x \<and> (\<forall>i1 i2. rowmem x i1 i2 \<longleftrightarrow> rowmem (row_of t i0) i1 i2 \<or> rowmem (row_of v i0) i1 i2)"
    using x b array_ops(1) [OF tl_okD(1) [OF assms] i0] unfolding v by (intro exI [of _ x]) auto
qed

lemma cell_bit: "cell x i1 = (bit (fst x) i1, snd x ! i1)"
  by (cases x) simp

lemma rowmem_bit: "rowmem x i1 i2 \<Longrightarrow> bit (fst x) i1"
  by (cases x) (simp add: rowmem.simps)

lemma row_used: "row_ok x \<Longrightarrow> bit (fst x) i1 \<Longrightarrow> \<exists>i2. rowmem x i1 i2"
  by (cases x) (auto simp: row_ok.simps rowmem.simps u64_eq_0)

lemma diff_row:
  assumes "tl_ok k v"
  shows "row_step k (\<lambda>i0 (res, t). rbind (l1_at t i0) (\<lambda>a. rbind (l1_at v i0) (\<lambda>va. each_one (diff_at v i0) (snd (bbv_setIntersection va a)) (res, t))))
    (\<lambda>i0 x i1 i2. rowmem x i1 i2 \<and> \<not> rowmem (row_of v i0) i1 i2) (\<lambda>i0 x. \<exists>i1 i2. rowmem x i1 i2 \<and> rowmem (row_of v i0) i1 i2)"
  unfolding row_step_def
proof (intro allI impI)
  fix i0 t res assume i0: "i0 < k" and t: "tl_ok k t"
  obtain va vr where v: "row_of v i0 = (va, vr)" by fastforce
  let ?x0 = "row_of t i0" and ?w = "fst (row_of t i0) AND va"
  let ?C = "\<lambda>i1. \<exists>i2. rowmem ?x0 i1 i2 \<and> rowmem (va, vr) i1 i2" and ?G = "\<lambda>i1 i2. rowmem ?x0 i1 i2 \<and> \<not> rowmem (va, vr) i1 i2"
  have step: "cell_step (diff_at v i0) i0 t ?x0 i1 (?C i1) (?G i1)" if "bit ?w i1" for i1
    by (rule diff_cell [OF tl_okD(1) [OF t] assms i0 v]) (use that in \<open>simp_all add: cell_bit bit_and_iff\<close>)
  from cell_loop [OF tl_okD(5) [OF t i0] step, of ?w res] obtain x where x:
    "each_one (diff_at v i0) ?w (res, t) = Inr (res \<or> (\<exists>i1. bit ?w i1 \<and> ?C i1), put_row i0 x t)" "row_ok x"
    "\<forall>i1 i2. rowmem x i1 i2 \<longleftrightarrow> (if bit ?w i1 then ?G i1 i2 else rowmem ?x0 i1 i2)"
    using put_row_same [OF tl_okD(1) [OF t] i0] by auto
  have b: "rowmem ?x0 i1 i2 \<Longrightarrow> rowmem (va, vr) i1 j2 \<Longrightarrow> bit ?w i1" for i1 i2 j2
    using rowmem_bit [of ?x0] rowmem_bit [of "(va, vr)"] by (simp add: bit_and_iff)
  have "(\<exists>i1. bit ?w i1 \<and> ?C i1) \<longleftrightarrow> (\<exists>i1 i2. rowmem ?x0 i1 i2 \<and> rowmem (row_of v i0) i1 i2)" using b unfolding v by blast
  moreover have "rowmem x i1 i2 \<longleftrightarrow> rowmem ?x0 i1 i2 \<and> \<not> rowmem (row_of v i0) i1 i2" for i1 i2 using x(3) b unfolding v by metis
  moreover have "(case (res, t) of (res, t) \<Rightarrow> rbind (l1_at t i0) (\<lambda>a. rbind (l1_at v i0) (\<lambda>va. each_one (diff_at v i0) (snd (bbv_setIntersection va a)) (res, t))))
      = each_one (diff_at v i0) ?w (res, t)"
    using array_ops(1) [OF tl_okD(1) [OF assms] i0] array_ops(1) [OF tl_okD(1) [OF t] i0] v by (simp add: bbv_setIntersection_def Let_def)
  ultimately show "\<exists>x. (case (res, t) of (res, t) \<Rightarrow> rbind (l1_at t i0) (\<lambda>a. rbind (l1_at v i0) (\<lambda>va. each_one (diff_at v i0) (snd (bbv_setIntersection va a)) (res, t))))
      = Inr (res \<or> (\<exists>i1 i2. rowmem ?x0 i1 i2 \<and> rowmem (row_of v i0) i1 i2), put_row i0 x t)
      \<and> row_ok x \<and> (\<forall>i1 i2. rowmem x i1 i2 \<longleftrightarrow> rowmem ?x0 i1 i2 \<and> \<not> rowmem (row_of v i0) i1 i2)"
    using x(1,2) by (intro exI [of _ x]) simp
qed

lemma inter_row:
  assumes "tl_ok k v"
  shows "row_step k (inter_body v) (\<lambda>i0 x i1 i2. rowmem x i1 i2 \<and> rowmem (row_of v i0) i1 i2)
    (\<lambda>i0 x. \<exists>i1 i2. rowmem x i1 i2 \<and> \<not> rowmem (row_of v i0) i1 i2)"
  unfolding row_step_def
proof (intro allI impI)
  fix i0 t res assume i0: "i0 < k" and t: "tl_ok k t"
  obtain va vr where v: "row_of v i0 = (va, vr)" by fastforce
  obtain a r where ar: "row_of t i0 = (a, r)" by fastforce
  let ?x0 = "(a, r)" and ?w = "a AND va"
  let ?x1 = "(?w, r)"
  have ok: "row_ok (a, r)" "row_ok ?x1" using tl_okD(5) [OF t i0] ar by (auto simp: row_ok.simps bit_and_iff)
  let ?C = "\<lambda>i1. \<exists>i2. rowmem ?x1 i1 i2 \<and> \<not> rowmem (va, vr) i1 i2" and ?G = "\<lambda>i1 i2. rowmem ?x1 i1 i2 \<and> rowmem (va, vr) i1 i2"
  have step: "cell_step (inter_at v i0) i0 t ?x1 i1 (?C i1) (?G i1)" if "bit ?w i1" for i1
    by (rule inter_cell [OF tl_okD(1) [OF t] assms i0 v]) (use that in \<open>simp_all add: cell_bit bit_and_iff\<close>)
  from cell_loop [OF ok(2) step, of ?w "res \<or> ?w \<noteq> a"] obtain x where x:
    "each_one (inter_at v i0) ?w (res \<or> ?w \<noteq> a, put_row i0 ?x1 t) = Inr ((res \<or> ?w \<noteq> a) \<or> (\<exists>i1. bit ?w i1 \<and> ?C i1), put_row i0 x t)" "row_ok x"
    "\<forall>i1 i2. rowmem x i1 i2 \<longleftrightarrow> (if bit ?w i1 then ?G i1 i2 else rowmem ?x1 i1 i2)" by auto
  have "inter_body v i0 (res, t) = each_one (inter_at v i0) ?w (res \<or> ?w \<noteq> a, put_row i0 ?x1 t)"
    using array_ops(1) [OF tl_okD(1) [OF assms] i0] array_ops(1,3) [OF tl_okD(1) [OF t] i0] v ar
    by (simp add: inter_body_def bbv_setIntersection_def Let_def bbv_empty_def each_one_rfold ones_def)
  moreover have "rowmem x i1 i2 \<longleftrightarrow> rowmem ?x0 i1 i2 \<and> rowmem (va, vr) i1 i2" for i1 i2
    using x(3) by (auto simp: rowmem.simps bit_and_iff)
  moreover have c: "?w \<noteq> a \<or> (\<exists>i1. bit ?w i1 \<and> ?C i1) \<longleftrightarrow> (\<exists>i1 i2. rowmem ?x0 i1 i2 \<and> \<not> rowmem (va, vr) i1 i2)"
    using row_used [OF ok(1)] unfolding word_and_eq by (auto simp: rowmem.simps bit_and_iff)
  note x(1) [unfolded disj_assoc c]
  ultimately show "\<exists>x. inter_body v i0 (res, t) = Inr (res \<or> (\<exists>i1 i2. rowmem (row_of t i0) i1 i2 \<and> \<not> rowmem (row_of v i0) i1 i2), put_row i0 x t)
      \<and> row_ok x \<and> (\<forall>i1 i2. rowmem x i1 i2 \<longleftrightarrow> rowmem (row_of t i0) i1 i2 \<and> rowmem (row_of v i0) i1 i2)"
    using x(2) unfolding v ar by (intro exI [of _ x]) simp
qed

subsection \<open>On sets\<close>

lemma in_tl_ex: "(\<exists>i0<k. \<exists>i1 i2. rowmem (row_of t i0) i1 i2 \<and> P i0 i1 i2) \<longleftrightarrow> (\<exists>y\<in>tl_set k t. P (p0 y) (p1 y) (p2 y))"
proof
  assume "\<exists>i0<k. \<exists>i1 i2. rowmem (row_of t i0) i1 i2 \<and> P i0 i1 i2"
  then obtain i0 i1 i2 where h: "i0 < k" "rowmem (row_of t i0) i1 i2" "P i0 i1 i2" by blast
  have "i1 < 64" "i2 < 64" using rowmem_less [OF h(2)] by simp_all
  then show "\<exists>y\<in>tl_set k t. P (p0 y) (p1 y) (p2 y)"
    using h by (intro bexI [of _ "i0 * 4096 + i1 * 64 + i2"]) (simp_all add: p_split in_tl_at tl_set_def)
next
  assume "\<exists>y\<in>tl_set k t. P (p0 y) (p1 y) (p2 y)"
  then show "\<exists>i0<k. \<exists>i1 i2. rowmem (row_of t i0) i1 i2 \<and> P i0 i1 i2" by (auto simp: tl_set_def in_tl_def)
qed

lemma in_tl_rowmem: "p0 y < k \<Longrightarrow> rowmem (row_of t (p0 y)) (p1 y) (p2 y) \<longleftrightarrow> y \<in> tl_set k t"
  by (simp add: tl_set_def in_tl_def)

lemma tl_set_less: "y \<in> tl_set k t \<Longrightarrow> p0 y < k"
  by (simp add: tl_set_def in_tl_def)

lemma ex_row_mem:
  "(\<exists>i0<k. \<exists>i1 i2. rowmem (row_of t i0) i1 i2 \<and> rowmem (row_of v i0) i1 i2) \<longleftrightarrow> (\<exists>y\<in>tl_set k t. y \<in> tl_set k v)"
  "(\<exists>i0<k. \<exists>i1 i2. rowmem (row_of t i0) i1 i2 \<and> \<not> rowmem (row_of v i0) i1 i2) \<longleftrightarrow> (\<exists>y\<in>tl_set k t. y \<notin> tl_set k v)"
  unfolding in_tl_ex by (metis in_tl_rowmem tl_set_less)+

lemma tl_setUnion_set:
  assumes "tl_ok k t" "tl_ok k v"
  shows "\<exists>t'. tl_setUnion v t = Inr (tl_set k t \<union> tl_set k v \<noteq> tl_set k t, t') \<and> tl_ok k t' \<and> tl_set k t' = tl_set k t \<union> tl_set k v"
proof -
  obtain t' where t': "tl_setUnion v t = Inr (\<exists>i0<k. \<exists>i1 i2. rowmem (row_of v i0) i1 i2 \<and> \<not> rowmem (row_of t i0) i1 i2, t')" "tl_ok k t'"
    "\<forall>y. in_tl k t' y \<longleftrightarrow> p0 y < k \<and> (rowmem (row_of t (p0 y)) (p1 y) (p2 y) \<or> rowmem (row_of v (p0 y)) (p1 y) (p2 y))"
    using row_loop [OF union_row [OF assms(2)] assms(1)] unfolding tl_setUnion_def by blast
  have "tl_set k t' = tl_set k t \<union> tl_set k v" using t'(3) by (auto simp: tl_set_def in_tl_def)
  moreover have "(\<exists>i0<k. \<exists>i1 i2. rowmem (row_of v i0) i1 i2 \<and> \<not> rowmem (row_of t i0) i1 i2) \<longleftrightarrow> tl_set k t \<union> tl_set k v \<noteq> tl_set k t"
    unfolding ex_row_mem by blast
  ultimately show ?thesis using t'(1,2) by simp
qed

lemma tl_setIntersection_set:
  assumes "tl_ok k t" "tl_ok k v"
  shows "\<exists>t'. tl_setIntersection v t = Inr (tl_set k t \<inter> tl_set k v \<noteq> tl_set k t, t') \<and> tl_ok k t' \<and> tl_set k t' = tl_set k t \<inter> tl_set k v"
proof -
  obtain t' where t': "tl_setIntersection v t = Inr (\<exists>i0<k. \<exists>i1 i2. rowmem (row_of t i0) i1 i2 \<and> \<not> rowmem (row_of v i0) i1 i2, t')" "tl_ok k t'"
    "\<forall>y. in_tl k t' y \<longleftrightarrow> p0 y < k \<and> (rowmem (row_of t (p0 y)) (p1 y) (p2 y) \<and> rowmem (row_of v (p0 y)) (p1 y) (p2 y))"
    using row_loop [OF inter_row [OF assms(2)] assms(1)] unfolding tl_setIntersection_def by blast
  have "tl_set k t' = tl_set k t \<inter> tl_set k v" using t'(3) by (auto simp: tl_set_def in_tl_def)
  moreover have "(\<exists>i0<k. \<exists>i1 i2. rowmem (row_of t i0) i1 i2 \<and> \<not> rowmem (row_of v i0) i1 i2) \<longleftrightarrow> tl_set k t \<inter> tl_set k v \<noteq> tl_set k t"
    unfolding ex_row_mem by blast
  ultimately show ?thesis using t'(1,2) by simp
qed

lemma tl_setDifference_set:
  assumes "tl_ok k t" "tl_ok k v"
  shows "\<exists>t'. tl_setDifference v t = Inr (tl_set k t - tl_set k v \<noteq> tl_set k t, t') \<and> tl_ok k t' \<and> tl_set k t' = tl_set k t - tl_set k v"
proof -
  obtain t' where t': "tl_setDifference v t = Inr (\<exists>i0<k. \<exists>i1 i2. rowmem (row_of t i0) i1 i2 \<and> rowmem (row_of v i0) i1 i2, t')" "tl_ok k t'"
    "\<forall>y. in_tl k t' y \<longleftrightarrow> p0 y < k \<and> (rowmem (row_of t (p0 y)) (p1 y) (p2 y) \<and> \<not> rowmem (row_of v (p0 y)) (p1 y) (p2 y))"
    using row_loop [OF diff_row [OF assms(2)] assms(1)] unfolding tl_setDifference_def by blast
  have "tl_set k t' = tl_set k t - tl_set k v" using t'(3) by (auto simp: tl_set_def in_tl_def)
  moreover have "(\<exists>i0<k. \<exists>i1 i2. rowmem (row_of t i0) i1 i2 \<and> rowmem (row_of v i0) i1 i2) \<longleftrightarrow> tl_set k t - tl_set k v \<noteq> tl_set k t"
    unfolding ex_row_mem by blast
  ultimately show ?thesis using t'(1,2) by simp
qed

lemma tl_copyFrom_set:
  assumes "tl_shape k t" "tl_ok k v"
  shows "\<exists>t'. tl_copyFrom v t = Inr t' \<and> tl_ok k t' \<and> tl_set k t' = tl_set k v"
  using tl_setUnion_set [OF tl_clear_set [OF assms(1), THEN conjunct1] assms(2)] tl_clear_set [OF assms(1)] by (auto simp: tl_copyFrom_def)

lemma tl_intersectsWith_set:
  assumes "tl_ok k t" "tl_ok k v"
  shows "tl_intersectsWith v t = Inr (tl_set k t \<inter> tl_set k v \<noteq> {})"
proof -
  have w: "l2_at v i0 i1 = Inr (snd (row_of v i0) ! i1)" "l2_at t i0 i1 = Inr (snd (row_of t i0) ! i1)"
    "l1_at v i0 = Inr (fst (row_of v i0))" "l1_at t i0 = Inr (fst (row_of t i0))" if "i0 < k" "i1 < 64" for i0 i1
    using that array_ops [OF tl_okD(1) [OF assms(1)]] array_ops [OF tl_okD(1) [OF assms(2)]] by simp_all
  define body where "body = (\<lambda>i0. rbind (l1_at t i0) (\<lambda>a. rbind (l1_at v i0) (\<lambda>va.
       any_one (\<lambda>i1. rbind (bbv_getBit i1 va) (\<lambda>g.
         if \<not> g then Inr False
         else rbind (l2_at t i0 i1) (\<lambda>b. rbind (l2_at v i0 i1) (\<lambda>vb. Inr (bbv_intersectsWith vb b)))))
       (snd (bbv_setIntersection va a)))))"
  have "body i0 = Inr (\<exists>i1 i2. rowmem (row_of t i0) i1 i2 \<and> rowmem (row_of v i0) i1 i2)" if i0: "i0 < k" for i0
  proof -
    let ?w = "fst (row_of t i0) AND fst (row_of v i0)"
    let ?f = "\<lambda>i1. rbind (bbv_getBit i1 (fst (row_of v i0))) (\<lambda>g. if \<not> g then Inr False
         else rbind (l2_at t i0 i1) (\<lambda>b. rbind (l2_at v i0 i1) (\<lambda>vb. Inr (bbv_intersectsWith vb b))))"
    have m: "rowmem x i1 i2 \<longleftrightarrow> bit (fst x) i1 \<and> bit (snd x ! i1) i2" for x i1 i2 by (cases x) (simp add: rowmem.simps)
    have "?f i1 = Inr (\<exists>i2. rowmem (row_of t i0) i1 i2 \<and> rowmem (row_of v i0) i1 i2)" if "i1 \<in> set (ones ?w)" for i1
      using that w [OF i0, of i1] bit_64D [of ?w i1] by (auto simp: bbv_getBit_eq bit_and_iff bbv_intersectsWith_def u64_eq_0 m)
    then have "rany ?f (ones ?w) = Inr (\<exists>i1\<in>set (ones ?w). \<exists>i2. rowmem (row_of t i0) i1 i2 \<and> rowmem (row_of v i0) i1 i2)" by (rule rany_eq)
    moreover have "(\<exists>i1\<in>set (ones ?w). \<exists>i2. rowmem (row_of t i0) i1 i2 \<and> rowmem (row_of v i0) i1 i2)
        \<longleftrightarrow> (\<exists>i1 i2. rowmem (row_of t i0) i1 i2 \<and> rowmem (row_of v i0) i1 i2)" by (auto simp: m bit_and_iff)
    moreover have "body i0 = rany ?f (ones ?w)" using w(3,4) [OF i0, of 0] by (simp add: body_def any_one_rany bbv_setIntersection_def Let_def)
    ultimately show ?thesis by simp
  qed
  then have "rany body [0..<k] = Inr (\<exists>i0\<in>set [0..<k]. \<exists>i1 i2. rowmem (row_of t i0) i1 i2 \<and> rowmem (row_of v i0) i1 i2)"
    by (intro rany_eq) simp
  moreover have "(\<exists>i0\<in>set [0..<k]. \<exists>i1 i2. rowmem (row_of t i0) i1 i2 \<and> rowmem (row_of v i0) i1 i2)
      \<longleftrightarrow> (\<exists>i0<k. \<exists>i1 i2. rowmem (row_of t i0) i1 i2 \<and> rowmem (row_of v i0) i1 i2)" by (simp only: set_upt atLeast0LessThan Bex_def lessThan_iff)
  moreover have "(\<exists>i0<k. \<exists>i1 i2. rowmem (row_of t i0) i1 i2 \<and> rowmem (row_of v i0) i1 i2) \<longleftrightarrow> tl_set k t \<inter> tl_set k v \<noteq> {}"
    unfolding ex_row_mem by blast
  ultimately show ?thesis using tl_okD(2) [OF assms(1)] by (simp add: tl_intersectsWith_def body_def [symmetric] kLevel1Size_def)
qed

section \<open>Iterators\<close>

lemma ones_0 [simp]: "ones 0 = []"
  by (simp only: ones_Nil)

text \<open>What an iterator over a two-level vector still has to deliver.\<close>

definition cells :: "TwoLevelBitVector \<Rightarrow> nat \<Rightarrow> nat list \<Rightarrow> nat list" where
  "cells bv i0 js = concat (map (\<lambda>i1. map (\<lambda>i2. i0 * 4096 + i1 * 64 + i2) (ones (snd (row_of bv i0) ! i1))) js)"

definition rows_from :: "TwoLevelBitVector \<Rightarrow> nat \<Rightarrow> nat list" where
  "rows_from bv i0 = concat (map (\<lambda>i. cells bv i (ones (fst (row_of bv i)))) [i0..<kLevel1Size bv])"

definition it_left :: "tl_Iterator \<Rightarrow> nat list" where
  "it_left it = map (\<lambda>i2. it_i0 it * 4096 + it_i1 it * 64 + i2) (ones (it_2 it)) @ cells (it_bv it) (it_i0 it) (ones (it_1 it))
     @ rows_from (it_bv it) (if it_1 it = 0 \<and> it_2 it = 0 then it_i0 it else Suc (it_i0 it))"

definition it_ok :: "nat \<Rightarrow> tl_Iterator \<Rightarrow> bool" where
  "it_ok k it \<longleftrightarrow> tl_ok k (it_bv it) \<and> (it_1 it \<noteq> 0 \<or> it_2 it \<noteq> 0 \<longrightarrow> it_i0 it < k \<and> fst (row_of (it_bv it) (it_i0 it)) \<noteq> 0)
     \<and> (\<forall>j. bit (it_1 it) j \<longrightarrow> bit (fst (row_of (it_bv it) (it_i0 it))) j)"

lemma cells_simps [simp]:
  "cells bv i0 [] = []"
  "cells bv i0 (i1 # js) = map (\<lambda>i2. i0 * 4096 + i1 * 64 + i2) (ones (snd (row_of bv i0) ! i1)) @ cells bv i0 js"
  by (simp_all add: cells_def)

lemma rows_from_step:
  "i0 < kLevel1Size bv \<Longrightarrow> rows_from bv i0 = cells bv i0 (ones (fst (row_of bv i0))) @ rows_from bv (Suc i0)"
  "kLevel1Size bv \<le> i0 \<Longrightarrow> rows_from bv i0 = []"
  by (simp_all add: rows_from_def upt_conv_Cons)

lemma word_below: "row_ok x \<Longrightarrow> bit (fst x) j \<Longrightarrow> snd x ! j \<noteq> 0"
  by (cases x) (simp add: row_ok.simps)

lemma cells_Nil:
  assumes "tl_ok k bv" "i0 < k" "\<And>j. bit w j \<Longrightarrow> bit (fst (row_of bv i0)) j"
  shows "cells bv i0 (ones w) = [] \<longleftrightarrow> w = 0"
proof -
  have "snd (row_of bv i0) ! j \<noteq> 0" if "j \<in> set (ones w)" for j
    using word_below [OF tl_okD(5) [OF assms(1,2)]] assms(3) that by simp
  then show ?thesis using u64_eq_0 [of w] by (auto simp: cells_def)
qed

lemma rows_from_Nil:
  assumes "tl_ok k bv"
  shows "rows_from bv i0 = [] \<longleftrightarrow> (\<forall>a\<in>set (drop i0 (tl_l1 bv)). a = 0)"
proof -
  have k: "kLevel1Size bv = k" "length (tl_l1 bv) = k" using tl_okD(2) [OF assms] by (simp_all add: kLevel1Size_def)
  have "rows_from bv i0 = [] \<longleftrightarrow> (\<forall>i\<in>set [i0..<k]. fst (row_of bv i) = 0)"
    using cells_Nil [OF assms] k by (auto simp: rows_from_def)
  also have "\<dots> \<longleftrightarrow> (\<forall>a\<in>set (drop i0 (tl_l1 bv)). a = 0)"
    using k(2) by (force simp: row_of_def set_conv_nth)
  finally show ?thesis .
qed

lemma set_cells: "set (cells bv i0 js) = {i0 * 4096 + i1 * 64 + i2 | i1 i2. i1 \<in> set js \<and> bit (snd (row_of bv i0) ! i1) i2}"
  by (auto simp: cells_def)

lemma it_start:
  assumes "tl_ok k bv"
  shows "it_ok k (tl_iter bv)" "set (it_left (tl_iter bv)) = tl_set k bv"
proof -
  have k: "kLevel1Size bv = k" using tl_okD(2) [OF assms] by (simp add: kLevel1Size_def)
  show "it_ok k (tl_iter bv)" using assms by (simp add: it_ok_def tl_iter_def)
  have m: "rowmem x i1 i2 \<longleftrightarrow> bit (fst x) i1 \<and> bit (snd x ! i1) i2" for x i1 i2 by (cases x) (simp add: rowmem.simps)
  have "set (it_left (tl_iter bv)) = {i0 * 4096 + i1 * 64 + i2 | i0 i1 i2. i0 < k \<and> rowmem (row_of bv i0) i1 i2}"
  proof -
    have "set (it_left (tl_iter bv)) = (\<Union>i0\<in>{0..<k}. set (cells bv i0 (ones (fst (row_of bv i0)))))"
      using k by (simp add: it_left_def tl_iter_def rows_from_def)
    also have "\<dots> = {i0 * 4096 + i1 * 64 + i2 | i0 i1 i2. i0 < k \<and> rowmem (row_of bv i0) i1 i2}"
      unfolding set_cells set_ones m atLeast0LessThan by blast
    finally show ?thesis .
  qed
  also have "\<dots> = tl_set k bv"
  proof (intro set_eqI iffI)
    fix y assume "y \<in> tl_set k bv"
    then show "y \<in> {i0 * 4096 + i1 * 64 + i2 | i0 i1 i2. i0 < k \<and> rowmem (row_of bv i0) i1 i2}"
      using p_join [of y] by (force simp: tl_set_def in_tl_def)
  qed (use rowmem_less in \<open>fastforce simp: tl_set_def in_tl_at\<close>)
  finally show "set (it_left (tl_iter bv)) = tl_set k bv" .
qed

lemma it_hasNext:
  assumes "it_ok k it"
  shows "tl_hasNext it \<longleftrightarrow> it_left it \<noteq> []"
proof -
  have bv: "tl_ok k (it_bv it)" using assms by (simp add: it_ok_def)
  have k: "length (tl_l1 (it_bv it)) = k" using tl_okD(2) [OF bv] .
  consider "it_1 it \<noteq> 0" | "it_1 it = 0" "it_2 it \<noteq> 0" | "it_1 it = 0" "it_2 it = 0" by blast
  then show ?thesis
  proof cases
    case 1
    then show ?thesis using assms cells_Nil [OF bv, of "it_i0 it" "it_1 it"] by (auto simp: it_ok_def tl_hasNext_def it_left_def bit_hasNext_def bbv_empty_def)
  next
    case 2
    then have "it_i0 it < k" "tl_l1 (it_bv it) ! it_i0 it \<noteq> 0" using assms by (auto simp: it_ok_def row_of_def)
    then have "\<exists>a\<in>set (drop (it_i0 it) (tl_l1 (it_bv it))). a \<noteq> 0" using k by (metis Cons_nth_drop_Suc list.set_intros(1))
    then show ?thesis using 2 by (auto simp: tl_hasNext_def it_left_def bbv_empty_def)
  next
    case 3
    then show ?thesis using rows_from_Nil [OF bv, of "it_i0 it"] by (simp add: tl_hasNext_def it_left_def bit_hasNext_def bbv_empty_def)
  qed
qed

text \<open>One step of the search for the next row, and the three phases of \<^verbatim>\<open>next\<close>.\<close>

lemma next_row_found:
  assumes "tl_ok k (it_bv it)" "it_1 it = 0" "it_2 it = 0" "rows_from (it_bv it) (it_i0 it) \<noteq> []"
  shows "\<exists>it'. next_row it (drop (it_i0 it) (tl_l1 (it_bv it))) = it' \<and> it_ok k it' \<and> it_left it' = it_left it \<and> it_1 it' \<noteq> 0 \<and> it_2 it' = 0"
  using assms
proof (induction "k - it_i0 it" arbitrary: it)
  case 0
  then have "rows_from (it_bv it) (it_i0 it) = []" using rows_from_step(2) [of "it_bv it" "it_i0 it"] tl_okD(2) [OF 0(2)] by (simp add: kLevel1Size_def)
  then show ?case using 0(5) by simp
next
  case (Suc n)
  let ?bv = "it_bv it" and ?i = "it_i0 it"
  have k: "length (tl_l1 ?bv) = k" "?i < k" "kLevel1Size ?bv = k" using Suc(2) tl_okD(2) [OF Suc(3)] by (simp_all add: kLevel1Size_def)
  have d: "drop ?i (tl_l1 ?bv) = tl_l1 ?bv ! ?i # drop (Suc ?i) (tl_l1 ?bv)" using k by (simp add: Cons_nth_drop_Suc)
  have r: "rows_from ?bv ?i = cells ?bv ?i (ones (tl_l1 ?bv ! ?i)) @ rows_from ?bv (Suc ?i)" using rows_from_step(1) k by (simp add: row_of_def)
  show ?case
  proof (cases "tl_l1 ?bv ! ?i = 0")
    case True
    let ?it = "it\<lparr>it_i0 := Suc ?i\<rparr>"
    have "it_left ?it = it_left it" using True r Suc(4,5) by (simp add: it_left_def)
    moreover have "n = k - it_i0 ?it" "rows_from (it_bv ?it) (it_i0 ?it) \<noteq> []" using Suc(2,6) r True by simp_all
    ultimately show ?thesis using Suc(1) [of ?it] Suc(3-5) d True by (simp add: bbv_empty_def)
  next
    case False
    let ?it = "it\<lparr>it_1 := tl_l1 ?bv ! ?i\<rparr>"
    have "it_left ?it = it_left it" using False r Suc(4,5) by (simp add: it_left_def)
    moreover have "it_ok k ?it" using Suc(3) False k(2) by (simp add: it_ok_def row_of_def)
    ultimately show ?thesis using d False Suc(5) by (simp add: bbv_empty_def bit_iter_def)
  qed
qed

lemma it_load_word:
  assumes "it_ok k it" "it_1 it \<noteq> 0" "it_2 it = 0"
  shows "\<exists>i1 i b. bit_next (it_1 it) = Inr (i1, i) \<and> l2_at (it_bv it) (it_i0 it) i1 = Inr b \<and> b \<noteq> 0
    \<and> it_ok k (it\<lparr>it_1 := i, it_i1 := i1, it_2 := b\<rparr>) \<and> it_left (it\<lparr>it_1 := i, it_i1 := i1, it_2 := b\<rparr>) = it_left it"
proof -
  obtain i1 js where o: "ones (it_1 it) = i1 # js" using assms(2) by (metis list.exhaust ones_Nil)
  let ?i = "it_1 it AND NOT (one_at i1)" and ?row = "row_of (it_bv it) (it_i0 it)"
  have bv: "tl_ok k (it_bv it)" "it_i0 it < k" using assms by (simp_all add: it_ok_def)
  have b: "bit (it_1 it) i1" "i1 < 64" using ones_ConsD [OF o] by simp_all
  then have "bit (fst ?row) i1" using assms(1) by (simp add: it_ok_def)
  then have n: "snd ?row ! i1 \<noteq> 0" using word_below [OF tl_okD(5) [OF bv]] by simp
  have "l2_at (it_bv it) (it_i0 it) i1 = Inr (snd ?row ! i1)" using array_ops(2) [OF tl_okD(1) [OF bv(1)] bv(2) b(2)] .
  moreover have "it_left (it\<lparr>it_1 := ?i, it_i1 := i1, it_2 := snd ?row ! i1\<rparr>) = it_left it"
    using assms(2,3) o ones_clear_first [OF o] n by (simp add: it_left_def)
  moreover have "it_ok k (it\<lparr>it_1 := ?i, it_i1 := i1, it_2 := snd ?row ! i1\<rparr>)" using assms(1,2) by (simp add: it_ok_def bit_clear_one)
  ultimately show ?thesis using n bbv_first_eq [OF o] unfolding bit_next_def by blast
qed

lemma it_next:
  assumes "it_ok k it" "it_left it = y # ys"
  shows "\<exists>it'. tl_next it = Inr (y, it') \<and> it_ok k it' \<and> it_left it' = ys"
proof -
  define it1 where "it1 = (if \<not> bit_hasNext (it_1 it) \<and> \<not> bit_hasNext (it_2 it) then next_row it (drop (it_i0 it) (tl_l1 (it_bv it))) else it)"
  have "it_ok k it1 \<and> it_left it1 = y # ys \<and> (it_2 it1 = 0 \<longrightarrow> it_1 it1 \<noteq> 0)"
  proof (cases "it_1 it = 0 \<and> it_2 it = 0")
    case True
    then have "rows_from (it_bv it) (it_i0 it) \<noteq> []" using assms(2) by (simp add: it_left_def)
    then show ?thesis using next_row_found [of k it] True assms by (auto simp: it1_def it_ok_def bit_hasNext_def bbv_empty_def)
  next
    case False
    then have "it1 = it" by (auto simp: it1_def bit_hasNext_def bbv_empty_def)
    then show ?thesis using assms False by auto
  qed
  then have s1: "it_ok k it1" "it_left it1 = y # ys" "it_2 it1 = 0 \<Longrightarrow> it_1 it1 \<noteq> 0" by simp_all
  define r2 where "r2 = (if \<not> bit_hasNext (it_2 it1) then
               rbind (check (bit_hasNext (it_1 it1))) (\<lambda>_. rbind (bit_next (it_1 it1)) (\<lambda>(i1, i).
               rbind (l2_at (it_bv it1) (it_i0 it1) i1) (\<lambda>b. Inr (it1\<lparr>it_1 := i, it_i1 := i1, it_2 := bit_iter b\<rparr>))))
             else Inr it1)"
  obtain it2 where s2: "r2 = Inr it2" "it_ok k it2" "it_left it2 = y # ys" "it_2 it2 \<noteq> 0"
  proof (cases "it_2 it1 = 0")
    case True
    from it_load_word [OF s1(1) s1(3) [OF True] True] obtain i1 i b where
      l: "bit_next (it_1 it1) = Inr (i1, i)" "l2_at (it_bv it1) (it_i0 it1) i1 = Inr b" "b \<noteq> 0"
        "it_ok k (it1\<lparr>it_1 := i, it_i1 := i1, it_2 := b\<rparr>)" "it_left (it1\<lparr>it_1 := i, it_i1 := i1, it_2 := b\<rparr>) = y # ys"
      using s1(2) by auto
    then show ?thesis
      using True s1(3) that [of "it1\<lparr>it_1 := i, it_i1 := i1, it_2 := b\<rparr>"] by (simp add: r2_def bit_hasNext_def bbv_empty_def bit_iter_def)
  qed (use s1 that in \<open>simp add: r2_def bit_hasNext_def bbv_empty_def\<close>)
  obtain i2 js where o: "ones (it_2 it2) = i2 # js" using s2(4) by (metis list.exhaust ones_Nil)
  let ?i = "it_2 it2 AND NOT (one_at i2)"
  let ?it3 = "it2\<lparr>it_2 := ?i\<rparr>"
  let ?it' = "if \<not> bit_hasNext (it_1 ?it3) \<and> \<not> bit_hasNext (it_2 ?it3) then ?it3\<lparr>it_i0 := Suc (it_i0 ?it3)\<rparr> else ?it3"
  have y: "it_i0 it2 * 4096 + it_i1 it2 * 64 + i2 = y"
    "map (\<lambda>i2. it_i0 it2 * 4096 + it_i1 it2 * 64 + i2) js @ cells (it_bv it2) (it_i0 it2) (ones (it_1 it2)) @ rows_from (it_bv it2) (Suc (it_i0 it2)) = ys"
    using s2(3,4) o by (simp_all add: it_left_def)
  have "tl_next it = Inr (y, ?it')"
    unfolding tl_next_def Let_def it1_def [symmetric] r2_def [symmetric]
    using s2(1,4) bbv_first_eq [OF o] y(1) by (simp add: bit_hasNext_def bbv_empty_def bit_next_def bbv_kSize_def)
  moreover have "it_ok k ?it'" using s2(2,4) by (auto simp: it_ok_def bit_hasNext_def bbv_empty_def)
  moreover have "it_left ?it' = ys" using y(2) ones_clear_first [OF o] by (auto simp: it_left_def bit_hasNext_def bbv_empty_def)
  ultimately show ?thesis by blast
qed

section \<open>What the users rely on\<close>

text \<open>The members of a bit vector, as the templates over it use them.\<close>

record ('b, 'i) bv_ops =
  bv_size :: nat
  bv_clear :: "'b \<Rightarrow> 'b"
  bv_setAll :: "'b \<Rightarrow> 'b"
  bv_empty :: "'b \<Rightarrow> bool"
  bv_setBit :: "nat \<Rightarrow> 'b \<Rightarrow> (bool \<times> 'b) res"
  bv_clearBit :: "nat \<Rightarrow> 'b \<Rightarrow> (bool \<times> 'b) res"
  bv_getBit :: "nat \<Rightarrow> 'b \<Rightarrow> bool res"
  bv_getAndClearFirstOne :: "'b \<Rightarrow> (nat \<times> 'b) res"
  bv_setUnion :: "'b \<Rightarrow> 'b \<Rightarrow> (bool \<times> 'b) res"
  bv_setIntersection :: "'b \<Rightarrow> 'b \<Rightarrow> (bool \<times> 'b) res"
  bv_setDifference :: "'b \<Rightarrow> 'b \<Rightarrow> (bool \<times> 'b) res"
  bv_copyFrom :: "'b \<Rightarrow> 'b \<Rightarrow> 'b res"
  bv_intersectsWith :: "'b \<Rightarrow> 'b \<Rightarrow> bool res"
  bv_Iterator :: "'b \<Rightarrow> 'i"
  bv_hasNext :: "'i \<Rightarrow> bool"
  bv_next :: "'i \<Rightarrow> (nat \<times> 'i) res"

text \<open>
  \<open>shape\<close> is what holds of the memory before anything has been stored (there is no constructor),
  \<open>ok\<close> what every operation keeps, \<open>S\<close> the set a vector stands for, and \<open>rem\<close> the numbers an iterator
  in a state \<open>iok\<close> has not delivered.
\<close>

locale bitvector =
  fixes B :: "('b, 'i) bv_ops" and shape ok :: "'b \<Rightarrow> bool" and S :: "'b \<Rightarrow> nat set"
    and iok :: "'i \<Rightarrow> bool" and rem :: "'i \<Rightarrow> nat list"
  assumes ok_shape: "ok b \<Longrightarrow> shape b"
    and bound: "ok b \<Longrightarrow> S b \<subseteq> {..<bv_size B}"
    and clear: "shape b \<Longrightarrow> ok (bv_clear B b) \<and> S (bv_clear B b) = {}"
    and setAll: "shape b \<Longrightarrow> ok (bv_setAll B b) \<and> S (bv_setAll B b) = {..<bv_size B}"
    and empty: "ok b \<Longrightarrow> bv_empty B b \<longleftrightarrow> S b = {}"
    and setBit: "ok b \<Longrightarrow> i < bv_size B \<Longrightarrow> \<exists>b'. bv_setBit B i b = Inr (i \<notin> S b, b') \<and> ok b' \<and> S b' = insert i (S b)"
    and clearBit: "ok b \<Longrightarrow> i < bv_size B \<Longrightarrow> \<exists>b'. bv_clearBit B i b = Inr (i \<in> S b, b') \<and> ok b' \<and> S b' = S b - {i}"
    and getBit: "ok b \<Longrightarrow> i < bv_size B \<Longrightarrow> bv_getBit B i b = Inr (i \<in> S b)"
    and first: "ok b \<Longrightarrow> S b \<noteq> {} \<Longrightarrow> \<exists>b'. bv_getAndClearFirstOne B b = Inr (Min (S b), b') \<and> ok b' \<and> S b' = S b - {Min (S b)}"
    and setUnion: "ok b \<Longrightarrow> ok v \<Longrightarrow> \<exists>b'. bv_setUnion B v b = Inr (S b \<union> S v \<noteq> S b, b') \<and> ok b' \<and> S b' = S b \<union> S v"
    and setIntersection: "ok b \<Longrightarrow> ok v \<Longrightarrow> \<exists>b'. bv_setIntersection B v b = Inr (S b \<inter> S v \<noteq> S b, b') \<and> ok b' \<and> S b' = S b \<inter> S v"
    and setDifference: "ok b \<Longrightarrow> ok v \<Longrightarrow> \<exists>b'. bv_setDifference B v b = Inr (S b - S v \<noteq> S b, b') \<and> ok b' \<and> S b' = S b - S v"
    and copyFrom: "shape b \<Longrightarrow> ok v \<Longrightarrow> \<exists>b'. bv_copyFrom B v b = Inr b' \<and> ok b' \<and> S b' = S v"
    and intersectsWith: "ok b \<Longrightarrow> ok v \<Longrightarrow> bv_intersectsWith B v b = Inr (S b \<inter> S v \<noteq> {})"
    and iter: "ok b \<Longrightarrow> iok (bv_Iterator B b) \<and> set (rem (bv_Iterator B b)) = S b"
    and hasNext: "iok it \<Longrightarrow> bv_hasNext B it \<longleftrightarrow> rem it \<noteq> []"
    and iter_next: "iok it \<Longrightarrow> rem it = x # xs \<Longrightarrow> \<exists>it'. bv_next B it = Inr (x, it') \<and> iok it' \<and> rem it' = xs"
begin

lemma finite_S: "ok b \<Longrightarrow> finite (S b)"
  using bound finite_subset by blast

end

definition BasicBitVector :: "(bbv, bbv) bv_ops" where
  "BasicBitVector =
     \<lparr>bv_size = bbv_kSize, bv_clear = bbv_clear, bv_setAll = bbv_setAll, bv_empty = bbv_empty, bv_setBit = bbv_setBit,
      bv_clearBit = bbv_clearBit, bv_getBit = bbv_getBit, bv_getAndClearFirstOne = bbv_getAndClearFirstOne,
      bv_setUnion = (\<lambda>v b. Inr (bbv_setUnion v b)), bv_setIntersection = (\<lambda>v b. Inr (bbv_setIntersection v b)),
      bv_setDifference = (\<lambda>v b. Inr (bbv_setDifference v b)), bv_copyFrom = (\<lambda>v b. Inr (bbv_copyFrom v b)),
      bv_intersectsWith = (\<lambda>v b. Inr (bbv_intersectsWith v b)), bv_Iterator = bit_iter, bv_hasNext = bit_hasNext, bv_next = bit_next\<rparr>"

text \<open>\<^verbatim>\<open>TwoLevelBitVector<k>\<close>; the deadlock detector uses \<^verbatim>\<open>TwoLevelBitVector<>\<close>, with \<open>k\<close> = 1.\<close>

definition TwoLevel :: "nat \<Rightarrow> (TwoLevelBitVector, tl_Iterator) bv_ops" where
  "TwoLevel k =
     \<lparr>bv_size = bbv_kSize * bbv_kSize * k, bv_clear = tl_clear, bv_setAll = tl_setAll, bv_empty = tl_empty, bv_setBit = tl_setBit,
      bv_clearBit = tl_clearBit, bv_getBit = tl_getBit, bv_getAndClearFirstOne = tl_getAndClearFirstOne,
      bv_setUnion = tl_setUnion, bv_setIntersection = tl_setIntersection, bv_setDifference = tl_setDifference, bv_copyFrom = tl_copyFrom,
      bv_intersectsWith = tl_intersectsWith, bv_Iterator = tl_iter, bv_hasNext = tl_hasNext, bv_next = tl_next\<rparr>"

lemma TwoLevel_size: "bv_size (TwoLevel k) = 4096 * k"
  by (simp add: TwoLevel_def bbv_kSize_def)

interpretation two_level: bitvector "TwoLevel k" "tl_shape k" "tl_ok k" "tl_set k" "it_ok k" it_left for k
proof (unfold_locales, goal_cases)
  case (6 b i) then show ?case using tl_setBit_set by (simp add: TwoLevel_size) (simp add: TwoLevel_def)
next
  case (7 b i) then show ?case using tl_clearBit_set by (simp add: TwoLevel_size) (simp add: TwoLevel_def)
next
  case (8 b i) then show ?case using tl_getBit_set by (simp add: TwoLevel_size) (simp add: TwoLevel_def)
next
  case (9 b) then show ?case using tl_first_set by (simp add: TwoLevel_def)
next
  case (10 b v) then show ?case using tl_setUnion_set by (simp add: TwoLevel_def)
next
  case (11 b v) then show ?case using tl_setIntersection_set by (simp add: TwoLevel_def)
next
  case (12 b v) then show ?case using tl_setDifference_set by (simp add: TwoLevel_def)
next
  case (13 b v) then show ?case using tl_copyFrom_set by (simp add: TwoLevel_def)
next
  case (14 b v) then show ?case using tl_intersectsWith_set by (simp add: TwoLevel_def)
next
  case (15 b) then show ?case using it_start by (simp add: TwoLevel_def)
next
  case (17 i x xs) then show ?case using it_next by (simp add: TwoLevel_def)
qed (simp_all add: TwoLevel_size tl_okD(1) tl_set_bound tl_clear_set tl_setAll_set tl_empty_set it_hasNext,
  simp_all add: TwoLevel_def tl_clear_set tl_setAll_set tl_empty_set it_hasNext)

interpretation one_word: bitvector BasicBitVector "\<lambda>_. True" "\<lambda>_. True" "\<lambda>b. {i. bit b i}" "\<lambda>_. True" ones
proof (unfold_locales, goal_cases)
  case (9 b)
  then have "b \<noteq> 0" by (auto simp: u64_eq_0)
  then obtain i js where o: "ones b = i # js" by (cases "ones b") simp_all
  have "finite {i. bit b i}" using finite_set [of "ones b"] by simp
  then have "Min {i. bit b i} = i" using ones_ConsD [OF o] ones_least [OF o] by (intro Min_eqI) simp_all
  then show ?case using bbv_first_eq [OF o] bit_clear_one [of b i] by (auto simp: BasicBitVector_def)
next
  case (17 b x xs)
  then show ?case using bbv_first_eq [of b x xs] ones_clear_first [of b x xs] by (simp add: BasicBitVector_def bit_next_def)
next
  case (4 b)
  then show ?case by (auto simp: BasicBitVector_def bbv_setAll_def bbv_kSize_def dest: bit_64D)
next
  case (6 b i)
  then show ?case by (auto simp: BasicBitVector_def bbv_kSize_def bbv_setBit_eq bit_set_one)
next
  case (7 b i)
  then show ?case by (auto simp: BasicBitVector_def bbv_kSize_def bbv_clearBit_eq bit_clear_one)
next
  case (8 b i)
  then show ?case by (simp add: BasicBitVector_def bbv_kSize_def bbv_getBit_eq)
next
  case (10 b v)
  have "{i. bit b i} \<union> {i. bit v i} = {i. bit (b OR v) i}" by (rule set_eqI) (simp add: bit_or_iff)
  moreover have "{i. bit (b OR v) i} = {i. bit b i} \<longleftrightarrow> b OR v = b" by (auto simp: set_eq_iff intro: u64_eqI)
  ultimately show ?case by (simp add: BasicBitVector_def bbv_setUnion_def Let_def)
next
  case (11 b v)
  have "{i. bit b i} \<inter> {i. bit v i} = {i. bit (b AND v) i}" by (rule set_eqI) (simp add: bit_and_iff)
  moreover have "{i. bit (b AND v) i} = {i. bit b i} \<longleftrightarrow> b AND v = b" by (auto simp: set_eq_iff intro: u64_eqI)
  ultimately show ?case by (simp add: BasicBitVector_def bbv_setIntersection_def Let_def)
next
  case (12 b v)
  have "{i. bit b i} - {i. bit v i} = {i. bit (b AND NOT v) i}" by (rule set_eqI) (simp add: bit_andnot)
  moreover have "{i. bit (b AND NOT v) i} = {i. bit b i} \<longleftrightarrow> b AND NOT v = b" by (auto simp: set_eq_iff intro: u64_eqI)
  ultimately show ?case by (simp add: BasicBitVector_def bbv_setDifference_def Let_def)
qed (auto simp: BasicBitVector_def bbv_kSize_def bbv_clear_def bbv_empty_def u64_eq_0 bbv_copyFrom_def bbv_intersectsWith_def bit_and_iff
    bit_iter_def bit_hasNext_def dest: bit_64D)

section \<open>Properties\<close>

text \<open>
  C29. The two-level bit vector behaves as a set of numbers: union, intersection and difference give
  the union, intersection and difference, say exactly whether anything changed, keep the first
  level in step with the words below it, and taking the first bit yields the smallest element.
\<close>

theorem two_level_set_algebra:
  assumes "tl_ok k t" "tl_ok k v"
  shows "(\<exists>u. tl_setUnion v t = Inr (tl_set k t \<union> tl_set k v \<noteq> tl_set k t, u) \<and> tl_ok k u \<and> tl_set k u = tl_set k t \<union> tl_set k v)
    \<and> (\<exists>u. tl_setIntersection v t = Inr (tl_set k t \<inter> tl_set k v \<noteq> tl_set k t, u) \<and> tl_ok k u \<and> tl_set k u = tl_set k t \<inter> tl_set k v)
    \<and> (\<exists>u. tl_setDifference v t = Inr (tl_set k t - tl_set k v \<noteq> tl_set k t, u) \<and> tl_ok k u \<and> tl_set k u = tl_set k t - tl_set k v)
    \<and> tl_intersectsWith v t = Inr (tl_set k t \<inter> tl_set k v \<noteq> {})
    \<and> (if tl_empty t then tl_set k t = {}
       else \<exists>u. tl_getAndClearFirstOne t = Inr (Min (tl_set k t), u) \<and> tl_ok k u \<and> tl_set k u = tl_set k t - {Min (tl_set k t)})"
  using tl_setUnion_set [OF assms] tl_setIntersection_set [OF assms] tl_setDifference_set [OF assms] tl_intersectsWith_set [OF assms]
    tl_empty_set [OF assms(1)] tl_first_set [OF assms(1)] by simp

definition no_bits :: TwoLevelBitVector where
  "no_bits = \<lparr>tl_l1 = [0], tl_l2 = [replicate 64 0]\<rparr>"

lemma no_bits_ok: "tl_ok 1 no_bits" "tl_set 1 no_bits = {}"
  by (auto simp: no_bits_def tl_ok_def tl_shape_def row_of_def row_ok.simps rowmem.simps tl_set_def in_tl_def)

theorem two_level_set_algebra_witness:
  "\<exists>v u. tl_setBit 70 no_bits = Inr (True, v) \<and> tl_setUnion v no_bits = Inr (True, u) \<and> tl_set 1 u = {70}"
proof -
  obtain v where v: "tl_setBit 70 no_bits = Inr (True, v)" "tl_ok 1 v" "tl_set 1 v = {70}"
    using tl_setBit_set [OF no_bits_ok(1), of 70] no_bits_ok(2) by auto
  then show ?thesis using two_level_set_algebra [OF no_bits_ok(1) v(2)] no_bits_ok(2) by auto
qed

text \<open>
  C40. The index check of the two-level vector is off by one: it accepts the index one past the end,
  and the access then leaves the array of first-level words.
\<close>

theorem two_level_check_off_by_one:
  assumes "tl_ok k t"
  shows "tl_check (tl_size t) t = Inr () \<and> tl_setBit (tl_size t) t = Inl ObjectOverread \<and> tl_getBit (tl_size t) t = Inl ObjectOverread"
proof -
  have "tl_size t = 4096 * k" "length (tl_l1 t) = k" using tl_okD(2) [OF assms] by (simp_all add: tl_size_def bbv_kSize_def kLevel1Size_def)
  then show ?thesis by (simp add: tl_setBit_def tl_getBit_def tl_check_def idx0_def idx1_def idx2_def bbv_kSize_def kLevel1Size_def l1_at_def)
qed

theorem two_level_check_off_by_one_witness: "tl_setBit 4096 no_bits = Inl ObjectOverread"
  using two_level_check_off_by_one [OF no_bits_ok(1)] by (simp add: tl_size_def bbv_kSize_def kLevel1Size_def no_bits_def)

end
