(* ===== verification/San_BVGraph.thy ===== *)
theory San_BVGraph
  imports San_BitVector
begin

text \<open>
  The directed graph of \<^verbatim>\<open>sanitizer_bvgraph.h\<close>, an array of bit vectors: changing its edges, the
  search for a reachable target and the search for a shortest path. It is a template over the bit
  vector, so the operations take the members of the vector as an argument \<open>B\<close>, and what they do is
  shown in the locale \<open>bitvector\<close>.
\<close>

section \<open>Operations\<close>

record 'b BVGraph =
  g_v :: "'b list"
  g_t1 :: 'b
  g_t2 :: 'b

definition v_at :: "'b BVGraph \<Rightarrow> nat \<Rightarrow> 'b res" where
  "v_at g i = (if i < length (g_v g) then Inr (g_v g ! i) else Inl ObjectOverread)"

definition set_v :: "nat \<Rightarrow> 'b \<Rightarrow> 'b BVGraph \<Rightarrow> 'b BVGraph res" where
  "set_v i b g = (if i < length (g_v g) then Inr (g\<lparr>g_v := (g_v g)[i := b]\<rparr>) else Inl HeapOverflow)"

definition g_clear :: "('b, 'i) bv_ops \<Rightarrow> 'b BVGraph \<Rightarrow> 'b BVGraph" where
  "g_clear B g = g\<lparr>g_v := map (bv_clear B) (g_v g)\<rparr>"

definition g_empty :: "('b, 'i) bv_ops \<Rightarrow> 'b BVGraph \<Rightarrow> bool" where
  "g_empty B g = list_all (bv_empty B) (g_v g)"

definition g_check :: "('b, 'i) bv_ops \<Rightarrow> nat \<Rightarrow> nat \<Rightarrow> unit res" where
  "g_check B i j = rbind (check (i < bv_size B)) (\<lambda>_. check (j < bv_size B))"

definition addEdge :: "('b, 'i) bv_ops \<Rightarrow> nat \<Rightarrow> nat \<Rightarrow> 'b BVGraph \<Rightarrow> (bool \<times> 'b BVGraph) res" where
  "addEdge B from to g =
     rbind (g_check B from to) (\<lambda>_. rbind (v_at g from) (\<lambda>b. rbind (bv_setBit B to b) (\<lambda>(r, b).
     rbind (set_v from b g) (\<lambda>g. Inr (r, g)))))"

text \<open>One round of the loop of \<^verbatim>\<open>addEdges\<close>; the array \<^verbatim>\<open>added_edges\<close> is the list of what has been stored in it.\<close>

definition addEdges_round :: "('b, 'i) bv_ops \<Rightarrow> nat \<Rightarrow> nat \<Rightarrow> nat list \<times> 'b BVGraph \<Rightarrow> (nat list \<times> 'b BVGraph, nat list \<times> 'b BVGraph) round run" where
  "addEdges_round B to max_added_edges = (\<lambda>(added, g).
     if bv_empty B (g_t1 g) then lift (Inr (Done (added, g)))
     else lift (rbind (bv_getAndClearFirstOne B (g_t1 g)) (\<lambda>(node, t1). rbind (v_at g node) (\<lambda>b. rbind (bv_setBit B to b) (\<lambda>(r, b).
       rbind (set_v node b (g\<lparr>g_t1 := t1\<rparr>)) (\<lambda>g.
       Inr (Again (if r \<and> length added < max_added_edges then added @ [node] else added, g))))))))"

definition g_addEdges :: "('b, 'i) bv_ops \<Rightarrow> 'b \<Rightarrow> nat \<Rightarrow> nat \<Rightarrow> 'b BVGraph \<Rightarrow> (nat list \<times> 'b BVGraph) run" where
  "g_addEdges B from to max_added_edges g =
     obind (lift (bv_copyFrom B from (g_t1 g))) (\<lambda>t1. loop (addEdges_round B to max_added_edges) ([], g\<lparr>g_t1 := t1\<rparr>))"

text \<open>\<^verbatim>\<open>hasEdge\<close> has two versions; the constant one checks its arguments.\<close>

definition g_hasEdge :: "('b, 'i) bv_ops \<Rightarrow> nat \<Rightarrow> nat \<Rightarrow> 'b BVGraph \<Rightarrow> bool res" where
  "g_hasEdge B from to g = rbind (v_at g from) (bv_getBit B to)"

definition g_hasEdge_const :: "('b, 'i) bv_ops \<Rightarrow> nat \<Rightarrow> nat \<Rightarrow> 'b BVGraph \<Rightarrow> bool res" where
  "g_hasEdge_const B from to g = rbind (g_check B from to) (\<lambda>_. rbind (v_at g from) (bv_getBit B to))"

definition removeEdge :: "('b, 'i) bv_ops \<Rightarrow> nat \<Rightarrow> nat \<Rightarrow> 'b BVGraph \<Rightarrow> (bool \<times> 'b BVGraph) res" where
  "removeEdge B from to g =
     rbind (v_at g from) (\<lambda>b. rbind (bv_clearBit B to b) (\<lambda>(r, b). rbind (set_v from b g) (\<lambda>g. Inr (r, g))))"

definition removeEdgesTo :: "('b, 'i) bv_ops \<Rightarrow> 'b \<Rightarrow> 'b BVGraph \<Rightarrow> (bool \<times> 'b BVGraph) res" where
  "removeEdgesTo B to g =
     rfold (\<lambda>from (res, g). rbind (v_at g from) (\<lambda>b. rbind (bv_setDifference B to b) (\<lambda>(r, b).
       rbind (set_v from b g) (\<lambda>g. Inr (res \<or> r, g))))) [0..<bv_size B] (False, g)"

definition removeFrom_round :: "('b, 'i) bv_ops \<Rightarrow> bool \<times> 'b BVGraph \<Rightarrow> (bool \<times> 'b BVGraph, bool \<times> 'b BVGraph) round run" where
  "removeFrom_round B = (\<lambda>(res, g).
     if bv_empty B (g_t1 g) then lift (Inr (Done (res, g)))
     else lift (rbind (bv_getAndClearFirstOne B (g_t1 g)) (\<lambda>(idx, t1). rbind (v_at g idx) (\<lambda>b.
       if \<not> bv_empty B b then rbind (set_v idx (bv_clear B b) (g\<lparr>g_t1 := t1\<rparr>)) (\<lambda>g. Inr (Again (True, g)))
       else Inr (Again (res, g\<lparr>g_t1 := t1\<rparr>))))))"

definition removeEdgesFrom_all :: "('b, 'i) bv_ops \<Rightarrow> 'b \<Rightarrow> 'b BVGraph \<Rightarrow> (bool \<times> 'b BVGraph) run" where
  "removeEdgesFrom_all B from g =
     obind (lift (bv_copyFrom B from (g_t1 g))) (\<lambda>t1. loop (removeFrom_round B) (False, g\<lparr>g_t1 := t1\<rparr>))"

definition removeEdgesFrom :: "('b, 'i) bv_ops \<Rightarrow> nat \<Rightarrow> 'b BVGraph \<Rightarrow> 'b BVGraph res" where
  "removeEdgesFrom B from g = rbind (v_at g from) (\<lambda>b. set_v from (bv_clear B b) g)"

text \<open>The members \<^verbatim>\<open>t1\<close> and \<^verbatim>\<open>t2\<close> are \<^verbatim>\<open>to_visit\<close> and \<^verbatim>\<open>visited\<close>.\<close>

definition visit_round :: "('b, 'i) bv_ops \<Rightarrow> 'b BVGraph \<Rightarrow> ('b BVGraph, 'b BVGraph) round run" where
  "visit_round B g =
     (if bv_empty B (g_t1 g) then lift (Inr (Done g))
      else lift (rbind (bv_getAndClearFirstOne B (g_t1 g)) (\<lambda>(idx, t1). rbind (bv_setBit B idx (g_t2 g)) (\<lambda>(new, t2).
        if new then rbind (v_at g idx) (\<lambda>b. rbind (bv_setUnion B b t1) (\<lambda>(_, t1). Inr (Again (g\<lparr>g_t1 := t1, g_t2 := t2\<rparr>))))
        else Inr (Again (g\<lparr>g_t1 := t1, g_t2 := t2\<rparr>))))))"

definition isReachable :: "('b, 'i) bv_ops \<Rightarrow> nat \<Rightarrow> 'b \<Rightarrow> 'b BVGraph \<Rightarrow> (bool \<times> 'b BVGraph) run" where
  "isReachable B from targets g =
     obind (lift (rbind (v_at g from) (\<lambda>b. rbind (bv_copyFrom B b (g_t1 g)) (\<lambda>t1.
       rbind (bv_setBit B from (bv_clear B (g_t2 g))) (\<lambda>(_, t2). Inr (g\<lparr>g_t1 := t1, g_t2 := t2\<rparr>)))))) (\<lambda>g.
     obind (loop (visit_round B) g) (\<lambda>g.
     lift (rbind (bv_intersectsWith B (g_t2 g) targets) (\<lambda>r. Inr (r, g)))))"

text \<open>
  The caller's array \<^verbatim>\<open>path\<close> is a list that is written from its first element on; the result is the
  length of the path with the array. The for loop over the iterator is written with \<open>loop\<close>.
\<close>

primrec findPath :: "nat \<Rightarrow> ('b, 'i) bv_ops \<Rightarrow> 'b BVGraph \<Rightarrow> 'b \<Rightarrow> nat \<Rightarrow> nat list \<Rightarrow> (nat \<times> nat list) run" where
  "findPath 0 B g targets from path = lift (Inr (0, path))"
| "findPath (Suc n) B g targets from path =
     (case path of
        [] \<Rightarrow> lift (Inl HeapOverflow)
      | _ # rest \<Rightarrow>
          obind (lift (bv_getBit B from targets)) (\<lambda>hit.
          if hit then lift (Inr (1, from # rest))
          else obind (lift (v_at g from)) (\<lambda>b.
            loop (\<lambda>(it, rest).
              if \<not> bv_hasNext B it then lift (Inr (Done (0, from # rest)))
              else obind (lift (bv_next B it)) (\<lambda>(idx, it).
                obind (findPath n B g targets idx rest) (\<lambda>(res, rest).
                lift (Inr (if res \<noteq> 0 then Done (res + 1, from # rest) else Again (it, rest))))))
            (bv_Iterator B b, rest))))"

fun shortest_from :: "nat list \<Rightarrow> ('b, 'i) bv_ops \<Rightarrow> 'b BVGraph \<Rightarrow> 'b \<Rightarrow> nat \<Rightarrow> nat list \<Rightarrow> (nat \<times> nat list) run" where
  "shortest_from [] B g targets from path = lift (Inr (0, path))"
| "shortest_from (p # ps) B g targets from path =
     obind (findPath p B g targets from path) (\<lambda>(r, path).
     if r = p then lift (Inr (p, path)) else shortest_from ps B g targets from path)"

definition findShortestPath :: "('b, 'i) bv_ops \<Rightarrow> nat \<Rightarrow> 'b \<Rightarrow> nat list \<Rightarrow> nat \<Rightarrow> 'b BVGraph \<Rightarrow> (nat \<times> nat list) run" where
  "findShortestPath B from targets path path_size g = shortest_from [1..<Suc path_size] B g targets from path"

section \<open>The graph\<close>

text \<open>The edges a graph stands for, given the set \<open>S\<close> a vector stands for, and that its vectors are in order.\<close>

definition edges :: "('b \<Rightarrow> nat set) \<Rightarrow> 'b BVGraph \<Rightarrow> (nat \<times> nat) set" where
  "edges S g = {(i, j). i < length (g_v g) \<and> j \<in> S (g_v g ! i)}"

definition graph_ok :: "nat \<Rightarrow> ('b \<Rightarrow> bool) \<Rightarrow> ('b \<Rightarrow> bool) \<Rightarrow> 'b BVGraph \<Rightarrow> bool" where
  "graph_ok n shape ok g \<longleftrightarrow> length (g_v g) = n \<and> (\<forall>i<n. ok (g_v g ! i)) \<and> shape (g_t1 g) \<and> shape (g_t2 g)"

lemma edges_simps [simp]: "edges S (g\<lparr>g_t1 := a\<rparr>) = edges S g" "edges S (g\<lparr>g_t2 := a\<rparr>) = edges S g"
  by (simp_all add: edges_def)

lemma edges_update:
  "i < length (g_v g) \<Longrightarrow> edges S (g\<lparr>g_v := (g_v g)[i := b]\<rparr>) = {(x, y). if x = i then y \<in> S b else (x, y) \<in> edges S g}"
  by (auto simp: edges_def nth_list_update split: if_splits)

context bitvector
begin

abbreviation "gok \<equiv> graph_ok (bv_size B) shape ok"

lemma gok_at: "gok g \<Longrightarrow> i < bv_size B \<Longrightarrow> v_at g i = Inr (g_v g ! i) \<and> ok (g_v g ! i)"
  by (simp add: graph_ok_def v_at_def)

lemma gok_set:
  assumes "gok g" "i < bv_size B" "ok b"
  shows "\<exists>g'. set_v i b g = Inr g' \<and> gok g' \<and> g' = g\<lparr>g_v := (g_v g)[i := b]\<rparr>
    \<and> edges S g' = {(x, y). if x = i then y \<in> S b else (x, y) \<in> edges S g}"
  using assms edges_update [of i g S b] by (simp add: graph_ok_def set_v_def nth_list_update)

lemma edges_bound: "gok g \<Longrightarrow> (i, j) \<in> edges S g \<Longrightarrow> i < bv_size B \<and> j < bv_size B"
  using bound by (fastforce simp: edges_def graph_ok_def)

lemma edges_Image: "gok g \<Longrightarrow> i < bv_size B \<Longrightarrow> S (g_v g ! i) = edges S g `` {i}"
  by (auto simp: edges_def graph_ok_def)

lemma gok_t1: "gok g \<Longrightarrow> ok t \<Longrightarrow> gok (g\<lparr>g_t1 := t\<rparr>)" "gok g \<Longrightarrow> ok t \<Longrightarrow> gok (g\<lparr>g_t2 := t\<rparr>)"
  using ok_shape by (simp_all add: graph_ok_def)

lemma addEdge_edges:
  assumes "gok g" "i < bv_size B" "j < bv_size B"
  shows "\<exists>g'. addEdge B i j g = Inr ((i, j) \<notin> edges S g, g') \<and> gok g' \<and> edges S g' = insert (i, j) (edges S g)"
proof -
  have a: "v_at g i = Inr (g_v g ! i)" "ok (g_v g ! i)" using gok_at [OF assms(1,2)] by simp_all
  obtain b where b: "bv_setBit B j (g_v g ! i) = Inr (j \<notin> S (g_v g ! i), b)" "ok b" "S b = insert j (S (g_v g ! i))"
    using setBit [OF a(2) assms(3)] by blast
  obtain g' where g': "set_v i b g = Inr g'" "gok g'" "edges S g' = {(x, y). if x = i then y \<in> S b else (x, y) \<in> edges S g}"
    using gok_set [OF assms(1,2) b(2)] by blast
  have "edges S g' = insert (i, j) (edges S g)" using g'(3) b(3) edges_Image [OF assms(1,2)] by (auto split: if_splits)
  then show ?thesis using a b g' assms edges_Image [OF assms(1,2)] by (simp add: addEdge_def g_check_def)
qed

lemma removeEdge_edges:
  assumes "gok g" "i < bv_size B" "j < bv_size B"
  shows "\<exists>g'. removeEdge B i j g = Inr ((i, j) \<in> edges S g, g') \<and> gok g' \<and> edges S g' = edges S g - {(i, j)}"
proof -
  have a: "v_at g i = Inr (g_v g ! i)" "ok (g_v g ! i)" using gok_at [OF assms(1,2)] by simp_all
  obtain b where b: "bv_clearBit B j (g_v g ! i) = Inr (j \<in> S (g_v g ! i), b)" "ok b" "S b = S (g_v g ! i) - {j}"
    using clearBit [OF a(2) assms(3)] by blast
  obtain g' where g': "set_v i b g = Inr g'" "gok g'" "edges S g' = {(x, y). if x = i then y \<in> S b else (x, y) \<in> edges S g}"
    using gok_set [OF assms(1,2) b(2)] by blast
  have "edges S g' = edges S g - {(i, j)}" using g'(3) b(3) edges_Image [OF assms(1,2)] by (auto split: if_splits)
  then show ?thesis using a b g' edges_Image [OF assms(1,2)] by (simp add: removeEdge_def)
qed

lemma hasEdge_edges: "gok g \<Longrightarrow> i < bv_size B \<Longrightarrow> j < bv_size B \<Longrightarrow> g_hasEdge B i j g = Inr ((i, j) \<in> edges S g)"
  using gok_at [of g i] getBit edges_Image [of g i] by (simp add: g_hasEdge_def)

lemma removeEdgesFrom_edges:
  assumes "gok g" "i < bv_size B"
  shows "\<exists>g'. removeEdgesFrom B i g = Inr g' \<and> gok g' \<and> edges S g' = {(x, y) \<in> edges S g. x \<noteq> i} \<and> g_t1 g' = g_t1 g"
proof -
  have a: "v_at g i = Inr (g_v g ! i)" "shape (g_v g ! i)" using gok_at [OF assms] ok_shape by simp_all
  obtain g' where g': "set_v i (bv_clear B (g_v g ! i)) g = Inr g'" "gok g'" "g' = g\<lparr>g_v := (g_v g)[i := bv_clear B (g_v g ! i)]\<rparr>"
    "edges S g' = {(x, y). if x = i then y \<in> S (bv_clear B (g_v g ! i)) else (x, y) \<in> edges S g}"
    using gok_set [OF assms] clear [OF a(2)] by blast
  have "edges S g' = {(x, y) \<in> edges S g. x \<noteq> i}" using g'(4) clear [OF a(2)] by auto
  then show ?thesis using a g' by (simp add: removeEdgesFrom_def)
qed

lemma g_clear_edges: "length (g_v g) = bv_size B \<Longrightarrow> \<forall>i<bv_size B. shape (g_v g ! i) \<Longrightarrow> shape (g_t1 g) \<Longrightarrow> shape (g_t2 g) \<Longrightarrow>
    gok (g_clear B g) \<and> edges S (g_clear B g) = {}"
  using clear by (auto simp: g_clear_def graph_ok_def edges_def)

lemma g_empty_edges: "gok g \<Longrightarrow> g_empty B g \<longleftrightarrow> edges S g = {}"
  using empty by (auto simp: g_empty_def graph_ok_def edges_def list_all_length)

lemma removeEdgesTo_edges:
  assumes "gok g" "ok to"
  shows "\<exists>g'. removeEdgesTo B to g = Inr (\<exists>(x, y)\<in>edges S g. y \<in> S to, g') \<and> gok g' \<and> edges S g' = {(x, y) \<in> edges S g. y \<notin> S to}"
proof -
  let ?f = "\<lambda>from (res, g). rbind (v_at g from) (\<lambda>b. rbind (bv_setDifference B to b) (\<lambda>(r, b). rbind (set_v from b g) (\<lambda>g. Inr (res \<or> r, g))))"
  let ?I = "\<lambda>D (res, h). gok h \<and> edges S h = {(x, y) \<in> edges S g. x \<in> D \<longrightarrow> y \<notin> S to} \<and> (res \<longleftrightarrow> (\<exists>(x, y)\<in>edges S g. x \<in> D \<and> y \<in> S to))"
  have "\<exists>s'. rfold ?f [0..<bv_size B] (False, g) = Inr s' \<and> ?I (set [0..<bv_size B]) s'"
  proof (rule rfold_inv0)
    fix D i s assume i: "i \<in> set [0..<bv_size B]" "i \<notin> D" and I: "?I D s"
    obtain res h where s: "s = (res, h)" by fastforce
    have h: "gok h" "edges S h = {(x, y) \<in> edges S g. x \<in> D \<longrightarrow> y \<notin> S to}" "res \<longleftrightarrow> (\<exists>(x, y)\<in>edges S g. x \<in> D \<and> y \<in> S to)" and ib: "i < bv_size B"
      using I s i by auto
    have a: "v_at h i = Inr (g_v h ! i)" "ok (g_v h ! i)" using gok_at [OF h(1) ib] by simp_all
    obtain b where b: "bv_setDifference B to (g_v h ! i) = Inr (S (g_v h ! i) - S to \<noteq> S (g_v h ! i), b)" "ok b" "S b = S (g_v h ! i) - S to"
      using setDifference [OF a(2) assms(2)] by blast
    obtain h' where h': "set_v i b h = Inr h'" "gok h'" "edges S h' = {(x, y). if x = i then y \<in> S b else (x, y) \<in> edges S h}"
      using gok_set [OF h(1) ib b(2)] by blast
    have e: "S (g_v h ! i) = edges S g `` {i}" using edges_Image [OF h(1) ib] h(2) i(2) by auto
    have "edges S h' = {(x, y) \<in> edges S g. x \<in> insert i D \<longrightarrow> y \<notin> S to}" using h'(3) b(3) e h(2) by (auto split: if_splits)
    moreover have "res \<or> S (g_v h ! i) - S to \<noteq> S (g_v h ! i) \<longleftrightarrow> (\<exists>(x, y)\<in>edges S g. x \<in> insert i D \<and> y \<in> S to)" using h(3) e by auto
    ultimately show "\<exists>s'. ?f i s = Inr s' \<and> ?I (insert i D) s'" using a b h' s by simp
  qed (use assms(1) in auto)
  then obtain res h where h: "rfold ?f [0..<bv_size B] (False, g) = Inr (res, h)" "?I (set [0..<bv_size B]) (res, h)" by auto
  then show ?thesis using edges_bound [OF assms(1)] by (auto simp: removeEdgesTo_def)
qed

end

section \<open>Reachability\<close>

context bitvector
begin

text \<open>
  The search: everything visited or to be visited is reachable, and what a visited node points to
  is visited or to be visited. Each round takes a node off the list of those to be visited, and a
  node is put there only when another one has been visited for the first time.
\<close>

definition visit_inv :: "(nat \<times> nat) set \<Rightarrow> nat \<Rightarrow> 'b BVGraph \<Rightarrow> 'b BVGraph \<Rightarrow> bool" where
  "visit_inv E from g0 g \<longleftrightarrow> gok g \<and> g_v g = g_v g0 \<and> ok (g_t1 g) \<and> ok (g_t2 g) \<and> from \<in> S (g_t2 g)
     \<and> S (g_t2 g) \<subseteq> E\<^sup>* `` {from} \<and> S (g_t1 g) \<subseteq> E\<^sup>* `` {from} \<and> E `` S (g_t2 g) \<subseteq> S (g_t2 g) \<union> S (g_t1 g)"

definition visit_left :: "'b BVGraph \<Rightarrow> nat" where
  "visit_left g = (bv_size B - card (S (g_t2 g))) * Suc (bv_size B) + card (S (g_t1 g))"

lemma card_S: "ok b \<Longrightarrow> card (S b) \<le> bv_size B"
  using card_mono [OF _ bound] by fastforce

lemma visit_step:
  assumes "gok g0" "visit_inv (edges S g0) from g0 g"
  shows "(\<exists>g'. visit_round B g = Some (Inr (Again g')) \<and> visit_inv (edges S g0) from g0 g' \<and> visit_left g' < visit_left g)
    \<or> (\<exists>g'. visit_round B g = Some (Inr (Done g')) \<and> visit_inv (edges S g0) from g0 g' \<and> S (g_t1 g') = {})"
proof (cases "S (g_t1 g) = {}")
  case True
  then show ?thesis using assms(2) empty by (auto simp: visit_round_def visit_inv_def lift_def)
next
  case False
  let ?E = "edges S g0" and ?i = "Min (S (g_t1 g))"
  have I: "gok g" "g_v g = g_v g0" "ok (g_t1 g)" "ok (g_t2 g)" "from \<in> S (g_t2 g)" "S (g_t2 g) \<subseteq> ?E\<^sup>* `` {from}" "S (g_t1 g) \<subseteq> ?E\<^sup>* `` {from}"
    "?E `` S (g_t2 g) \<subseteq> S (g_t2 g) \<union> S (g_t1 g)" using assms(2) by (simp_all add: visit_inv_def)
  have i: "?i \<in> S (g_t1 g)" "?i < bv_size B" using Min_in [OF finite_S [OF I(3)] False] bound [OF I(3)] by auto
  obtain t1 where t1: "bv_getAndClearFirstOne B (g_t1 g) = Inr (?i, t1)" "ok t1" "S t1 = S (g_t1 g) - {?i}" using first [OF I(3) False] by blast
  obtain t2 where t2: "bv_setBit B ?i (g_t2 g) = Inr (?i \<notin> S (g_t2 g), t2)" "ok t2" "S t2 = insert ?i (S (g_t2 g))" using setBit [OF I(4) i(2)] by blast
  have c1: "card (S t1) < card (S (g_t1 g))" unfolding t1(3) by (rule card_Diff1_less [OF finite_S [OF I(3)] i(1)])
  have ne: "\<not> bv_empty B (g_t1 g)" using empty [OF I(3)] False by simp
  have nd: "S (g_v g ! ?i) = ?E `` {?i}" using edges_Image [OF assms(1) i(2)] I(2) by simp
  show ?thesis
  proof (cases "?i \<in> S (g_t2 g)")
    case True
    let ?g = "g\<lparr>g_t1 := t1, g_t2 := t2\<rparr>"
    have s2: "S t2 = S (g_t2 g)" using t2(3) True by auto
    have "visit_inv ?E from g0 ?g" using I t1 t2(2) s2 True gok_t1 ok_shape by (auto simp: visit_inv_def graph_ok_def)
    moreover have "visit_left ?g < visit_left g" using c1 s2 by (simp add: visit_left_def)
    moreover have "visit_round B g = Some (Inr (Again ?g))" using ne t1(1) t2(1) True by (simp add: visit_round_def lift_def)
    ultimately show ?thesis by blast
  next
    case False
    have a: "v_at g ?i = Inr (g_v g ! ?i)" "ok (g_v g ! ?i)" using gok_at [OF I(1) i(2)] by simp_all
    obtain u r where u: "bv_setUnion B (g_v g ! ?i) t1 = Inr (r, u)" "ok u" "S u = S t1 \<union> ?E `` {?i}" using setUnion [OF t1(2) a(2)] nd by auto
    let ?g = "g\<lparr>g_t1 := u, g_t2 := t2\<rparr>"
    have ri: "(from, ?i) \<in> ?E\<^sup>*" using i(1) I(7) by blast
    then have "?E `` {?i} \<subseteq> ?E\<^sup>* `` {from}" by (auto intro: rtrancl_into_rtrancl)
    then have "visit_inv ?E from g0 ?g" using I t1(3) t2(2,3) u ri ok_shape by (auto simp: visit_inv_def graph_ok_def)
    moreover have "visit_left ?g < visit_left g"
    proof -
      have "card (S t2) = Suc (card (S (g_t2 g)))" using t2(3) False finite_S [OF I(4)] by simp
      moreover have "card (S t2) \<le> bv_size B" "card (S u) \<le> bv_size B" using card_S t2(2) u(2) by simp_all
      ultimately obtain d where d: "bv_size B - card (S (g_t2 g)) = Suc d" "bv_size B - card (S t2) = d" by (metis Suc_diff_le diff_Suc_Suc)
      then show ?thesis using \<open>card (S u) \<le> bv_size B\<close> by (simp add: visit_left_def)
    qed
    moreover have "visit_round B g = Some (Inr (Again ?g))" using ne t1(1) t2(1) False a u(1) by (simp add: visit_round_def lift_def)
    ultimately show ?thesis by blast
  qed
qed

lemma isReachable_iff:
  assumes "gok g" "from < bv_size B" "ok targets"
  shows "\<exists>g'. isReachable B from targets g = Some (Inr (\<exists>y\<in>S targets. (from, y) \<in> (edges S g)\<^sup>*, g')) \<and> gok g' \<and> g_v g' = g_v g"
proof -
  let ?E = "edges S g"
  have a: "v_at g from = Inr (g_v g ! from)" "ok (g_v g ! from)" using gok_at [OF assms(1,2)] by simp_all
  have sh: "shape (g_t1 g)" "shape (g_t2 g)" using assms(1) by (simp_all add: graph_ok_def)
  obtain t1 where t1: "bv_copyFrom B (g_v g ! from) (g_t1 g) = Inr t1" "ok t1" "S t1 = ?E `` {from}"
    using copyFrom [OF sh(1) a(2)] edges_Image [OF assms(1,2)] by auto
  obtain t2 r where t2: "bv_setBit B from (bv_clear B (g_t2 g)) = Inr (r, t2)" "ok t2" "S t2 = {from}"
    using clear [OF sh(2)] setBit [of "bv_clear B (g_t2 g)" "from"] assms(2) by auto
  let ?g = "g\<lparr>g_t1 := t1, g_t2 := t2\<rparr>"
  have "visit_inv ?E from g ?g" using assms(1) t1 t2 ok_shape by (auto simp: visit_inv_def graph_ok_def)
  then obtain h where h: "loop (visit_round B) ?g = Some (Inr h)" "visit_inv ?E from g h" "S (g_t1 h) = {}"
    using loop_rule [where I = "visit_inv ?E from g" and m = visit_left and step = "visit_round B" and Q = "\<lambda>h. visit_inv ?E from g h \<and> S (g_t1 h) = {}", OF _ visit_step [OF assms(1)]]
    by blast
  have cl: "?E `` S (g_t2 h) \<subseteq> S (g_t2 h)" "from \<in> S (g_t2 h)" "S (g_t2 h) \<subseteq> ?E\<^sup>* `` {from}" "ok (g_t2 h)" "gok h" "g_v h = g_v g"
    using h(2,3) by (auto simp: visit_inv_def)
  have "y \<in> S (g_t2 h)" if "(from, y) \<in> ?E\<^sup>*" for y using that cl(1,2) by (induction rule: rtrancl_induct) auto
  then have "S (g_t2 h) = ?E\<^sup>* `` {from}" using cl(3) by blast
  then have "bv_intersectsWith B (g_t2 h) targets = Inr (\<exists>y\<in>S targets. (from, y) \<in> ?E\<^sup>*)" using intersectsWith [OF assms(3) cl(4)] by auto
  then show ?thesis using a(1) t1(1) t2(1) h(1) cl(5,6) by (simp add: isReachable_def lift_def)
qed

end

section \<open>Paths\<close>

text \<open>A path to a target: the nodes visited, the last of them a target.\<close>

definition path_to :: "(nat \<times> nat) set \<Rightarrow> nat set \<Rightarrow> nat \<Rightarrow> nat list \<Rightarrow> bool" where
  "path_to E T from xs \<longleftrightarrow> xs \<noteq> [] \<and> hd xs = from \<and> last xs \<in> T \<and> successively (\<lambda>x y. (x, y) \<in> E) xs"

lemma path_to_one: "from \<in> T \<Longrightarrow> path_to E T from [from]"
  by (simp add: path_to_def)

lemma path_to_Cons: "(from, y) \<in> E \<Longrightarrow> path_to E T y xs \<Longrightarrow> path_to E T from (from # xs)"
  by (cases xs) (auto simp: path_to_def)

lemma path_to_cases:
  assumes "path_to E T from xs"
  obtains "xs = [from]" "from \<in> T" | y ys where "xs = from # ys" "(from, y) \<in> E" "path_to E T y ys"
proof (cases xs)
  case (Cons x ys)
  then show thesis using assms that by (cases ys) (auto simp: path_to_def)
qed (use assms in \<open>simp add: path_to_def\<close>)

lemma path_to_reach: "path_to E T from xs \<Longrightarrow> \<exists>y\<in>T. (from, y) \<in> E\<^sup>*"
proof (induction xs arbitrary: "from")
  case (Cons x xs)
  from Cons.prems show ?case
  proof (cases rule: path_to_cases)
    case (2 y ys)
    then show ?thesis using Cons.IH [of y] by (auto intro: converse_rtrancl_into_rtrancl)
  qed auto
qed (simp add: path_to_def)

lemma reach_path_to:
  assumes "(from, y) \<in> E\<^sup>*" "y \<in> T"
  shows "\<exists>xs. path_to E T from xs"
  using assms by (induction rule: converse_rtrancl_induct) (blast intro: path_to_one path_to_Cons)+

text \<open>What \<^verbatim>\<open>findPath\<close> returns: the length and the nodes of a path, or 0 if there is none within the bound.\<close>

definition path_found :: "(nat \<times> nat) set \<Rightarrow> nat set \<Rightarrow> nat \<Rightarrow> nat \<Rightarrow> nat list \<Rightarrow> nat \<times> nat list \<Rightarrow> bool" where
  "path_found E T n from path = (\<lambda>(r, path'). length path' = length path \<and>
     (if r = 0 then \<forall>xs. path_to E T from xs \<longrightarrow> n < length xs else r \<le> n \<and> path_to E T from (take r path')))"

context bitvector
begin

lemma findPath_found:
  assumes "gok g" "ok targets" "from < bv_size B" "n \<le> length path"
  shows "\<exists>r. findPath n B g targets from path = Some (Inr r) \<and> path_found (edges S g) (S targets) n from path r"
  using assms(3,4)
proof (induction n arbitrary: "from" path)
  case 0
  have "length xs \<noteq> 0" if "path_to (edges S g) (S targets) from xs" for xs using that by (simp add: path_to_def)
  then show ?case by (auto simp: path_found_def lift_def)
next
  case (Suc n)
  let ?E = "edges S g" and ?T = "S targets"
  obtain p rest where path: "path = p # rest" "n \<le> length rest" using Suc.prems(2) by (cases path) auto
  have hit: "bv_getBit B from targets = Inr (from \<in> ?T)" using getBit [OF assms(2) Suc.prems(1)] .
  show ?case
  proof (cases "from \<in> ?T")
    case True
    then show ?thesis using path hit by (auto simp: path_found_def lift_def path_to_one)
  next
    case False
    have a: "v_at g from = Inr (g_v g ! from)" "ok (g_v g ! from)" using gok_at [OF assms(1) Suc.prems(1)] by simp_all
    let ?step = "\<lambda>(it, rest). if \<not> bv_hasNext B it then lift (Inr (Done (0, from # rest)))
              else obind (lift (bv_next B it)) (\<lambda>(idx, it).
                obind (findPath n B g targets idx rest) (\<lambda>(res, rest).
                lift (Inr (if res \<noteq> 0 then Done (res + 1, from # rest) else Again (it, rest)))))"
    let ?I = "\<lambda>(it, rs :: nat list). iok it \<and> length rs = length rest \<and> set (rem it) \<subseteq> ?E `` {from}
      \<and> (\<forall>y\<in>?E `` {from} - set (rem it). \<forall>xs. path_to ?E ?T y xs \<longrightarrow> n < length xs)"
    have "\<exists>r. loop ?step (bv_Iterator B (g_v g ! from), rest) = Some (Inr r) \<and> path_found ?E ?T (Suc n) from path r"
    proof (rule loop_rule [where I = ?I and m = "\<lambda>(it, rs :: nat list). length (rem it)"])
      show "?I (bv_Iterator B (g_v g ! from), rest)" using iter [OF a(2)] edges_Image [OF assms(1) Suc.prems(1)] by auto
      fix s :: "'i \<times> nat list" assume I: "?I s"
      obtain it rs where s: "s = (it, rs)" by fastforce
      have it: "iok it" "length rs = length rest" "set (rem it) \<subseteq> ?E `` {from}"
        "\<forall>y\<in>?E `` {from} - set (rem it). \<forall>xs. path_to ?E ?T y xs \<longrightarrow> n < length xs" using I s by auto
      show "(\<exists>s'. ?step s = Some (Inr (Again s')) \<and> ?I s' \<and> (case s' of (it, rs) \<Rightarrow> length (rem it)) < (case s of (it, rs) \<Rightarrow> length (rem it)))
        \<or> (\<exists>r. ?step s = Some (Inr (Done r)) \<and> path_found ?E ?T (Suc n) from path r)"
      proof (cases "rem it")
        case Nil
        have "Suc n < length xs" if "path_to ?E ?T from xs" for xs
          using that by (cases rule: path_to_cases) (use False it(4) Nil in auto)
        then have "path_found ?E ?T (Suc n) from path (0, from # rs)" using it(2) path(1) by (simp add: path_found_def)
        then show ?thesis using hasNext [OF it(1)] Nil s by (simp add: lift_def)
      next
        case (Cons y ys)
        then have y: "(from, y) \<in> ?E" "y < bv_size B" using it(3) edges_bound [OF assms(1)] by auto
        obtain it' where it': "bv_next B it = Inr (y, it')" "iok it'" "rem it' = ys" using iter_next [OF it(1) Cons] by blast
        obtain r ps where r: "findPath n B g targets y rs = Some (Inr (r, ps))" "path_found ?E ?T n y rs (r, ps)"
          using Suc.IH [OF y(2), of rs] it(2) path(2) by auto
        have st: "?step s = Some (Inr (if r \<noteq> 0 then Done (r + 1, from # ps) else Again (it', ps)))"
          using hasNext [OF it(1)] Cons s it'(1) r(1) by (simp add: lift_def)
        show ?thesis
        proof (cases "r = 0")
          case True
          then have "?I (it', ps)" using it it' r(2) Cons by (auto simp: path_found_def)
          then show ?thesis using st True it'(3) Cons s by auto
        next
          case False
          then have "path_found ?E ?T (Suc n) from path (r + 1, from # ps)" using r(2) path(1) it(2) path_to_Cons [OF y(1)] by (auto simp: path_found_def)
          then show ?thesis using st False by auto
        qed
      qed
    qed
    then show ?thesis using path(1) hit False a(1) by (simp add: lift_def)
  qed
qed

lemma shortest_from_found:
  assumes "gok g" "ok targets" "from < bv_size B" "length path = n" "1 \<le> m" "m \<le> Suc k" "k \<le> n"
    and none: "\<forall>xs. path_to (edges S g) (S targets) from xs \<longrightarrow> m \<le> length xs"
  shows "\<exists>r path'. shortest_from [m..<Suc k] B g targets from path = Some (Inr (r, path')) \<and> length path' = n
    \<and> (if r = 0 then \<forall>xs. path_to (edges S g) (S targets) from xs \<longrightarrow> k < length xs
       else r \<le> k \<and> path_to (edges S g) (S targets) from (take r path') \<and> (\<forall>xs. path_to (edges S g) (S targets) from xs \<longrightarrow> r \<le> length xs))"
  using assms(4-)
proof (induction "Suc k - m" arbitrary: m path)
  case 0
  then have "m = Suc k" by simp
  then show ?case using 0 by (auto simp: lift_def Suc_le_eq)
next
  case (Suc d)
  let ?E = "edges S g" and ?T = "S targets"
  have "m \<le> k" using Suc.hyps(2) by linarith
  then have mk: "m \<le> k" "[m..<Suc k] = m # [Suc m..<Suc k]" by (simp_all only: upt_conv_Cons less_Suc_eq_le)
  obtain r p where r: "findPath m B g targets from path = Some (Inr (r, p))" "path_found ?E ?T m from path (r, p)"
    using findPath_found [OF assms(1-3), of m path] mk(1) Suc.prems by auto
  show ?case
  proof (cases "r = 0")
    case True
    then have "\<forall>xs. path_to ?E ?T from xs \<longrightarrow> Suc m \<le> length xs" "length p = n" using r(2) Suc.prems(1) by (auto simp: path_found_def Suc_le_eq)
    then show ?thesis using Suc.hyps(1) [of "Suc m" p] Suc.hyps(2) Suc.prems True r(1) mk by (auto simp: Suc_le_eq)
  next
    case False
    then have p: "r \<le> m" "path_to ?E ?T from (take r p)" "length p = n" using r(2) Suc.prems(1) by (auto simp: path_found_def)
    then have "m \<le> length (take r p)" using Suc.prems(5) by blast
    then have "r = m" using p(1) by simp
    then show ?thesis using r(1) p mk Suc.prems(2,5) by (auto simp: lift_def)
  qed
qed

lemma findShortestPath_shortest:
  assumes "gok g" "ok targets" "from < bv_size B" "path_size \<le> length path"
  shows "\<exists>r path'. findShortestPath B from targets path path_size g = Some (Inr (r, path')) \<and> length path' = length path
    \<and> (if r = 0 then \<forall>xs. path_to (edges S g) (S targets) from xs \<longrightarrow> path_size < length xs
       else r \<le> path_size \<and> path_to (edges S g) (S targets) from (take r path') \<and> (\<forall>xs. path_to (edges S g) (S targets) from xs \<longrightarrow> r \<le> length xs))"
proof -
  have "\<forall>xs. path_to (edges S g) (S targets) from xs \<longrightarrow> 1 \<le> length xs" by (auto simp: path_to_def Suc_le_eq)
  then show ?thesis
    using shortest_from_found [OF assms(1-3) refl, of 1 path_size] assms(4) unfolding findShortestPath_def by simp
qed

end

section \<open>Changing many edges\<close>

lemma Min_sorted_head: "finite A \<Longrightarrow> sorted_list_of_set A = x # xs \<Longrightarrow> Min A = x \<and> sorted_list_of_set (A - {x}) = xs \<and> x \<in> A"
proof -
  assume A: "finite A" "sorted_list_of_set A = x # xs"
  then have ne: "A \<noteq> {}" by auto
  have "sorted_list_of_set A = Min A # sorted_list_of_set (A - {Min A})" using sorted_list_of_set_nonempty [OF A(1) ne] .
  then show ?thesis using A Min_in [OF A(1) ne] by simp
qed

context bitvector
begin

text \<open>
  The nodes of the vector are taken in ascending order; the new edges are noted as long as there is
  room.
\<close>

definition add_inv :: "'b BVGraph \<Rightarrow> nat set \<Rightarrow> nat \<Rightarrow> nat \<Rightarrow> nat list \<times> 'b BVGraph \<Rightarrow> bool" where
  "add_inv g0 F to mx = (\<lambda>(added, g). gok g \<and> ok (g_t1 g) \<and> (\<exists>ys. sorted_list_of_set F = ys @ sorted_list_of_set (S (g_t1 g))
     \<and> added = take mx (filter (\<lambda>x. (x, to) \<notin> edges S g0) ys) \<and> edges S g = edges S g0 \<union> set ys \<times> {to}))"

lemma add_step:
  assumes "gok g0" "F \<subseteq> {..<bv_size B}" "to < bv_size B" "add_inv g0 F to mx s"
  shows "(\<exists>s'. addEdges_round B to mx s = Some (Inr (Again s')) \<and> add_inv g0 F to mx s' \<and> card (S (g_t1 (snd s'))) < card (S (g_t1 (snd s))))
    \<or> (\<exists>r. addEdges_round B to mx s = Some (Inr (Done r)) \<and> add_inv g0 F to mx r \<and> S (g_t1 (snd r)) = {})"
proof -
  obtain added g where s: "s = (added, g)" by fastforce
  obtain ys where I: "gok g" "ok (g_t1 g)" "sorted_list_of_set F = ys @ sorted_list_of_set (S (g_t1 g))"
    "added = take mx (filter (\<lambda>x. (x, to) \<notin> edges S g0) ys)" "edges S g = edges S g0 \<union> set ys \<times> {to}" using assms(4) s by (auto simp: add_inv_def)
  show ?thesis
  proof (cases "S (g_t1 g) = {}")
    case True
    then show ?thesis using assms(4) s empty [OF I(2)] by (auto simp: addEdges_round_def lift_def)
  next
    case False
    obtain x xs where x: "sorted_list_of_set (S (g_t1 g)) = x # xs" using finite_S [OF I(2)] False by (metis sorted_list_of_set_eq_Nil_iff list.exhaust)
    have m: "Min (S (g_t1 g)) = x" "sorted_list_of_set (S (g_t1 g) - {x}) = xs" "x \<in> S (g_t1 g)" using Min_sorted_head [OF finite_S [OF I(2)] x] by simp_all
    obtain t1 where t1: "bv_getAndClearFirstOne B (g_t1 g) = Inr (x, t1)" "ok t1" "S t1 = S (g_t1 g) - {x}" using first [OF I(2) False] m(1) by auto
    have xb: "x < bv_size B" using m(3) bound [OF I(2)] by auto
    have d: "x \<notin> set ys" using distinct_sorted_list_of_set [of F] I(3) x by auto
    have a: "v_at g x = Inr (g_v g ! x)" "ok (g_v g ! x)" using gok_at [OF I(1) xb] by simp_all
    have e: "to \<in> S (g_v g ! x) \<longleftrightarrow> (x, to) \<in> edges S g0" using edges_Image [OF I(1) xb] I(5) d by auto
    obtain b where b: "bv_setBit B to (g_v g ! x) = Inr ((x, to) \<notin> edges S g0, b)" "ok b" "S b = insert to (S (g_v g ! x))"
      using setBit [OF a(2) assms(3)] e by auto
    have g1: "gok (g\<lparr>g_t1 := t1\<rparr>)" using gok_t1(1) [OF I(1) t1(2)] .
    obtain g' where g': "set_v x b (g\<lparr>g_t1 := t1\<rparr>) = Inr g'" "gok g'" "g_t1 g' = t1" "edges S g' = {(u, y). if u = x then y \<in> S b else (u, y) \<in> edges S g}"
      using gok_set [OF g1 xb b(2)] by auto
    let ?added = "if (x, to) \<notin> edges S g0 \<and> length added < mx then added @ [x] else added"
    have "?added = take mx (filter (\<lambda>x. (x, to) \<notin> edges S g0) (ys @ [x]))" using I(4) by (auto simp: min_def)
    moreover have "edges S g' = edges S g0 \<union> set (ys @ [x]) \<times> {to}" using g'(4) b(3) I(5) edges_Image [OF I(1) xb] by (auto split: if_splits)
    moreover have "sorted_list_of_set F = (ys @ [x]) @ sorted_list_of_set (S t1)" using I(3) x m(2) t1(3) by simp
    ultimately have "add_inv g0 F to mx (?added, g')" using g' t1(2) unfolding add_inv_def by blast
    moreover have "card (S t1) < card (S (g_t1 g))" unfolding t1(3) by (rule card_Diff1_less [OF finite_S [OF I(2)] m(3)])
    moreover have "addEdges_round B to mx s = Some (Inr (Again (?added, g')))"
      using s empty [OF I(2)] False t1(1) a(1) b(1) g'(1) by (simp add: addEdges_round_def lift_def v_at_def)
    ultimately show ?thesis using s g'(3) by fastforce
  qed
qed

lemma addEdges_edges:
  assumes "gok g" "ok from" "to < bv_size B"
  shows "\<exists>g'. g_addEdges B from to mx g = Some (Inr (take mx (filter (\<lambda>x. (x, to) \<notin> edges S g) (sorted_list_of_set (S from))), g'))
    \<and> gok g' \<and> edges S g' = edges S g \<union> S from \<times> {to}"
proof -
  obtain t1 where t1: "bv_copyFrom B from (g_t1 g) = Inr t1" "ok t1" "S t1 = S from" using copyFrom [of "g_t1 g" "from"] assms by (auto simp: graph_ok_def)
  have "add_inv g (S from) to mx ([], g\<lparr>g_t1 := t1\<rparr>)" using t1 gok_t1(1) [OF assms(1) t1(2)] by (simp add: add_inv_def)
  then have "\<exists>r. loop (addEdges_round B to mx) ([], g\<lparr>g_t1 := t1\<rparr>) = Some (Inr r) \<and> add_inv g (S from) to mx r \<and> S (g_t1 (snd r)) = {}"
    using add_step [OF assms(1) bound [OF assms(2)] assms(3)]
    by (rule loop_rule [where I = "add_inv g (S from) to mx" and m = "\<lambda>s. card (S (g_t1 (snd s)))"])
  then show ?thesis using t1(1) finite_S [OF assms(2)] by (auto simp: g_addEdges_def add_inv_def lift_def)
qed

definition rem_inv :: "'b BVGraph \<Rightarrow> nat set \<Rightarrow> bool \<times> 'b BVGraph \<Rightarrow> bool" where
  "rem_inv g0 F = (\<lambda>(res, g). gok g \<and> ok (g_t1 g) \<and> S (g_t1 g) \<subseteq> F \<and> edges S g = {(x, y) \<in> edges S g0. x \<notin> F - S (g_t1 g)}
     \<and> (res \<longleftrightarrow> (\<exists>x y. (x, y) \<in> edges S g0 \<and> x \<in> F - S (g_t1 g))))"

lemma rem_step:
  assumes "gok g0" "F \<subseteq> {..<bv_size B}" "rem_inv g0 F s"
  shows "(\<exists>s'. removeFrom_round B s = Some (Inr (Again s')) \<and> rem_inv g0 F s' \<and> card (S (g_t1 (snd s'))) < card (S (g_t1 (snd s))))
    \<or> (\<exists>r. removeFrom_round B s = Some (Inr (Done r)) \<and> rem_inv g0 F r \<and> S (g_t1 (snd r)) = {})"
proof -
  obtain res g where s: "s = (res, g)" by fastforce
  have I: "gok g" "ok (g_t1 g)" "S (g_t1 g) \<subseteq> F" "edges S g = {(x, y) \<in> edges S g0. x \<notin> F - S (g_t1 g)}"
    "res \<longleftrightarrow> (\<exists>x y. (x, y) \<in> edges S g0 \<and> x \<in> F - S (g_t1 g))" using assms(3) s by (simp_all add: rem_inv_def)
  show ?thesis
  proof (cases "S (g_t1 g) = {}")
    case True
    then show ?thesis using assms(3) s empty [OF I(2)] by (auto simp: removeFrom_round_def lift_def)
  next
    case False
    let ?x = "Min (S (g_t1 g))"
    have x: "?x \<in> S (g_t1 g)" "?x < bv_size B" using Min_in [OF finite_S [OF I(2)] False] bound [OF I(2)] by auto
    obtain t1 where t1: "bv_getAndClearFirstOne B (g_t1 g) = Inr (?x, t1)" "ok t1" "S t1 = S (g_t1 g) - {?x}" using first [OF I(2) False] by blast
    have c: "card (S t1) < card (S (g_t1 g))" unfolding t1(3) by (rule card_Diff1_less [OF finite_S [OF I(2)] x(1)])
    have a: "v_at g ?x = Inr (g_v g ! ?x)" "ok (g_v g ! ?x)" using gok_at [OF I(1) x(2)] by simp_all
    have e: "S (g_v g ! ?x) = edges S g0 `` {?x}" using edges_Image [OF I(1) x(2)] I(4) x(1) by auto
    have F: "F - S t1 = insert ?x (F - S (g_t1 g))" using t1(3) x(1) I(3) by auto
    have g1: "gok (g\<lparr>g_t1 := t1\<rparr>)" using gok_t1(1) [OF I(1) t1(2)] .
    show ?thesis
    proof (cases "S (g_v g ! ?x) = {}")
      case True
      then have "rem_inv g0 F (res, g\<lparr>g_t1 := t1\<rparr>)" using I t1 g1 e F by (auto simp: rem_inv_def)
      moreover have "removeFrom_round B s = Some (Inr (Again (res, g\<lparr>g_t1 := t1\<rparr>)))"
        using s empty [OF I(2)] False t1(1) a True empty [OF a(2)] by (simp add: removeFrom_round_def lift_def)
      ultimately show ?thesis using s c by fastforce
    next
      case ne: False
      have cl: "ok (bv_clear B (g_v g ! ?x))" "S (bv_clear B (g_v g ! ?x)) = {}" using clear [OF ok_shape [OF a(2)]] by simp_all
      obtain g' where g': "set_v ?x (bv_clear B (g_v g ! ?x)) (g\<lparr>g_t1 := t1\<rparr>) = Inr g'" "gok g'" "g_t1 g' = t1"
        "edges S g' = {(u, y). if u = ?x then y \<in> {} else (u, y) \<in> edges S g}" using gok_set [OF g1 x(2) cl(1)] cl(2) by auto
      have "edges S g' = {(u, y) \<in> edges S g0. u \<notin> F - S t1}" using g'(4) I(4) F by (auto split: if_splits)
      then have "rem_inv g0 F (True, g')" using I(3) t1 g' e F ne by (auto simp: rem_inv_def)
      moreover have "removeFrom_round B s = Some (Inr (Again (True, g')))"
        using s empty [OF I(2)] False t1(1) a ne empty [OF a(2)] g'(1) by (simp add: removeFrom_round_def lift_def)
      ultimately show ?thesis using s c g'(3) by fastforce
    qed
  qed
qed

lemma removeEdgesFrom_all_edges:
  assumes "gok g" "ok from"
  shows "\<exists>g'. removeEdgesFrom_all B from g = Some (Inr (\<exists>x y. (x, y) \<in> edges S g \<and> x \<in> S from, g')) \<and> gok g' \<and> edges S g' = {(x, y) \<in> edges S g. x \<notin> S from}"
proof -
  obtain t1 where t1: "bv_copyFrom B from (g_t1 g) = Inr t1" "ok t1" "S t1 = S from" using copyFrom [of "g_t1 g" "from"] assms by (auto simp: graph_ok_def)
  have "rem_inv g (S from) (False, g\<lparr>g_t1 := t1\<rparr>)" using t1 gok_t1(1) [OF assms(1) t1(2)] by (simp add: rem_inv_def)
  then have "\<exists>r. loop (removeFrom_round B) (False, g\<lparr>g_t1 := t1\<rparr>) = Some (Inr r) \<and> rem_inv g (S from) r \<and> S (g_t1 (snd r)) = {}"
    using rem_step [OF assms(1) bound [OF assms(2)]]
    by (rule loop_rule [where I = "rem_inv g (S from)" and m = "\<lambda>s. card (S (g_t1 (snd s)))"])
  then show ?thesis using t1(1) by (auto simp: removeEdgesFrom_all_def rem_inv_def lift_def)
qed

end

section \<open>Properties\<close>

abbreviation two_level_graph :: "nat \<Rightarrow> TwoLevelBitVector BVGraph \<Rightarrow> bool" where
  "two_level_graph k \<equiv> graph_ok (4096 * k) (tl_shape k) (tl_ok k)"

lemmas two_level_ops =
  two_level.addEdge_edges [unfolded TwoLevel_size] two_level.isReachable_iff [unfolded TwoLevel_size]
  two_level.findShortestPath_shortest [unfolded TwoLevel_size] two_level.addEdges_edges [unfolded TwoLevel_size]

text \<open>
  C26. The search of the lock graph comes back on every graph, cyclic ones included, and answers
  whether some target can be reached from the start along the edges, which it leaves alone.
\<close>

theorem isReachable_correct:
  assumes "two_level_graph k g" "from < 4096 * k" "tl_ok k targets"
  shows "\<exists>g'. isReachable (TwoLevel k) from targets g = Some (Inr (\<exists>y\<in>tl_set k targets. (from, y) \<in> (edges (tl_set k) g)\<^sup>*, g'))
    \<and> two_level_graph k g' \<and> g_v g' = g_v g"
  using assms by (rule two_level_ops(2))

text \<open>
  The path found is a shortest one: if any path from the start to a target fits the array, the
  result is the length of a shortest path and the array holds such a path; otherwise it is 0.
\<close>

theorem findShortestPath_correct:
  assumes "two_level_graph k g" "tl_ok k targets" "from < 4096 * k" "path_size \<le> length path"
  shows "\<exists>r path'. findShortestPath (TwoLevel k) from targets path path_size g = Some (Inr (r, path')) \<and> length path' = length path
    \<and> (if r = 0 then \<forall>xs. path_to (edges (tl_set k) g) (tl_set k targets) from xs \<longrightarrow> path_size < length xs
       else r \<le> path_size \<and> path_to (edges (tl_set k) g) (tl_set k targets) from (take r path')
         \<and> (\<forall>xs. path_to (edges (tl_set k) g) (tl_set k targets) from xs \<longrightarrow> r \<le> length xs))"
  using assms by (rule two_level_ops(3))

definition no_edges :: "TwoLevelBitVector BVGraph" where
  "no_edges = \<lparr>g_v = replicate 4096 no_bits, g_t1 = no_bits, g_t2 = no_bits\<rparr>"

lemma no_edges_ok: "two_level_graph 1 no_edges" "edges (tl_set 1) no_edges = {}"
  using no_bits_ok tl_okD(1) [OF no_bits_ok(1)] by (simp_all add: no_edges_def graph_ok_def edges_def)

lemma demo_graph:
  obtains g t where "addEdge (TwoLevel 1) 3 5 no_edges = Inr (True, g)" "two_level_graph 1 g" "edges (tl_set 1) g = {(3, 5)}"
    "tl_setBit 5 no_bits = Inr (True, t)" "tl_ok 1 t" "tl_set 1 t = {5}"
  using two_level_ops(1) [OF no_edges_ok(1), of 3 5] no_edges_ok(2) tl_setBit_set [OF no_bits_ok(1), of 5] no_bits_ok(2) by auto

theorem isReachable_correct_witness:
  "\<exists>g t g'. addEdge (TwoLevel 1) 3 5 no_edges = Inr (True, g) \<and> tl_setBit 5 no_bits = Inr (True, t)
    \<and> isReachable (TwoLevel 1) 3 t g = Some (Inr (True, g'))"
proof -
  obtain g t where d: "addEdge (TwoLevel 1) 3 5 no_edges = Inr (True, g)" "two_level_graph 1 g" "edges (tl_set 1) g = {(3, 5)}"
    "tl_setBit 5 no_bits = Inr (True, t)" "tl_ok 1 t" "tl_set 1 t = {5}" by (rule demo_graph)
  then show ?thesis using isReachable_correct [OF d(2), of 3 t] by auto
qed

theorem findShortestPath_correct_witness:
  "\<exists>g t. addEdge (TwoLevel 1) 3 5 no_edges = Inr (True, g) \<and> tl_setBit 5 no_bits = Inr (True, t)
    \<and> findShortestPath (TwoLevel 1) 3 t [0, 0] 2 g = Some (Inr (2, [3, 5]))"
proof -
  obtain g t where d: "addEdge (TwoLevel 1) 3 5 no_edges = Inr (True, g)" "two_level_graph 1 g" "edges (tl_set 1) g = {(3, 5)}"
    "tl_setBit 5 no_bits = Inr (True, t)" "tl_ok 1 t" "tl_set 1 t = {5}" by (rule demo_graph)
  obtain r p where r: "findShortestPath (TwoLevel 1) 3 t [0, 0] 2 g = Some (Inr (r, p))" "length p = 2"
    "if r = 0 then \<forall>xs. path_to {(3, 5)} {5} 3 xs \<longrightarrow> 2 < length xs
       else r \<le> 2 \<and> path_to {(3, 5)} {5} 3 (take r p) \<and> (\<forall>xs. path_to {(3, 5)} {5} 3 xs \<longrightarrow> r \<le> length xs)"
    using findShortestPath_correct [OF d(2,5), of 3 2 "[0, 0]", unfolded d(3,6)] by auto
  have "path_to {(3, 5)} {5} 3 [3, 5]" by (simp add: path_to_def)
  have "r \<noteq> 0"
  proof
    assume "r = 0"
    then have "\<forall>xs. path_to {(3, 5)} {5} 3 xs \<longrightarrow> 2 < length xs" using r(3) by simp
    from this [rule_format, OF \<open>path_to {(3, 5)} {5} 3 [3, 5]\<close>] show False by simp
  qed
  then have "path_to {(3, 5)} {5} 3 (take r p)" "r \<le> 2" using r(3) by simp_all
  then have "r = 2 \<and> p = [3, 5]" using r(2) \<open>r \<noteq> 0\<close> by (auto simp: path_to_def length_Suc_conv numeral_2_eq_2 le_Suc_eq)
  then show ?thesis using d(1,4) r(1) by simp
qed

end
