(* ===== verification/San_Deadlock.thy ===== *)
theory San_Deadlock
  imports San_BVGraph "HOL-Library.Multiset"
begin

text \<open>
  The deadlock detector of \<^verbatim>\<open>sanitizer_deadlock_detector.h\<close>: the locks a thread holds, and the graph of
  lock acquisitions with its nodes, epochs and recorded edges. Both are templates over the bit vector.
\<close>

section \<open>Locks of a thread\<close>

text \<open>
  \<^verbatim>\<open>DeadlockDetectorTLS\<close>. Of an array with a counter the list holds the used part; both arrays have 64
  entries.
\<close>

record 'b DeadlockDetectorTLS =
  dt_bv :: 'b
  dt_epoch :: nat
  dt_recursive :: "nat list"
  dt_locks :: "(nat \<times> u32) list"

definition dt_clear :: "('b, 'i) bv_ops \<Rightarrow> 'b DeadlockDetectorTLS \<Rightarrow> 'b DeadlockDetectorTLS" where
  "dt_clear B d = d\<lparr>dt_bv := bv_clear B (dt_bv d), dt_epoch := 0, dt_recursive := [], dt_locks := []\<rparr>"

definition dt_empty :: "('b, 'i) bv_ops \<Rightarrow> 'b DeadlockDetectorTLS \<Rightarrow> bool" where
  "dt_empty B d = bv_empty B (dt_bv d)"

definition dt_ensureCurrentEpoch :: "('b, 'i) bv_ops \<Rightarrow> nat \<Rightarrow> 'b DeadlockDetectorTLS \<Rightarrow> 'b DeadlockDetectorTLS" where
  "dt_ensureCurrentEpoch B current_epoch d =
     (if dt_epoch d = current_epoch then d
      else d\<lparr>dt_bv := bv_clear B (dt_bv d), dt_epoch := current_epoch, dt_recursive := [], dt_locks := []\<rparr>)"

definition addLock :: "('b, 'i) bv_ops \<Rightarrow> nat \<Rightarrow> nat \<Rightarrow> u32 \<Rightarrow> 'b DeadlockDetectorTLS \<Rightarrow> (bool \<times> 'b DeadlockDetectorTLS) res" where
  "addLock B lock_id current_epoch stk d =
     rbind (check (dt_epoch d = current_epoch)) (\<lambda>_. rbind (bv_setBit B lock_id (dt_bv d)) (\<lambda>(new, b).
     if \<not> new then
       rbind (check (length (dt_recursive d) < 64)) (\<lambda>_. Inr (False, d\<lparr>dt_bv := b, dt_recursive := dt_recursive d @ [lock_id]\<rparr>))
     else rbind (check (length (dt_locks d) < 64)) (\<lambda>_. Inr (True, d\<lparr>dt_bv := b, dt_locks := dt_locks d @ [(wrap32 lock_id, stk)]\<rparr>))))"

text \<open>The search from the end of an array, and the removal of an entry by a swap with the last one.\<close>

primrec find_down :: "(nat \<Rightarrow> bool) \<Rightarrow> nat \<Rightarrow> nat option" where
  "find_down P 0 = None"
| "find_down P (Suc i) = (if P i then Some i else find_down P i)"

definition swap_out :: "nat \<Rightarrow> 'a list \<Rightarrow> 'a list" where
  "swap_out i xs = butlast (xs[i := last xs])"

definition removeLock :: "('b, 'i) bv_ops \<Rightarrow> nat \<Rightarrow> 'b DeadlockDetectorTLS \<Rightarrow> 'b DeadlockDetectorTLS res" where
  "removeLock B lock_id d =
     (case find_down (\<lambda>i. dt_recursive d ! i = lock_id) (length (dt_recursive d)) of
        Some i \<Rightarrow> Inr (d\<lparr>dt_recursive := swap_out i (dt_recursive d)\<rparr>)
      | None \<Rightarrow>
          rbind (bv_clearBit B lock_id (dt_bv d)) (\<lambda>(was, b).
          if \<not> was then Inr (d\<lparr>dt_bv := b\<rparr>)
          else (case find_down (\<lambda>i. fst (dt_locks d ! i) = wrap32 lock_id) (length (dt_locks d)) of
                  Some i \<Rightarrow> Inr (d\<lparr>dt_bv := b, dt_locks := swap_out i (dt_locks d)\<rparr>)
                | None \<Rightarrow> Inr (d\<lparr>dt_bv := b\<rparr>))))"

definition dt_findLockContext :: "nat \<Rightarrow> 'b DeadlockDetectorTLS \<Rightarrow> u32" where
  "dt_findLockContext lock_id d = (case find (\<lambda>l. fst l = wrap32 lock_id) (dt_locks d) of Some l \<Rightarrow> snd l | None \<Rightarrow> 0)"

definition getLocks :: "nat \<Rightarrow> 'b DeadlockDetectorTLS \<Rightarrow> 'b res" where
  "getLocks current_epoch d = rbind (check (dt_epoch d = current_epoch)) (\<lambda>_. Inr (dt_bv d))"

section \<open>The detector\<close>

record Edge =
  e_from :: nat
  e_to :: nat
  e_stk_from :: u32
  e_stk_to :: u32
  e_tid :: int

record 'b DeadlockDetector =
  dd_epoch :: nat
  dd_available :: 'b
  dd_recycled :: 'b
  dd_tmp :: 'b
  dd_g :: "'b BVGraph"
  dd_data :: "nat list"
  dd_edges :: "Edge list"

definition dd_clear :: "('b, 'i) bv_ops \<Rightarrow> 'b DeadlockDetector \<Rightarrow> 'b DeadlockDetector" where
  "dd_clear B d = d\<lparr>dd_epoch := 0, dd_available := bv_clear B (dd_available d), dd_recycled := bv_clear B (dd_recycled d),
     dd_g := g_clear B (dd_g d), dd_edges := []\<rparr>"

definition nodeToEpoch :: "('b, 'i) bv_ops \<Rightarrow> nat \<Rightarrow> nat" where
  "nodeToEpoch B node = node div bv_size B * bv_size B"

definition nodeToIndexUnchecked :: "('b, 'i) bv_ops \<Rightarrow> nat \<Rightarrow> nat" where
  "nodeToIndexUnchecked B node = node mod bv_size B"

definition nodeToIndex :: "('b, 'i) bv_ops \<Rightarrow> nat \<Rightarrow> 'b DeadlockDetector \<Rightarrow> nat res" where
  "nodeToIndex B node d =
     rbind (check (node \<ge> bv_size B)) (\<lambda>_. rbind (check (dd_epoch d = nodeToEpoch B node)) (\<lambda>_. Inr (nodeToIndexUnchecked B node)))"

definition indexToNode :: "('b, 'i) bv_ops \<Rightarrow> nat \<Rightarrow> 'b DeadlockDetector \<Rightarrow> nat res" where
  "indexToNode B idx d = rbind (check (idx < bv_size B)) (\<lambda>_. Inr ((idx + dd_epoch d) mod 2 ^ 64))"

definition getAvailableNode :: "('b, 'i) bv_ops \<Rightarrow> nat \<Rightarrow> 'b DeadlockDetector \<Rightarrow> (nat \<times> 'b DeadlockDetector) res" where
  "getAvailableNode B data d =
     rbind (bv_getAndClearFirstOne B (dd_available d)) (\<lambda>(idx, av).
     if idx < length (dd_data d) then
       let d = d\<lparr>dd_available := av, dd_data := (dd_data d)[idx := data]\<rparr> in rbind (indexToNode B idx d) (\<lambda>node. Inr (node, d))
     else Inl HeapOverflow)"

text \<open>The loop that drops the recorded edges of recycled nodes, from the last one on.\<close>

fun purge_edges :: "('b, 'i) bv_ops \<Rightarrow> 'b \<Rightarrow> nat \<Rightarrow> Edge list \<Rightarrow> Edge list res" where
  "purge_edges B recycled 0 es = Inr es"
| "purge_edges B recycled (Suc i) es =
     rbind (bv_getBit B (e_from (es ! i)) recycled) (\<lambda>a.
     rbind (if a then Inr True else bv_getBit B (e_to (es ! i)) recycled) (\<lambda>a.
     purge_edges B recycled i (if a then swap_out i es else es)))"

definition newNode :: "('b, 'i) bv_ops \<Rightarrow> nat \<Rightarrow> 'b DeadlockDetector \<Rightarrow> (nat \<times> 'b DeadlockDetector) res" where
  "newNode B data d =
     (if \<not> bv_empty B (dd_available d) then getAvailableNode B data d
      else if \<not> bv_empty B (dd_recycled d) then
        rbind (purge_edges B (dd_recycled d) (length (dd_edges d)) (dd_edges d)) (\<lambda>es.
        rbind (check (bv_empty B (dd_available d))) (\<lambda>_.
        rbind (removeEdgesTo B (dd_recycled d) (dd_g d)) (\<lambda>(_, g).
        rbind (bv_setUnion B (dd_recycled d) (dd_available d)) (\<lambda>(_, av).
        getAvailableNode B data (d\<lparr>dd_edges := es, dd_g := g, dd_available := av, dd_recycled := bv_clear B (dd_recycled d)\<rparr>)))))
      else getAvailableNode B data
        (d\<lparr>dd_epoch := (dd_epoch d + bv_size B) mod 2 ^ 64, dd_recycled := bv_clear B (dd_recycled d), dd_available := bv_setAll B (dd_available d),
           dd_g := g_clear B (dd_g d), dd_edges := []\<rparr>))"

definition getData :: "('b, 'i) bv_ops \<Rightarrow> nat \<Rightarrow> 'b DeadlockDetector \<Rightarrow> nat res" where
  "getData B node d = rbind (nodeToIndex B node d) (\<lambda>i. if i < length (dd_data d) then Inr (dd_data d ! i) else Inl ObjectOverread)"

definition nodeBelongsToCurrentEpoch :: "('b, 'i) bv_ops \<Rightarrow> nat \<Rightarrow> 'b DeadlockDetector \<Rightarrow> bool" where
  "nodeBelongsToCurrentEpoch B node d \<longleftrightarrow> node \<noteq> 0 \<and> nodeToEpoch B node = dd_epoch d"

definition removeNode :: "('b, 'i) bv_ops \<Rightarrow> nat \<Rightarrow> 'b DeadlockDetector \<Rightarrow> 'b DeadlockDetector res" where
  "removeNode B node d =
     rbind (nodeToIndex B node d) (\<lambda>idx.
     rbind (bv_getBit B idx (dd_available d)) (\<lambda>a. rbind (check (\<not> a)) (\<lambda>_.
     rbind (bv_setBit B idx (dd_recycled d)) (\<lambda>(new, r). rbind (check new) (\<lambda>_.
     rbind (removeEdgesFrom B idx (dd_g d)) (\<lambda>g. Inr (d\<lparr>dd_recycled := r, dd_g := g\<rparr>)))))))"

definition ensureCurrentEpoch :: "('b, 'i) bv_ops \<Rightarrow> 'b DeadlockDetector \<Rightarrow> 'b DeadlockDetectorTLS \<Rightarrow> 'b DeadlockDetectorTLS" where
  "ensureCurrentEpoch B d t = dt_ensureCurrentEpoch B (dd_epoch d) t"

definition onLockBefore :: "('b, 'i) bv_ops \<Rightarrow> nat \<Rightarrow> 'b DeadlockDetector \<Rightarrow> 'b DeadlockDetectorTLS
    \<Rightarrow> (bool \<times> 'b DeadlockDetector \<times> 'b DeadlockDetectorTLS) run" where
  "onLockBefore B cur_node d t =
     (let t = ensureCurrentEpoch B d t in
      obind (lift (rbind (nodeToIndex B cur_node d) (\<lambda>idx. rbind (getLocks (dd_epoch d) t) (\<lambda>held. Inr (idx, held))))) (\<lambda>(idx, held).
      obind (isReachable B idx held (dd_g d)) (\<lambda>(r, g). lift (Inr (r, d\<lparr>dd_g := g\<rparr>, t)))))"

definition findLockContext :: "('b, 'i) bv_ops \<Rightarrow> nat \<Rightarrow> 'b DeadlockDetector \<Rightarrow> 'b DeadlockDetectorTLS \<Rightarrow> u32 res" where
  "findLockContext B node d t = rbind (nodeToIndex B node d) (\<lambda>i. Inr (dt_findLockContext i t))"

definition onLockAfter :: "('b, 'i) bv_ops \<Rightarrow> nat \<Rightarrow> u32 \<Rightarrow> 'b DeadlockDetector \<Rightarrow> 'b DeadlockDetectorTLS \<Rightarrow> 'b DeadlockDetectorTLS res" where
  "onLockAfter B cur_node stk d t =
     (let t = ensureCurrentEpoch B d t in
      rbind (nodeToIndex B cur_node d) (\<lambda>idx. rbind (addLock B idx (dd_epoch d) stk t) (\<lambda>(_, t). Inr t)))"

text \<open>The loop over the held locks ends at the first edge that is missing.\<close>

definition hasAllEdges :: "('b, 'i) bv_ops \<Rightarrow> nat \<Rightarrow> 'b DeadlockDetector \<Rightarrow> 'b DeadlockDetectorTLS \<Rightarrow> bool res" where
  "hasAllEdges B cur_node d t =
     (let local_epoch = dt_epoch t in
      if cur_node \<noteq> 0 \<and> local_epoch = dd_epoch d \<and> local_epoch = nodeToEpoch B cur_node then
        rbind (rany (\<lambda>l. rbind (g_hasEdge B (fst l) (nodeToIndexUnchecked B cur_node) (dd_g d)) (\<lambda>e. Inr (\<not> e))) (dt_locks t)) (\<lambda>missing. Inr (\<not> missing))
      else Inr False)"

fun record_edges :: "nat \<Rightarrow> nat \<Rightarrow> u32 \<Rightarrow> int \<Rightarrow> 'b DeadlockDetectorTLS \<Rightarrow> nat list \<Rightarrow> Edge list \<Rightarrow> Edge list" where
  "record_edges size_edges cur_idx stk tid t [] es = es"
| "record_edges size_edges cur_idx stk tid t (x # xs) es =
     record_edges size_edges cur_idx stk tid t xs
       (if length es < size_edges
        then es @ [\<lparr>e_from = x mod 2 ^ 16, e_to = cur_idx mod 2 ^ 16, e_stk_from = dt_findLockContext x t, e_stk_to = stk, e_tid = tid\<rparr>]
        else es)"

definition dd_addEdges :: "('b, 'i) bv_ops \<Rightarrow> nat \<Rightarrow> u32 \<Rightarrow> int \<Rightarrow> 'b DeadlockDetector \<Rightarrow> 'b DeadlockDetectorTLS
    \<Rightarrow> (nat \<times> 'b DeadlockDetector \<times> 'b DeadlockDetectorTLS) run" where
  "dd_addEdges B cur_node stk unique_tid d t =
     (let t = ensureCurrentEpoch B d t in
      obind (lift (rbind (nodeToIndex B cur_node d) (\<lambda>idx. rbind (getLocks (dd_epoch d) t) (\<lambda>held. Inr (idx, held))))) (\<lambda>(idx, held).
      obind (g_addEdges B held idx 40 (dd_g d)) (\<lambda>(added, g).
      lift (Inr (length added,
        d\<lparr>dd_g := g, dd_edges := record_edges (bv_size B * 32) idx stk unique_tid t added (dd_edges d)\<rparr>, t)))))"

definition findEdge :: "('b, 'i) bv_ops \<Rightarrow> nat \<Rightarrow> nat \<Rightarrow> 'b DeadlockDetector \<Rightarrow> (u32 \<times> u32 \<times> int) option res" where
  "findEdge B from_node to_node d =
     rbind (nodeToIndex B from_node d) (\<lambda>from_idx. rbind (nodeToIndex B to_node d) (\<lambda>to_idx.
     Inr (map_option (\<lambda>e. (e_stk_from e, e_stk_to e, e_tid e)) (find (\<lambda>e. e_from e = from_idx \<and> e_to e = to_idx) (dd_edges d)))))"

definition isHeld :: "('b, 'i) bv_ops \<Rightarrow> nat \<Rightarrow> 'b DeadlockDetector \<Rightarrow> 'b DeadlockDetectorTLS \<Rightarrow> bool res" where
  "isHeld B node d t = rbind (getLocks (dd_epoch d) t) (\<lambda>held. rbind (nodeToIndex B node d) (\<lambda>i. bv_getBit B i held))"

definition onLock :: "('b, 'i) bv_ops \<Rightarrow> nat \<Rightarrow> u32 \<Rightarrow> 'b DeadlockDetector \<Rightarrow> 'b DeadlockDetectorTLS
    \<Rightarrow> (bool \<times> 'b DeadlockDetector \<times> 'b DeadlockDetectorTLS) run" where
  "onLock B cur_node stk d t =
     (let t = ensureCurrentEpoch B d t in
      obind (lift (isHeld B cur_node d t)) (\<lambda>h.
      obind (if \<not> h then onLockBefore B cur_node d t else lift (Inr (False, d, t))) (\<lambda>(is_reachable, d, t).
      obind (dd_addEdges B cur_node stk 0 d t) (\<lambda>(_, d, t).
      obind (lift (onLockAfter B cur_node stk d t)) (\<lambda>t. lift (Inr (is_reachable, d, t)))))))"

definition onTryLock :: "('b, 'i) bv_ops \<Rightarrow> nat \<Rightarrow> u32 \<Rightarrow> 'b DeadlockDetector \<Rightarrow> 'b DeadlockDetectorTLS \<Rightarrow> (bool \<times> 'b DeadlockDetectorTLS) res" where
  "onTryLock B cur_node stk d t =
     (let t = ensureCurrentEpoch B d t in
      rbind (nodeToIndex B cur_node d) (\<lambda>idx. rbind (addLock B idx (dd_epoch d) stk t) (\<lambda>(_, t). Inr (False, t))))"

definition onFirstLock :: "('b, 'i) bv_ops \<Rightarrow> nat \<Rightarrow> u32 \<Rightarrow> 'b DeadlockDetectorTLS \<Rightarrow> (bool \<times> 'b DeadlockDetectorTLS) res" where
  "onFirstLock B node stk t =
     (if \<not> dt_empty B t then Inr (False, t)
      else if dt_epoch t \<noteq> 0 \<and> dt_epoch t = nodeToEpoch B node then
        rbind (addLock B (nodeToIndexUnchecked B node) (nodeToEpoch B node) stk t) (\<lambda>(_, t). Inr (True, t))
      else Inr (False, t))"

fun indices_to_nodes :: "('b, 'i) bv_ops \<Rightarrow> 'b DeadlockDetector \<Rightarrow> nat list \<Rightarrow> nat list res" where
  "indices_to_nodes B d [] = Inr []"
| "indices_to_nodes B d (i # is) = rbind (indexToNode B i d) (\<lambda>n. rbind (indices_to_nodes B d is) (\<lambda>ns. Inr (n # ns)))"

definition findPathToLock :: "('b, 'i) bv_ops \<Rightarrow> nat \<Rightarrow> nat list \<Rightarrow> nat \<Rightarrow> 'b DeadlockDetector \<Rightarrow> 'b DeadlockDetectorTLS
    \<Rightarrow> (nat \<times> nat list \<times> 'b DeadlockDetector) run" where
  "findPathToLock B cur_node path path_size d t =
     obind (lift (rbind (getLocks (dd_epoch d) t) (\<lambda>held. rbind (bv_copyFrom B held (dd_tmp d)) (\<lambda>tmp.
       rbind (nodeToIndex B cur_node d) (\<lambda>idx. rbind (bv_getBit B idx tmp) (\<lambda>h. rbind (check (\<not> h)) (\<lambda>_. Inr (idx, tmp)))))))) (\<lambda>(idx, tmp).
     obind (findShortestPath B idx tmp path path_size (dd_g d)) (\<lambda>(res, path).
     obind (lift (indices_to_nodes B d (take res path))) (\<lambda>nodes.
     lift (rbind (check (res \<noteq> 0 \<longrightarrow> hd nodes = cur_node)) (\<lambda>_. Inr (res, nodes @ drop res path, d\<lparr>dd_tmp := tmp\<rparr>))))))"

definition onUnlock :: "('b, 'i) bv_ops \<Rightarrow> nat \<Rightarrow> 'b DeadlockDetectorTLS \<Rightarrow> 'b DeadlockDetectorTLS res" where
  "onUnlock B node t = (if dt_epoch t = nodeToEpoch B node then removeLock B (nodeToIndexUnchecked B node) t else Inr t)"

definition onLockFast :: "('b, 'i) bv_ops \<Rightarrow> nat \<Rightarrow> u32 \<Rightarrow> 'b DeadlockDetector \<Rightarrow> 'b DeadlockDetectorTLS \<Rightarrow> (bool \<times> 'b DeadlockDetectorTLS) res" where
  "onLockFast B node stk d t =
     rbind (hasAllEdges B node d t) (\<lambda>all.
     if all then rbind (addLock B (nodeToIndexUnchecked B node) (nodeToEpoch B node) stk t) (\<lambda>(_, t). Inr (True, t)) else Inr (False, t))"

section \<open>Held locks as a multiset\<close>

lemma find_down_Some: "find_down P n = Some i \<Longrightarrow> i < n \<and> P i"
  by (induction n) (auto split: if_splits)

lemma find_down_None: "find_down P n = None \<longleftrightarrow> (\<forall>i<n. \<not> P i)"
  by (induction n) (auto simp: less_Suc_eq)

lemma find_down_mem: "find_down (\<lambda>i. f (xs ! i) = x) (length xs) = None \<longleftrightarrow> x \<notin> f ` set xs"
  by (auto simp: find_down_None set_conv_nth)

lemma mset_swap_out: "i < length xs \<Longrightarrow> mset (swap_out i xs) = mset xs - {#xs ! i#}"
proof (cases xs rule: rev_cases)
  case (snoc ys y)
  assume "i < length xs"
  then show ?thesis using snoc by (cases "i = length ys") (auto simp: swap_out_def list_update_append mset_update nth_append)
qed (simp add: swap_out_def)

lemma length_swap_out [simp]: "length (swap_out i xs) = length xs - 1"
  by (simp add: swap_out_def)

lemma swap_out_map: "map f (swap_out i xs) = swap_out i (map f xs)"
  by (cases xs rule: rev_cases) (simp_all add: swap_out_def map_butlast map_update)

lemma set_swap_out: "i < length xs \<Longrightarrow> distinct xs \<Longrightarrow> set (swap_out i xs) = set xs - {xs ! i} \<and> distinct (swap_out i xs)"
  using mset_swap_out [of i xs] mset_eq_setD [of "swap_out i xs" "remove1 (xs ! i) xs"] mset_eq_imp_distinct_iff [of "swap_out i xs" "remove1 (xs ! i) xs"]
  by simp

text \<open>A thread's locks are in order when the vector and the list hold the same locks, and only held locks are recursive.\<close>

definition tls_ok :: "('b \<Rightarrow> bool) \<Rightarrow> ('b \<Rightarrow> nat set) \<Rightarrow> 'b DeadlockDetectorTLS \<Rightarrow> bool" where
  "tls_ok ok S t \<longleftrightarrow> ok (dt_bv t) \<and> distinct (map fst (dt_locks t)) \<and> fst ` set (dt_locks t) = S (dt_bv t)
     \<and> set (dt_recursive t) \<subseteq> S (dt_bv t) \<and> length (dt_recursive t) \<le> 64 \<and> length (dt_locks t) \<le> 64"

definition held :: "'b DeadlockDetectorTLS \<Rightarrow> nat multiset" where
  "held t = mset (map fst (dt_locks t)) + mset (dt_recursive t)"

context bitvector
begin

abbreviation "tok \<equiv> tls_ok ok S"

lemma held_set: "tok t \<Longrightarrow> set_mset (held t) = S (dt_bv t)"
  by (auto simp: tls_ok_def held_def)

lemma tok_bound: "tok t \<Longrightarrow> S (dt_bv t) \<subseteq> {..<bv_size B}"
  using bound by (simp add: tls_ok_def)

lemma ensure_held:
  assumes "tok t"
  shows "tok (dt_ensureCurrentEpoch B e t)" "dt_epoch (dt_ensureCurrentEpoch B e t) = e"
    "held (dt_ensureCurrentEpoch B e t) = (if dt_epoch t = e then held t else {#})"
    "S (dt_bv (dt_ensureCurrentEpoch B e t)) = (if dt_epoch t = e then S (dt_bv t) else {})"
  using assms clear ok_shape by (auto simp: dt_ensureCurrentEpoch_def tls_ok_def held_def)

lemma dt_clear_held: "shape (dt_bv t) \<Longrightarrow> tok (dt_clear B t) \<and> held (dt_clear B t) = {#} \<and> dt_epoch (dt_clear B t) = 0"
  using clear by (simp add: dt_clear_def tls_ok_def held_def)

lemma addLock_held:
  assumes "tok t" "i < bv_size B" "bv_size B \<le> 2 ^ 32" "dt_epoch t = e"
    and "length (dt_recursive t) < 64" "length (dt_locks t) < 64"
  shows "\<exists>t'. addLock B i e stk t = Inr (i \<notin># held t, t') \<and> tok t' \<and> held t' = add_mset i (held t) \<and> dt_epoch t' = e"
proof -
  have ok: "ok (dt_bv t)" using assms(1) by (simp add: tls_ok_def)
  obtain b where b: "bv_setBit B i (dt_bv t) = Inr (i \<notin> S (dt_bv t), b)" "ok b" "S b = insert i (S (dt_bv t))"
    using setBit [OF ok assms(2)] by blast
  have w: "wrap32 i = i" using assms(2,3) by (simp add: wrap32_def)
  show ?thesis
  proof (cases "i \<in> S (dt_bv t)")
    case True
    then show ?thesis using assms b held_set [OF assms(1)] by (auto simp: addLock_def check_def tls_ok_def held_def insert_absorb)
  next
    case False
    then show ?thesis using assms b w held_set [OF assms(1)] by (auto simp: addLock_def check_def tls_ok_def held_def)
  qed
qed

lemma removeLock_held:
  assumes "tok t" "i < bv_size B" "bv_size B \<le> 2 ^ 32"
  shows "\<exists>t'. removeLock B i t = Inr t' \<and> tok t' \<and> held t' = held t - {#i#} \<and> dt_epoch t' = dt_epoch t"
proof (cases "find_down (\<lambda>j. dt_recursive t ! j = i) (length (dt_recursive t))")
  case (Some j)
  then have j: "j < length (dt_recursive t)" "dt_recursive t ! j = i" by (auto dest: find_down_Some)
  then have m: "mset (swap_out j (dt_recursive t)) = mset (dt_recursive t) - {#i#}" "i \<in># mset (dt_recursive t)"
    using mset_swap_out nth_mem by fastforce+
  have "set (swap_out j (dt_recursive t)) \<subseteq> set (dt_recursive t)" using m(1) in_diffD by (metis set_mset_mset subsetI)
  then show ?thesis using assms(1) Some m by (auto simp: removeLock_def tls_ok_def held_def)
next
  case None
  then have r: "i \<notin> set (dt_recursive t)" using find_down_mem [of id "dt_recursive t" i] by simp
  have ok: "ok (dt_bv t)" using assms(1) by (simp add: tls_ok_def)
  obtain b where b: "bv_clearBit B i (dt_bv t) = Inr (i \<in> S (dt_bv t), b)" "ok b" "S b = S (dt_bv t) - {i}"
    using clearBit [OF ok assms(2)] by blast
  have w: "wrap32 i = i" using assms(2,3) by (simp add: wrap32_def)
  show ?thesis
  proof (cases "i \<in> S (dt_bv t)")
    case False
    then show ?thesis using assms(1) b None held_set [OF assms(1)] by (auto simp: removeLock_def tls_ok_def held_def)
  next
    case True
    then obtain j where j: "find_down (\<lambda>j. fst (dt_locks t ! j) = i) (length (dt_locks t)) = Some j"
      using assms(1) find_down_mem [of fst "dt_locks t" i] by (auto simp: tls_ok_def)
    then have j': "j < length (dt_locks t)" "fst (dt_locks t ! j) = i" by (auto dest: find_down_Some)
    then have m: "mset (map fst (swap_out j (dt_locks t))) = mset (map fst (dt_locks t)) - {#i#}" "i \<in># mset (map fst (dt_locks t))"
      and s: "fst ` set (swap_out j (dt_locks t)) = S (dt_bv t) - {i}" "distinct (map fst (swap_out j (dt_locks t)))"
      using mset_swap_out [of j "map fst (dt_locks t)"] set_swap_out [of j "map fst (dt_locks t)"] assms(1) True
      by (simp_all add: swap_out_map tls_ok_def flip: set_map)
    then show ?thesis using assms(1) b True None j w r by (auto simp: removeLock_def tls_ok_def held_def simp del: mset_map)
  qed
qed

lemma addLock_full:
  assumes "tok t" "i < bv_size B" "if i \<in># held t then length (dt_recursive t) = 64 else length (dt_locks t) = 64"
  shows "addLock B i e stk t = Inl CheckFailed"
  using assms setBit [of "dt_bv t" i] held_set [OF assms(1)] by (auto simp: addLock_def check_def tls_ok_def split: if_splits)

end

section \<open>The detector in order\<close>

text \<open>
  \<open>dd_ok\<close> is the shape of a detector of \<open>n\<close> nodes. \<open>dd_clean\<close> says that nodes not in use take no part in
  the graph: a recycled node has no edge to another one, an available one none at all, and each
  recorded edge of a node in use is an edge of the graph.
\<close>

definition dd_ok :: "nat \<Rightarrow> ('b \<Rightarrow> bool) \<Rightarrow> ('b \<Rightarrow> bool) \<Rightarrow> ('b \<Rightarrow> nat set) \<Rightarrow> 'b DeadlockDetector \<Rightarrow> bool" where
  "dd_ok n shape ok S d \<longleftrightarrow> ok (dd_available d) \<and> ok (dd_recycled d) \<and> shape (dd_tmp d) \<and> graph_ok n shape ok (dd_g d)
     \<and> length (dd_data d) = n \<and> n dvd dd_epoch d \<and> dd_epoch d + n \<le> 2 ^ 64
     \<and> (dd_epoch d = 0 \<longrightarrow> S (dd_available d) = {} \<and> S (dd_recycled d) = {})
     \<and> S (dd_available d) \<inter> S (dd_recycled d) = {} \<and> length (dd_edges d) \<le> n * 32 \<and> (\<forall>e\<in>set (dd_edges d). e_from e < n \<and> e_to e < n)"

definition dd_clean :: "('b \<Rightarrow> nat set) \<Rightarrow> 'b DeadlockDetector \<Rightarrow> bool" where
  "dd_clean S d \<longleftrightarrow> (\<forall>(x, y)\<in>edges S (dd_g d). x \<notin> S (dd_available d) \<union> S (dd_recycled d) \<and> y \<notin> S (dd_available d))
     \<and> (\<forall>e\<in>set (dd_edges d). e_from e \<notin> S (dd_available d) \<and> e_to e \<notin> S (dd_available d)
          \<and> (e_from e \<notin> S (dd_recycled d) \<longrightarrow> (e_from e, e_to e) \<in> edges S (dd_g d)))"

text \<open>The node of an index that is in use.\<close>

definition node_of :: "nat \<Rightarrow> ('b \<Rightarrow> nat set) \<Rightarrow> 'b DeadlockDetector \<Rightarrow> nat \<Rightarrow> nat \<Rightarrow> bool" where
  "node_of n S d node i \<longleftrightarrow> i < n \<and> node = dd_epoch d + i \<and> dd_epoch d \<noteq> 0 \<and> i \<notin> S (dd_available d) \<union> S (dd_recycled d)"

lemma dvd_node: "n dvd (e::nat) \<Longrightarrow> i < n \<Longrightarrow> (e + i) div n * n = e \<and> (e + i) mod n = i"
  by (auto elim!: dvdE)

context bitvector
begin

abbreviation "dok \<equiv> dd_ok (bv_size B) shape ok S"
abbreviation "node_at \<equiv> node_of (bv_size B) S"

lemma nodeToIndex_node: "dok d \<Longrightarrow> node_at d node i \<Longrightarrow> nodeToIndex B node d = Inr i"
  using dvd_node [of "bv_size B" "dd_epoch d" i] dvd_imp_le [of "bv_size B" "dd_epoch d"]
  by (auto simp: dd_ok_def node_of_def nodeToIndex_def nodeToEpoch_def nodeToIndexUnchecked_def check_def)

lemma node_epoch: "dok d \<Longrightarrow> node_at d node i \<Longrightarrow> nodeToEpoch B node = dd_epoch d \<and> nodeToIndexUnchecked B node = i \<and> nodeBelongsToCurrentEpoch B node d"
  using dvd_node [of "bv_size B" "dd_epoch d" i]
  by (auto simp: dd_ok_def node_of_def nodeToEpoch_def nodeToIndexUnchecked_def nodeBelongsToCurrentEpoch_def)

lemma indexToNode_at: "dok d \<Longrightarrow> i < bv_size B \<Longrightarrow> indexToNode B i d = Inr (dd_epoch d + i)"
  by (simp add: dd_ok_def indexToNode_def check_def)

lemma purge_edges_filter:
  assumes "ok r"
  shows "i \<le> length es \<Longrightarrow> \<forall>e\<in>set es. e_from e < bv_size B \<and> e_to e < bv_size B \<Longrightarrow>
    \<exists>es'. purge_edges B r i es = Inr es'
      \<and> mset es' = filter_mset (\<lambda>e. e_from e \<notin> S r \<and> e_to e \<notin> S r) (mset (take i es)) + mset (drop i es)"
proof (induction i arbitrary: es)
  case (Suc i)
  let ?e = "es ! i" let ?t = "e_from ?e \<in> S r \<or> e_to ?e \<in> S r"
  let ?es = "if ?t then swap_out i es else es"
  have i: "i < length es" and e: "e_from ?e < bv_size B" "e_to ?e < bv_size B" using Suc.prems by auto
  have b: "purge_edges B r (Suc i) es = purge_edges B r i ?es" using getBit [OF assms] e by auto
  have m: "mset (swap_out i es) = mset es - {#?e#}" using mset_swap_out [OF i] .
  have tk: "take i (swap_out i es) = take i es" using i by (simp add: swap_out_def butlast_conv_take)
  have "mset (take i es) + mset (drop i (swap_out i es)) = mset (swap_out i es)" using tk by (metis append_take_drop_id mset_append)
  also have "\<dots> = mset (take i es) + mset (drop (Suc i) es)" using m id_take_nth_drop [OF i] by (metis add_mset_remove_trivial mset.simps(2) mset_append union_mset_add_mset_right)
  finally have dr: "mset (drop i (swap_out i es)) = mset (drop (Suc i) es)" by simp
  have sub: "set ?es \<subseteq> set es" using m by (auto dest: in_diffD simp flip: set_mset_mset)
  then have es: "\<forall>e\<in>set ?es. e_from e < bv_size B \<and> e_to e < bv_size B" "i \<le> length ?es" using Suc.prems(2) i by (blast, auto)
  obtain es' where "purge_edges B r i ?es = Inr es'"
    "mset es' = filter_mset (\<lambda>e. e_from e \<notin> S r \<and> e_to e \<notin> S r) (mset (take i ?es)) + mset (drop i ?es)"
    using Suc.IH [OF es(2,1)] by blast
  then show ?case using b tk dr i by (auto simp: take_Suc_conv_app_nth Cons_nth_drop_Suc [symmetric] split: if_splits)
qed simp

lemma getAvailable_fresh:
  assumes "dok d" "dd_clean S d" "S (dd_available d) \<noteq> {}"
  shows "\<exists>node i d'. getAvailableNode B data d = Inr (node, d') \<and> dok d' \<and> dd_clean S d' \<and> node_at d' node i
    \<and> i \<in> S (dd_available d) \<and> dd_data d' = (dd_data d)[i := data] \<and> dd_g d' = dd_g d \<and> dd_epoch d' = dd_epoch d
    \<and> S (dd_available d') = S (dd_available d) - {i} \<and> dd_recycled d' = dd_recycled d \<and> dd_edges d' = dd_edges d"
proof -
  let ?i = "Min (S (dd_available d))"
  have ok: "ok (dd_available d)" using assms(1) by (simp add: dd_ok_def)
  obtain av where av: "bv_getAndClearFirstOne B (dd_available d) = Inr (?i, av)" "ok av" "S av = S (dd_available d) - {?i}"
    using first [OF ok assms(3)] by blast
  have i: "?i \<in> S (dd_available d)" using Min_in finite_S [OF ok] assms(3) by blast
  then have n: "?i < bv_size B" using bound [OF ok] by blast
  let ?d = "d\<lparr>dd_available := av, dd_data := (dd_data d)[?i := data]\<rparr>"
  have d: "dok ?d" using assms(1) av by (auto simp: dd_ok_def)
  have c: "dd_clean S ?d" using assms(2) av by (fastforce simp: dd_clean_def)
  have "node_at ?d (dd_epoch d + ?i) ?i" using assms(1) n i av by (auto simp: dd_ok_def node_of_def)
  moreover have "getAvailableNode B data d = Inr (dd_epoch d + ?i, ?d)"
    using av n indexToNode_at [OF d n] assms(1) by (simp add: getAvailableNode_def dd_ok_def)
  ultimately show ?thesis using d c i av(3) by (intro exI [of _ "dd_epoch d + ?i"] exI [of _ ?i] exI [of _ ?d]) simp
qed

end

section \<open>Nodes\<close>

context bitvector
begin

text \<open>The two ways to make nodes available again: those recycled, or all of them in a new epoch.\<close>

lemma recycle_ok:
  assumes "dok d" "dd_clean S d" "S (dd_available d) = {}" "S (dd_recycled d) \<noteq> {}"
  shows "\<exists>d1. newNode B data d = getAvailableNode B data d1 \<and> dok d1 \<and> dd_clean S d1 \<and> dd_epoch d1 = dd_epoch d
    \<and> S (dd_available d1) = S (dd_recycled d) \<and> S (dd_recycled d1) = {} \<and> dd_data d1 = dd_data d
    \<and> edges S (dd_g d1) = {(x, y) \<in> edges S (dd_g d). y \<notin> S (dd_recycled d)}"
proof -
  have ok: "ok (dd_available d)" "ok (dd_recycled d)" "gok (dd_g d)"
    and e: "\<forall>e\<in>set (dd_edges d). e_from e < bv_size B \<and> e_to e < bv_size B" using assms(1) by (simp_all add: dd_ok_def)
  obtain es where es: "purge_edges B (dd_recycled d) (length (dd_edges d)) (dd_edges d) = Inr es"
    "mset es = filter_mset (\<lambda>e. e_from e \<notin> S (dd_recycled d) \<and> e_to e \<notin> S (dd_recycled d)) (mset (dd_edges d))"
    using purge_edges_filter [OF ok(2) _ e, of "length (dd_edges d)"] by auto
  have es': "set es = {e \<in> set (dd_edges d). e_from e \<notin> S (dd_recycled d) \<and> e_to e \<notin> S (dd_recycled d)}" "length es \<le> length (dd_edges d)"
    using arg_cong [OF es(2), of set_mset] arg_cong [OF es(2), of size] size_filter_mset_lesseq [of _ "mset (dd_edges d)"] by (auto simp flip: set_mset_mset size_mset)
  obtain r g where g: "removeEdgesTo B (dd_recycled d) (dd_g d) = Inr (r, g)" "gok g" "edges S g = {(x, y) \<in> edges S (dd_g d). y \<notin> S (dd_recycled d)}"
    using removeEdgesTo_edges [OF ok(3,2)] by auto
  obtain c av where av: "bv_setUnion B (dd_recycled d) (dd_available d) = Inr (c, av)" "ok av" "S av = S (dd_recycled d)"
    using setUnion [OF ok(1,2)] assms(3) by auto
  let ?d = "d\<lparr>dd_edges := es, dd_g := g, dd_available := av, dd_recycled := bv_clear B (dd_recycled d)\<rparr>"
  have cl: "ok (bv_clear B (dd_recycled d))" "S (bv_clear B (dd_recycled d)) = {}" using clear ok_shape ok(2) by blast+
  have "newNode B data d = getAvailableNode B data ?d"
    using assms(3,4) empty [OF ok(1)] empty [OF ok(2)] es(1) g(1) av(1) by (simp add: newNode_def check_def)
  moreover have "dok ?d" using assms(1,4) es' g(2) av cl by (auto simp: dd_ok_def)
  moreover have "dd_clean S ?d" using assms(2) es'(1) g(3) av(3) cl(2) by (fastforce simp: dd_clean_def)
  ultimately show ?thesis using g(3) av(3) cl(2) by (intro exI [of _ ?d]) simp
qed

lemma flush_ok:
  assumes "dok d" "S (dd_available d) = {}" "S (dd_recycled d) = {}" "dd_epoch d + 2 * bv_size B \<le> 2 ^ 64" "0 < bv_size B"
  shows "\<exists>d1. newNode B data d = getAvailableNode B data d1 \<and> dok d1 \<and> dd_clean S d1 \<and> dd_epoch d1 = dd_epoch d + bv_size B
    \<and> S (dd_available d1) = {..<bv_size B} \<and> S (dd_recycled d1) = {} \<and> dd_data d1 = dd_data d \<and> edges S (dd_g d1) = {}"
proof -
  have ok: "ok (dd_available d)" "ok (dd_recycled d)" "gok (dd_g d)" using assms(1) by (simp_all add: dd_ok_def)
  let ?d = "d\<lparr>dd_epoch := (dd_epoch d + bv_size B) mod 2 ^ 64, dd_recycled := bv_clear B (dd_recycled d), dd_available := bv_setAll B (dd_available d),
    dd_g := g_clear B (dd_g d), dd_edges := []\<rparr>"
  have e: "(dd_epoch d + bv_size B) mod 2 ^ 64 = dd_epoch d + bv_size B" using assms(4,5) by simp
  have g: "gok (g_clear B (dd_g d))" "edges S (g_clear B (dd_g d)) = {}"
    using g_clear_edges [of "dd_g d"] ok(3) ok_shape by (simp_all add: graph_ok_def)
  have a: "ok (bv_setAll B (dd_available d))" "S (bv_setAll B (dd_available d)) = {..<bv_size B}"
    "ok (bv_clear B (dd_recycled d))" "S (bv_clear B (dd_recycled d)) = {}" using setAll clear ok_shape ok(1,2) by blast+
  have "newNode B data d = getAvailableNode B data ?d"
    using assms(2,3) empty [OF ok(1)] empty [OF ok(2)] by (simp add: newNode_def)
  moreover have "dok ?d" using assms(1,4,5) e g(1) a by (auto simp: dd_ok_def)
  moreover have "dd_clean S ?d" using g(2) by (simp add: dd_clean_def)
  ultimately show ?thesis using e g(2) a by (intro exI [of _ ?d]) simp
qed

text \<open>The detector \<open>newNode\<close> takes the node from.\<close>

lemma newNode_available:
  assumes "dok d" "dd_clean S d" "dd_epoch d + 2 * bv_size B \<le> 2 ^ 64" "0 < bv_size B"
  obtains d1 where "newNode B data d = getAvailableNode B data d1" "dok d1" "dd_clean S d1" "S (dd_available d1) \<noteq> {}" "dd_data d1 = dd_data d"
    "if S (dd_available d) \<union> S (dd_recycled d) = {} then dd_epoch d1 = dd_epoch d + bv_size B \<and> edges S (dd_g d1) = {} \<and> S (dd_available d1) = {..<bv_size B} \<and> S (dd_recycled d1) = {}
     else dd_epoch d1 = dd_epoch d \<and> edges S (dd_g d1) = {(x, y) \<in> edges S (dd_g d). S (dd_available d) = {} \<longrightarrow> y \<notin> S (dd_recycled d)}
       \<and> S (dd_available d1) \<union> S (dd_recycled d1) = S (dd_available d) \<union> S (dd_recycled d)"
proof (cases "S (dd_available d) = {}")
  case False
  then have "newNode B data d = getAvailableNode B data d" using empty assms(1) by (simp add: newNode_def dd_ok_def)
  then show ?thesis using assms(1,2) False by (intro that [of d]) auto
next
  case True
  note av = this
  show ?thesis
  proof (cases "S (dd_recycled d) = {}")
    case True
    obtain d1 where "newNode B data d = getAvailableNode B data d1" "dok d1" "dd_clean S d1" "dd_epoch d1 = dd_epoch d + bv_size B"
      "S (dd_available d1) = {..<bv_size B}" "S (dd_recycled d1) = {}" "dd_data d1 = dd_data d" "edges S (dd_g d1) = {}"
      using flush_ok [OF assms(1) av True assms(3,4)] by blast
    then show ?thesis using av True assms(4) by (intro that [of d1]) auto
  next
    case False
    obtain d1 where "newNode B data d = getAvailableNode B data d1" "dok d1" "dd_clean S d1" "dd_epoch d1 = dd_epoch d"
      "S (dd_available d1) = S (dd_recycled d)" "S (dd_recycled d1) = {}" "dd_data d1 = dd_data d"
      "edges S (dd_g d1) = {(x, y) \<in> edges S (dd_g d). y \<notin> S (dd_recycled d)}"
      using recycle_ok [OF assms(1,2) av False] by blast
    then show ?thesis using av False by (intro that [of d1]) auto
  qed
qed

lemma newNode_fresh:
  assumes "dok d" "dd_clean S d" "dd_epoch d + 2 * bv_size B \<le> 2 ^ 64" "0 < bv_size B"
  obtains node d' i where "newNode B data d = Inr (node, d')" "dok d'" "dd_clean S d'" "node_at d' node i" "dd_data d' = (dd_data d)[i := data]"
    "i \<notin> Field (edges S (dd_g d'))"
    "S (dd_available d) \<union> S (dd_recycled d) = {} \<longrightarrow>
       dd_epoch d' = dd_epoch d + bv_size B \<and> edges S (dd_g d') = {} \<and> S (dd_available d') \<union> S (dd_recycled d') = {..<bv_size B} - {i}"
    "S (dd_available d) \<union> S (dd_recycled d) \<noteq> {} \<longrightarrow>
       dd_epoch d' = dd_epoch d \<and> edges S (dd_g d') = {(x, y) \<in> edges S (dd_g d). S (dd_available d) = {} \<longrightarrow> y \<notin> S (dd_recycled d)}
       \<and> S (dd_available d') \<union> S (dd_recycled d') = S (dd_available d) \<union> S (dd_recycled d) - {i} \<and> i \<in> S (dd_available d) \<union> S (dd_recycled d)"
proof -
  obtain d1 where d1: "newNode B data d = getAvailableNode B data d1" "dok d1" "dd_clean S d1" "S (dd_available d1) \<noteq> {}" "dd_data d1 = dd_data d"
    and e1: "if S (dd_available d) \<union> S (dd_recycled d) = {} then dd_epoch d1 = dd_epoch d + bv_size B \<and> edges S (dd_g d1) = {} \<and> S (dd_available d1) = {..<bv_size B} \<and> S (dd_recycled d1) = {}
       else dd_epoch d1 = dd_epoch d \<and> edges S (dd_g d1) = {(x, y) \<in> edges S (dd_g d). S (dd_available d) = {} \<longrightarrow> y \<notin> S (dd_recycled d)}
         \<and> S (dd_available d1) \<union> S (dd_recycled d1) = S (dd_available d) \<union> S (dd_recycled d)"
    using newNode_available [OF assms] by blast
  obtain node i d' where d': "getAvailableNode B data d1 = Inr (node, d')" "dok d'" "dd_clean S d'" "node_at d' node i"
    "i \<in> S (dd_available d1)" "dd_data d' = (dd_data d1)[i := data]" "dd_g d' = dd_g d1" "dd_epoch d' = dd_epoch d1"
    "S (dd_available d') = S (dd_available d1) - {i}" "dd_recycled d' = dd_recycled d1"
    using getAvailable_fresh [OF d1(2-4), of data] by blast
  have "i \<notin> Field (edges S (dd_g d1))" using d1(3) d'(5) by (auto simp: dd_clean_def Field_def)
  moreover have "S (dd_available d') \<union> S (dd_recycled d') = S (dd_available d1) \<union> S (dd_recycled d1) - {i}"
    using d1(2) d'(5,9,10) by (auto simp: dd_ok_def)
  moreover have "S (dd_available d1) \<union> S (dd_recycled d1) = S (dd_available d) \<union> S (dd_recycled d) \<Longrightarrow> i \<in> S (dd_available d) \<or> i \<in> S (dd_recycled d)"
    using d'(5) by blast
  ultimately show ?thesis using d1(1,5) d' e1 by (intro that [of node d' i]) (simp_all split: if_splits)
qed

lemma removeNode_ok:
  assumes "dok d" "dd_clean S d" "node_at d node i"
  shows "\<exists>d'. removeNode B node d = Inr d' \<and> dok d' \<and> dd_clean S d' \<and> dd_epoch d' = dd_epoch d \<and> dd_data d' = dd_data d
    \<and> dd_available d' = dd_available d \<and> S (dd_recycled d') = insert i (S (dd_recycled d)) \<and> edges S (dd_g d') = {(x, y) \<in> edges S (dd_g d). x \<noteq> i}"
proof -
  have ok: "ok (dd_available d)" "ok (dd_recycled d)" "gok (dd_g d)" using assms(1) by (simp_all add: dd_ok_def)
  have i: "i < bv_size B" "i \<notin> S (dd_available d)" "i \<notin> S (dd_recycled d)" "dd_epoch d \<noteq> 0" using assms(3) by (simp_all add: node_of_def)
  obtain r where r: "bv_setBit B i (dd_recycled d) = Inr (True, r)" "ok r" "S r = insert i (S (dd_recycled d))"
    using setBit [OF ok(2) i(1)] i(3) by auto
  obtain g where g: "removeEdgesFrom B i (dd_g d) = Inr g" "gok g" "edges S g = {(x, y) \<in> edges S (dd_g d). x \<noteq> i}"
    using removeEdgesFrom_edges [OF ok(3) i(1)] by blast
  let ?d = "d\<lparr>dd_recycled := r, dd_g := g\<rparr>"
  have "removeNode B node d = Inr ?d"
    using nodeToIndex_node [OF assms(1,3)] getBit [OF ok(1) i(1)] i(2) r(1) g(1) by (simp add: removeNode_def check_def)
  moreover have "dok ?d" using assms(1) r g i by (auto simp: dd_ok_def)
  moreover have "dd_clean S ?d" using assms(2) r(3) g(3) by (fastforce simp: dd_clean_def)
  ultimately show ?thesis using r(3) g(3) by (intro exI [of _ ?d]) simp
qed

end

section \<open>Cycles\<close>

lemma reach_with_edges_back: "(i, y) \<in> (E \<union> H \<times> {i})\<^sup>* \<Longrightarrow> (i, y) \<in> E\<^sup>*"
  by (induction rule: rtrancl_induct) (auto intro: rtrancl_into_rtrancl)

lemma acyclic_edges_to:
  assumes "finite H" "acyclic E"
  shows "acyclic (E \<union> H \<times> {i}) \<longleftrightarrow> \<not> (\<exists>y\<in>H. (i, y) \<in> E\<^sup>*)"
  using assms(1)
proof (induction H)
  case (insert y H)
  have e: "E \<union> insert y H \<times> {i} = insert (y, i) (E \<union> H \<times> {i})" by auto
  have "(i, y) \<in> E\<^sup>* \<Longrightarrow> (i, y) \<in> (E \<union> H \<times> {i})\<^sup>*" by (rule subsetD [OF rtrancl_mono]) simp_all
  then have "(i, y) \<in> (E \<union> H \<times> {i})\<^sup>* \<longleftrightarrow> (i, y) \<in> E\<^sup>*" using reach_with_edges_back [of i y E H] by blast
  then show ?case unfolding e acyclic_insert insert.IH by blast
qed (simp add: assms(2))

section \<open>Lock events\<close>

text \<open>The recorded edges of an event: as many as the array takes.\<close>

definition edge_to :: "nat \<Rightarrow> u32 \<Rightarrow> int \<Rightarrow> 'b DeadlockDetectorTLS \<Rightarrow> nat \<Rightarrow> Edge" where
  "edge_to i stk tid t x = \<lparr>e_from = x mod 2 ^ 16, e_to = i mod 2 ^ 16, e_stk_from = dt_findLockContext x t, e_stk_to = stk, e_tid = tid\<rparr>"

lemma record_edges_eq: "length es \<le> m \<Longrightarrow> record_edges m i stk tid t xs es = es @ map (edge_to i stk tid t) (take (m - length es) xs)"
proof (induction xs arbitrary: es)
  case (Cons x xs)
  show ?case
  proof (cases "length es < m")
    case True
    then have "m - length es = Suc (m - Suc (length es))" by simp
    then show ?thesis using True Cons.IH [of "es @ [edge_to i stk tid t x]"] by (simp add: edge_to_def)
  next
    case False
    then show ?thesis using Cons by simp
  qed
qed simp

lemma edge_to_ends: "H \<subseteq> {..<n} \<Longrightarrow> i < n \<Longrightarrow> n \<le> 2 ^ 16 \<Longrightarrow> x \<in> H \<Longrightarrow> e_from (edge_to i stk tid t x) = x \<and> e_to (edge_to i stk tid t x) = i"
  by (auto simp: edge_to_def)

text \<open>The locks of a thread that count in the detector's epoch, and that they are nodes in use.\<close>

definition locks_in :: "('b \<Rightarrow> nat set) \<Rightarrow> 'b DeadlockDetector \<Rightarrow> 'b DeadlockDetectorTLS \<Rightarrow> nat set" where
  "locks_in S d t = (if dt_epoch t = dd_epoch d then S (dt_bv t) else {})"

definition locks_live :: "('b \<Rightarrow> nat set) \<Rightarrow> 'b DeadlockDetector \<Rightarrow> 'b DeadlockDetectorTLS \<Rightarrow> bool" where
  "locks_live S d t \<longleftrightarrow> locks_in S d t \<inter> (S (dd_available d) \<union> S (dd_recycled d)) = {}"

context bitvector
begin

lemma ensure_locks:
  assumes "tok t"
  shows "tok (ensureCurrentEpoch B d t)" "dt_epoch (ensureCurrentEpoch B d t) = dd_epoch d" "S (dt_bv (ensureCurrentEpoch B d t)) = locks_in S d t"
    "getLocks (dd_epoch d) (ensureCurrentEpoch B d t) = Inr (dt_bv (ensureCurrentEpoch B d t))"
    "ensureCurrentEpoch B d (ensureCurrentEpoch B d t) = ensureCurrentEpoch B d t"
  using ensure_held [OF assms, of "dd_epoch d"] by (simp_all add: ensureCurrentEpoch_def locks_in_def getLocks_def check_def dt_ensureCurrentEpoch_def)

lemma ensure_epoch_cong: "dd_epoch d' = dd_epoch d \<Longrightarrow> ensureCurrentEpoch B d' = ensureCurrentEpoch B d \<and> locks_in S d' = locks_in S d"
  by (auto simp: ensureCurrentEpoch_def locks_in_def)

lemma isHeld_iff: "dok d \<Longrightarrow> tok t \<Longrightarrow> node_at d node i \<Longrightarrow> isHeld B node d (ensureCurrentEpoch B d t) = Inr (i \<in> locks_in S d t)"
  using ensure_locks [of t d] nodeToIndex_node [of d node i] getBit [of "dt_bv (ensureCurrentEpoch B d t)" i]
  by (auto simp: isHeld_def tls_ok_def node_of_def)

lemma onLockBefore_iff:
  assumes "dok d" "tok t" "node_at d node i"
  shows "\<exists>d'. onLockBefore B node d t = Some (Inr (\<exists>y\<in>locks_in S d t. (i, y) \<in> (edges S (dd_g d))\<^sup>*, d', ensureCurrentEpoch B d t))
    \<and> dok d' \<and> edges S (dd_g d') = edges S (dd_g d) \<and> d' = d\<lparr>dd_g := dd_g d'\<rparr>"
proof -
  note t = ensure_locks [OF assms(2), of d]
  have ok: "gok (dd_g d)" "ok (dt_bv (ensureCurrentEpoch B d t))" "i < bv_size B" using assms t(1) by (auto simp: dd_ok_def tls_ok_def node_of_def)
  obtain g where g: "isReachable B i (dt_bv (ensureCurrentEpoch B d t)) (dd_g d) = Some (Inr (\<exists>y\<in>locks_in S d t. (i, y) \<in> (edges S (dd_g d))\<^sup>*, g))"
    "gok g" "g_v g = g_v (dd_g d)" using isReachable_iff [OF ok(1,3,2)] t(3) by auto
  have "edges S g = edges S (dd_g d)" using g(3) by (simp add: edges_def)
  moreover have "dok (d\<lparr>dd_g := g\<rparr>)" using assms(1) g(2) by (simp add: dd_ok_def)
  ultimately show ?thesis using g(1) t(4) nodeToIndex_node [OF assms(1,3)]
    by (intro exI [of _ "d\<lparr>dd_g := g\<rparr>"]) (simp add: onLockBefore_def Let_def lift_def)
qed

lemma dd_addEdges_edges:
  assumes "dok d" "dd_clean S d" "tok t" "node_at d node i" "locks_live S d t" "bv_size B \<le> 2 ^ 16"
  shows "\<exists>n d'. dd_addEdges B node stk tid d t = Some (Inr (n, d', ensureCurrentEpoch B d t)) \<and> dok d' \<and> dd_clean S d'
    \<and> edges S (dd_g d') = edges S (dd_g d) \<union> locks_in S d t \<times> {i} \<and> d' = d\<lparr>dd_g := dd_g d', dd_edges := dd_edges d'\<rparr>
    \<and> dd_edges d' = dd_edges d @ map (edge_to i stk tid (ensureCurrentEpoch B d t))
        (take (bv_size B * 32 - length (dd_edges d)) (take 40 (filter (\<lambda>x. (x, i) \<notin> edges S (dd_g d)) (sorted_list_of_set (locks_in S d t)))))"
proof -
  note t = ensure_locks [OF assms(3), of d]
  define new where "new = take 40 (filter (\<lambda>x. (x, i) \<notin> edges S (dd_g d)) (sorted_list_of_set (locks_in S d t)))"
  define es where "es = dd_edges d @ map (edge_to i stk tid (ensureCurrentEpoch B d t)) (take (bv_size B * 32 - length (dd_edges d)) new)"
  have ok: "gok (dd_g d)" "ok (dt_bv (ensureCurrentEpoch B d t))" "i < bv_size B" using assms t(1) by (auto simp: dd_ok_def tls_ok_def node_of_def)
  have bd: "locks_in S d t \<subseteq> {..<bv_size B}" "finite (locks_in S d t)" using bound [OF ok(2)] finite_S [OF ok(2)] t(3) by auto
  obtain g where g: "g_addEdges B (dt_bv (ensureCurrentEpoch B d t)) i 40 (dd_g d) = Some (Inr (new, g))" "gok g"
    "edges S g = edges S (dd_g d) \<union> locks_in S d t \<times> {i}" using addEdges_edges [OF ok(1,2,3), of 40] t(3) unfolding new_def by auto
  have len: "length (dd_edges d) \<le> bv_size B * 32" using assms(1) by (simp add: dd_ok_def)
  then have len': "length es \<le> bv_size B * 32" by (simp add: es_def)
  have new: "x \<in> locks_in S d t" if "x \<in> set new" for x using that bd(2) by (auto simp: new_def dest: in_set_takeD)
  have es: "e \<in> set (dd_edges d) \<or> e_from e \<in> locks_in S d t \<and> e_to e = i" if "e \<in> set es" for e
  proof -
    have "e \<in> set (dd_edges d) \<or> (\<exists>x\<in>set new. e = edge_to i stk tid (ensureCurrentEpoch B d t) x)"
      using that by (auto simp: es_def dest: in_set_takeD)
    then show ?thesis using new edge_to_ends [OF bd(1) ok(3) assms(6) new, of _ stk tid "ensureCurrentEpoch B d t"] by auto
  qed
  let ?d = "d\<lparr>dd_g := g, dd_edges := es\<rparr>"
  have "\<forall>e\<in>set es. e_from e < bv_size B \<and> e_to e < bv_size B" 
  proof
    fix e assume "e \<in> set es"
    then show "e_from e < bv_size B \<and> e_to e < bv_size B" using es [of e] assms(1) bd(1) ok(3) by (auto simp: dd_ok_def)
  qed
  then have d: "dok ?d" using assms(1) g(2) len' unfolding dd_ok_def by simp
  have "\<forall>e\<in>set es. e_from e \<notin> S (dd_available d) \<and> e_to e \<notin> S (dd_available d) \<and> (e_from e \<notin> S (dd_recycled d) \<longrightarrow> (e_from e, e_to e) \<in> edges S g)"
  proof
    fix e assume "e \<in> set es"
    then show "e_from e \<notin> S (dd_available d) \<and> e_to e \<notin> S (dd_available d) \<and> (e_from e \<notin> S (dd_recycled d) \<longrightarrow> (e_from e, e_to e) \<in> edges S g)"
      using es [of e] assms(2,4,5) g(3) by (auto simp: dd_clean_def locks_live_def node_of_def)
  qed
  moreover have "\<forall>(x, y)\<in>edges S g. x \<notin> S (dd_available d) \<union> S (dd_recycled d) \<and> y \<notin> S (dd_available d)"
    using assms(2,4,5) unfolding g(3) by (auto simp: dd_clean_def locks_live_def node_of_def)
  ultimately have c: "dd_clean S ?d" by (simp add: dd_clean_def)
  have "dd_addEdges B node stk tid d t = Some (Inr (length new, ?d, ensureCurrentEpoch B d t))"
    using g(1) t(4) nodeToIndex_node [OF assms(1,4)] record_edges_eq [OF len, of i stk tid "ensureCurrentEpoch B d t" new] by (simp add: dd_addEdges_def Let_def lift_def es_def)
  then show ?thesis using d c g(3) by (intro exI [of _ "length new"] exI [of _ ?d]) (simp add: es_def new_def)
qed

end

context bitvector
begin

lemma onLockAfter_held:
  assumes "dok d" "tok t" "node_at d node i" "bv_size B \<le> 2 ^ 16" "length (dt_recursive t) < 64" "length (dt_locks t) < 64"
  shows "\<exists>t'. onLockAfter B node stk d t = Inr t' \<and> tok t' \<and> held t' = add_mset i (held (ensureCurrentEpoch B d t)) \<and> dt_epoch t' = dd_epoch d"
    and "onTryLock B node stk d t = rbind (onLockAfter B node stk d t) (\<lambda>t. Inr (False, t))"
proof -
  note t = ensure_locks [OF assms(2), of d]
  have "i < bv_size B" using assms(3) by (simp add: node_of_def)
  moreover have "length (dt_recursive (ensureCurrentEpoch B d t)) < 64" "length (dt_locks (ensureCurrentEpoch B d t)) < 64"
    using assms(5,6) by (simp_all add: ensureCurrentEpoch_def dt_ensureCurrentEpoch_def)
  ultimately obtain b t' where "addLock B i (dd_epoch d) stk (ensureCurrentEpoch B d t) = Inr (b, t')" "tok t'"
    "held t' = add_mset i (held (ensureCurrentEpoch B d t))" "dt_epoch t' = dd_epoch d"
    using addLock_held [OF t(1) _ _ t(2), of i stk] assms(4) by auto
  then show "\<exists>t'. onLockAfter B node stk d t = Inr t' \<and> tok t' \<and> held t' = add_mset i (held (ensureCurrentEpoch B d t)) \<and> dt_epoch t' = dd_epoch d"
    "onTryLock B node stk d t = rbind (onLockAfter B node stk d t) (\<lambda>t. Inr (False, t))"
    using nodeToIndex_node [OF assms(1,3)] by (simp_all add: onLockAfter_def onTryLock_def Let_def)
qed

lemma finite_locks: "tok t \<Longrightarrow> finite (locks_in S d t)"
  using finite_S by (auto simp: locks_in_def tls_ok_def)

lemma locks_live_add:
  assumes "locks_live S d t" "tok t" "node_at d node i" "tok t'" "held t' = add_mset i (held (ensureCurrentEpoch B d t))" "dt_epoch t' = dd_epoch d"
  shows "locks_live S d t'"
  using assms held_set [OF assms(4)] held_set [OF ensure_locks(1) [OF assms(2), of d]] ensure_locks(3) [OF assms(2), of d]
  by (auto simp: locks_live_def locks_in_def node_of_def)

lemma onLock_cycle:
  assumes "dok d" "dd_clean S d" "tok t" "node_at d node i" "locks_live S d t" "bv_size B \<le> 2 ^ 16"
    and "length (dt_recursive t) < 64" "length (dt_locks t) < 64"
  shows "\<exists>d' t'. onLock B node stk d t = Some (Inr (i \<notin> locks_in S d t \<and> (\<exists>y\<in>locks_in S d t. (i, y) \<in> (edges S (dd_g d))\<^sup>*), d', t')) \<and> dok d' \<and> dd_clean S d' \<and> tok t' \<and> locks_live S d' t'
    \<and> edges S (dd_g d') = edges S (dd_g d) \<union> locks_in S d t \<times> {i} \<and> locks_in S d' t' = insert i (locks_in S d t)
    \<and> held t' = add_mset i (held (ensureCurrentEpoch B d t)) \<and> d' = d\<lparr>dd_g := dd_g d', dd_edges := dd_edges d'\<rparr> \<and> dt_epoch t' = dd_epoch d"
proof -
  let ?t = "ensureCurrentEpoch B d t"
  note t = ensure_locks [OF assms(3), of d]
  obtain d1 where d1: "(if i \<notin> locks_in S d t then onLockBefore B node d ?t else lift (Inr (False, d, ?t))) =
      Some (Inr (i \<notin> locks_in S d t \<and> (\<exists>y\<in>locks_in S d t. (i, y) \<in> (edges S (dd_g d))\<^sup>*), d1, ?t))"
    "dok d1" "edges S (dd_g d1) = edges S (dd_g d)" "d1 = d\<lparr>dd_g := dd_g d1\<rparr>"
  proof (cases "i \<in> locks_in S d t")
    case True
    then show thesis using that [of d] assms(1) by (simp add: lift_def)
  next
    case False
    then show thesis using that onLockBefore_iff [OF assms(1) t(1) assms(4)] t by (auto simp: locks_in_def)
  qed
  have same: "dd_epoch d1 = dd_epoch d" "dd_available d1 = dd_available d" "dd_recycled d1 = dd_recycled d" "dd_edges d1 = dd_edges d"
    by (subst d1(4), simp)+
  have l1: "ensureCurrentEpoch B d1 = ensureCurrentEpoch B d" "locks_in S d1 = locks_in S d" using ensure_epoch_cong [OF same(1)] by simp_all
  have c1: "dd_clean S d1" "node_at d1 node i" "locks_live S d1 ?t" "locks_in S d1 ?t = locks_in S d t"
    using assms(2,4,5) d1(3) same l1(2) t(2,3) by (simp_all add: dd_clean_def node_of_def locks_live_def locks_in_def)
  obtain n d' where d': "dd_addEdges B node stk 0 d1 ?t = Some (Inr (n, d', ?t))" "dok d'" "dd_clean S d'"
    "edges S (dd_g d') = edges S (dd_g d) \<union> locks_in S d t \<times> {i}" "d' = d1\<lparr>dd_g := dd_g d', dd_edges := dd_edges d'\<rparr>"
    using dd_addEdges_edges [OF d1(2) c1(1) t(1) c1(2,3) assms(6), of stk 0] unfolding c1(4) d1(3) l1(1) t(5) by blast
  have same': "dd_epoch d' = dd_epoch d1" "dd_available d' = dd_available d1" "dd_recycled d' = dd_recycled d1" by (subst d'(5), simp)+
  have l': "ensureCurrentEpoch B d' = ensureCurrentEpoch B d" "node_at d' node i" "locks_live S d' ?t"
    using ensure_epoch_cong [OF same'(1)] c1(2,3) same' l1 by (simp_all add: node_of_def locks_live_def)
  have cap: "length (dt_recursive ?t) < 64" "length (dt_locks ?t) < 64"
    using assms(7,8) by (simp_all add: ensureCurrentEpoch_def dt_ensureCurrentEpoch_def)
  obtain t' where t': "onLockAfter B node stk d' ?t = Inr t'" "tok t'" "held t' = add_mset i (held ?t)" "dt_epoch t' = dd_epoch d'"
    using onLockAfter_held(1) [OF d'(2) t(1) l'(2) assms(6) cap] l'(1) t(5) by auto
  have "locks_live S d' t'" using locks_live_add [OF l'(3) t(1) l'(2) t'(2) _ t'(4)] t'(3) l'(1) t(5) by simp
  moreover have "locks_in S d' t' = insert i (locks_in S d t)" using held_set [OF t'(2)] held_set [OF t(1)] t'(3,4) t(3) by (simp add: locks_in_def)
  moreover have "d' = d\<lparr>dd_g := dd_g d', dd_edges := dd_edges d'\<rparr>" by (subst d'(5), subst d1(4)) simp
  ultimately show ?thesis using isHeld_iff [OF assms(1,3,4)] d1(1) d'(1-4) t'(1-4) t(5) same(1) same'(1)
    by (intro exI [of _ d'] exI [of _ t']) (simp add: onLock_def Let_def lift_def)
qed

text \<open>The fast path stands for the slow one: where it answers, no edge is missing.\<close>

lemma hasAllEdges_iff:
  assumes "dok d" "tok t" "node_at d node i"
  shows "hasAllEdges B node d t = Inr (dt_epoch t = dd_epoch d \<and> locks_in S d t \<times> {i} \<subseteq> edges S (dd_g d))"
proof (cases "dt_epoch t = dd_epoch d")
  case True
  have n: "node \<noteq> 0" "nodeToEpoch B node = dd_epoch d" "nodeToIndexUnchecked B node = i" "i < bv_size B"
    using node_epoch [OF assms(1,3)] assms(3) by (auto simp: node_of_def)
  have g: "gok (dd_g d)" using assms(1) by (simp add: dd_ok_def)
  have l: "fst ` set (dt_locks t) = locks_in S d t" "\<And>l. l \<in> set (dt_locks t) \<Longrightarrow> fst l < bv_size B"
    using True assms(2) tok_bound [OF assms(2)] by (auto simp: tls_ok_def locks_in_def)
  have "rany (\<lambda>l. rbind (g_hasEdge B (fst l) i (dd_g d)) (\<lambda>e. Inr (\<not> e))) (dt_locks t) = Inr (\<exists>l\<in>set (dt_locks t). (fst l, i) \<notin> edges S (dd_g d))"
    using hasEdge_edges [OF g l(2) n(4)] by (intro rany_eq) simp
  then show ?thesis using True n(1-3) by (auto simp: hasAllEdges_def Let_def simp flip: l(1))
qed (simp add: hasAllEdges_def)

lemma fast_is_slow:
  assumes "dok d" "dd_clean S d" "tok t" "node_at d node i" "locks_live S d t" "bv_size B \<le> 2 ^ 16"
    and "onLockFast B node stk d t = Inr (True, t') \<or> dt_epoch t = dd_epoch d \<and> onFirstLock B node stk t = Inr (True, t')"
  shows "\<exists>n d'. dd_addEdges B node stk tid d t = Some (Inr (n, d', t)) \<and> onLockAfter B node stk d' t = Inr t'
    \<and> edges S (dd_g d') = edges S (dd_g d) \<and> dd_edges d' = dd_edges d"
proof -
  have n: "nodeToEpoch B node = dd_epoch d" "nodeToIndexUnchecked B node = i" using node_epoch [OF assms(1,4)] by auto
  have "ok (dt_bv t)" using assms(3) by (simp add: tls_ok_def)
  then have e: "dt_epoch t = dd_epoch d" and sub: "locks_in S d t \<times> {i} \<subseteq> edges S (dd_g d)"
    and a: "\<exists>b. addLock B i (dd_epoch d) stk t = Inr (b, t')"
    using assms(7) hasAllEdges_iff [OF assms(1,3,4)] n empty [of "dt_bv t"]
    by (auto simp: onLockFast_def onFirstLock_def dt_empty_def locks_in_def split: if_splits)
  have t: "ensureCurrentEpoch B d t = t" using e by (simp add: ensureCurrentEpoch_def dt_ensureCurrentEpoch_def)
  have none: "filter (\<lambda>x. (x, i) \<notin> edges S (dd_g d)) (sorted_list_of_set (locks_in S d t)) = []"
    using sub finite_locks [OF assms(3)] by (auto simp: filter_empty_conv)
  have un: "edges S (dd_g d) \<union> locks_in S d t \<times> {i} = edges S (dd_g d)" using sub by blast
  obtain m d' where d': "dd_addEdges B node stk tid d t = Some (Inr (m, d', t))" "dok d'" "edges S (dd_g d') = edges S (dd_g d)"
    "d' = d\<lparr>dd_g := dd_g d', dd_edges := dd_edges d'\<rparr>" "dd_edges d' = dd_edges d"
    using dd_addEdges_edges [OF assms(1-6), of stk tid] unfolding t none un by auto
  have s: "dd_epoch d' = dd_epoch d" "dd_available d' = dd_available d" "dd_recycled d' = dd_recycled d" by (subst d'(4), simp)+
  then have "node_at d' node i" "ensureCurrentEpoch B d' t = t" using assms(4) t by (simp_all add: node_of_def ensureCurrentEpoch_def)
  then have "onLockAfter B node stk d' t = Inr t'" using a nodeToIndex_node [OF d'(2)] s(1) by (auto simp: onLockAfter_def)
  then show ?thesis using d' by blast
qed

lemma onUnlock_held:
  assumes "dok d" "tok t" "node_at d node i" "bv_size B \<le> 2 ^ 16"
  shows "\<exists>t'. onUnlock B node t = Inr t' \<and> tok t' \<and> dt_epoch t' = dt_epoch t
    \<and> held t' = (if dt_epoch t = dd_epoch d then held t - {#i#} else held t)"
  using node_epoch [OF assms(1,3)] removeLock_held [OF assms(2), of i] assms by (auto simp: onUnlock_def node_of_def)

lemma indices_to_nodes_map: "dok d \<Longrightarrow> set xs \<subseteq> {..<bv_size B} \<Longrightarrow> indices_to_nodes B d xs = Inr (map ((+) (dd_epoch d)) xs)"
  by (induction xs) (simp_all add: indexToNode_at)

lemma path_to_bound: "gok g \<Longrightarrow> i < bv_size B \<Longrightarrow> path_to (edges S g) T i xs \<Longrightarrow> set xs \<subseteq> {..<bv_size B}"
proof (induction xs arbitrary: i)
  case (Cons x xs)
  then show ?case using edges_bound [OF Cons.prems(1)] by (cases xs) (fastforce simp: path_to_def)+
qed simp

lemma findPathToLock_shortest:
  assumes "dok d" "tok t" "node_at d node i" "dt_epoch t = dd_epoch d" "i \<notin> locks_in S d t" "path_size \<le> length path"
  shows "\<exists>r path' d'. findPathToLock B node path path_size d t = Some (Inr (r, path', d')) \<and> dok d' \<and> d' = d\<lparr>dd_tmp := dd_tmp d'\<rparr> \<and> length path' = length path
    \<and> (if r = 0 then \<forall>xs. path_to (edges S (dd_g d)) (locks_in S d t) i xs \<longrightarrow> path_size < length xs
       else r \<le> path_size \<and> (\<exists>xs. take r path' = map ((+) (dd_epoch d)) xs \<and> path_to (edges S (dd_g d)) (locks_in S d t) i xs)
         \<and> (\<forall>xs. path_to (edges S (dd_g d)) (locks_in S d t) i xs \<longrightarrow> r \<le> length xs))"
proof -
  have ok: "gok (dd_g d)" "shape (dd_tmp d)" "ok (dt_bv t)" "i < bv_size B" using assms(1-3) by (simp_all add: dd_ok_def tls_ok_def node_of_def)
  have l: "S (dt_bv t) = locks_in S d t" using assms(4) by (simp add: locks_in_def)
  obtain tmp where tmp: "bv_copyFrom B (dt_bv t) (dd_tmp d) = Inr tmp" "ok tmp" "S tmp = locks_in S d t" using copyFrom [OF ok(2,3)] l by auto
  obtain r p where p: "findShortestPath B i tmp path path_size (dd_g d) = Some (Inr (r, p))" "length p = length path"
    "if r = 0 then \<forall>xs. path_to (edges S (dd_g d)) (locks_in S d t) i xs \<longrightarrow> path_size < length xs
     else r \<le> path_size \<and> path_to (edges S (dd_g d)) (locks_in S d t) i (take r p) \<and> (\<forall>xs. path_to (edges S (dd_g d)) (locks_in S d t) i xs \<longrightarrow> r \<le> length xs)"
    using findShortestPath_shortest [OF ok(1) tmp(2) ok(4) assms(6)] unfolding tmp(3) by blast
  let ?ns = "map ((+) (dd_epoch d)) (take r p)" let ?d = "d\<lparr>dd_tmp := tmp\<rparr>"
  have "set (take r p) \<subseteq> {..<bv_size B}" using p(3) path_to_bound [OF ok(1,4)] by (cases "r = 0") auto
  then have ns: "indices_to_nodes B d (take r p) = Inr ?ns" by (rule indices_to_nodes_map [OF assms(1)])
  have hd: "r \<noteq> 0 \<longrightarrow> hd ?ns = node" using p(3) assms(3) by (cases "take r p") (auto simp: path_to_def node_of_def)
  have "getLocks (dd_epoch d) t = Inr (dt_bv t)" using assms(4) by (simp add: getLocks_def)
  then have e: "findPathToLock B node path path_size d t = Some (Inr (r, ?ns @ drop r p, ?d))"
    using tmp(1,3) nodeToIndex_node [OF assms(1,3)] getBit [OF tmp(2) ok(4)] assms(5) p(1) ns hd by (simp add: findPathToLock_def lift_def check_def)
  have "dok ?d" using assms(1) ok_shape [OF tmp(2)] by (simp add: dd_ok_def)
  moreover have "r \<noteq> 0 \<Longrightarrow> take r (?ns @ drop r p) = ?ns" using p(2,3) assms(6) by simp
  ultimately show ?thesis using e p(2,3) by (intro exI [of _ r] exI [of _ "?ns @ drop r p"] exI [of _ ?d]) (auto split: if_splits)
qed

end

section \<open>Properties\<close>

text \<open>The detector of \<^verbatim>\<open>sanitizer_deadlock_detector1.cc\<close> uses \<^verbatim>\<open>TwoLevelBitVector<1>\<close>, with 4096 nodes.\<close>

abbreviation dd_good :: "TwoLevelBitVector DeadlockDetector \<Rightarrow> bool" where
  "dd_good d \<equiv> dd_ok 4096 (tl_shape 1) (tl_ok 1) (tl_set 1) d \<and> dd_clean (tl_set 1) d"

abbreviation tls_good :: "TwoLevelBitVector DeadlockDetectorTLS \<Rightarrow> bool" where
  "tls_good \<equiv> tls_ok (tl_ok 1) (tl_set 1)"

abbreviation lock_edges :: "TwoLevelBitVector DeadlockDetector \<Rightarrow> (nat \<times> nat) set" where
  "lock_edges d \<equiv> edges (tl_set 1) (dd_g d)"

abbreviation in_use :: "TwoLevelBitVector DeadlockDetector \<Rightarrow> nat \<Rightarrow> nat \<Rightarrow> bool" where
  "in_use \<equiv> node_of 4096 (tl_set 1)"

abbreviation unused :: "TwoLevelBitVector DeadlockDetector \<Rightarrow> nat set" where
  "unused d \<equiv> tl_set 1 (dd_available d) \<union> tl_set 1 (dd_recycled d)"

lemma DDBV_size: "bv_size (TwoLevel 1) = 4096"
  by (simp add: TwoLevel_size)

lemmas DDBV_events =
  two_level.onLock_cycle [of 1, unfolded DDBV_size] two_level.newNode_fresh [of 1, unfolded DDBV_size] two_level.removeNode_ok [of 1, unfolded DDBV_size]
  two_level.addLock_held [of 1, unfolded DDBV_size] two_level.removeLock_held [of 1, unfolded DDBV_size] two_level.fast_is_slow [of 1, unfolded DDBV_size]
  two_level.ensure_held [of 1, unfolded DDBV_size]

lemma size_held: "size (held t) = length (dt_locks t) + length (dt_recursive t)"
  by (simp add: held_def)

text \<open>
  C24. Taking a lock adds the edges from the locks the thread holds to it. For a lock that is not
  held the answer is exactly whether one of the held locks could be reached from it before, which, if the
  graph of lock orders was free of cycles, is exactly whether it has a cycle now. A lock that is already held is
  never reported, although taking it again puts an edge from the lock to itself into the graph. The lock is then
  among those held, once more than before, and detector and thread stay in order.
\<close>

theorem onLock_reports_cycle:
  assumes "dd_good d" "tls_good t" "in_use d node i" "locks_live (tl_set 1) d t" "size (held t) < 64"
  shows "\<exists>r d' t'. onLock (TwoLevel 1) node stk d t = Some (Inr (r, d', t'))
    \<and> (r \<longleftrightarrow> i \<notin> locks_in (tl_set 1) d t \<and> (\<exists>y\<in>locks_in (tl_set 1) d t. (i, y) \<in> (lock_edges d)\<^sup>*))
    \<and> (acyclic (lock_edges d) \<longrightarrow> (r \<longleftrightarrow> i \<notin> locks_in (tl_set 1) d t \<and> \<not> acyclic (lock_edges d')))
    \<and> lock_edges d' = lock_edges d \<union> locks_in (tl_set 1) d t \<times> {i} \<and> dd_good d' \<and> tls_good t' \<and> locks_live (tl_set 1) d' t'
    \<and> locks_in (tl_set 1) d' t' = insert i (locks_in (tl_set 1) d t) \<and> held t' = add_mset i (if dt_epoch t = dd_epoch d then held t else {#})
    \<and> (\<forall>m j. in_use d m j \<longrightarrow> in_use d' m j) \<and> dd_epoch d' = dd_epoch d"
proof -
  let ?L = "locks_in (tl_set 1) d t"
  let ?r = "i \<notin> ?L \<and> (\<exists>y\<in>?L. (i, y) \<in> (lock_edges d)\<^sup>*)"
  obtain d' t' where o: "onLock (TwoLevel 1) node stk d t = Some (Inr (?r, d', t'))"
    "dd_good d'" "tls_good t'" "locks_live (tl_set 1) d' t'" "lock_edges d' = lock_edges d \<union> ?L \<times> {i}"
    "locks_in (tl_set 1) d' t' = insert i ?L" "held t' = add_mset i (held (ensureCurrentEpoch (TwoLevel 1) d t))"
    "d' = d\<lparr>dd_g := dd_g d', dd_edges := dd_edges d'\<rparr>"
    using DDBV_events(1) [OF conjunct1 [OF assms(1)] conjunct2 [OF assms(1)] assms(2-4), of stk] assms(5) by (auto simp: size_held)
  have "dd_epoch d' = dd_epoch d" "unused d' = unused d" by (subst o(8), simp)+
  then have "(\<forall>m j. in_use d m j \<longrightarrow> in_use d' m j) \<and> dd_epoch d' = dd_epoch d" by (simp add: node_of_def)
  moreover have "acyclic (lock_edges d) \<longrightarrow> (?r \<longleftrightarrow> i \<notin> ?L \<and> \<not> acyclic (lock_edges d'))"
    unfolding o(5) using acyclic_edges_to [OF two_level.finite_locks [OF assms(2), of d], of "lock_edges d" i] by blast
  moreover have "held t' = add_mset i (if dt_epoch t = dd_epoch d then held t else {#})"
    using o(7) DDBV_events(9) [OF assms(2), of "dd_epoch d"] by (simp add: ensureCurrentEpoch_def)
  ultimately show ?thesis using o(1-6) by (intro exI [of _ ?r] exI [of _ d'] exI [of _ t']) blast
qed

text \<open>
  C25. A new node is fresh, whether it was available, is recycled or comes from a new epoch: it
  belongs to the current epoch, is not one of the nodes in use, has no edges and carries the data.
  Only a flush, when all nodes are in use, ends the epoch; otherwise the nodes in use stay so.
\<close>

theorem newNode_well_formed:
  assumes "dd_good d" "dd_epoch d + 8192 \<le> 2 ^ 64"
  shows "\<exists>node i d'. newNode (TwoLevel 1) data d = Inr (node, d') \<and> dd_good d' \<and> in_use d' node i \<and> dd_data d' ! i = data \<and> i \<notin> Field (lock_edges d')
    \<and> (if unused d = {} then dd_epoch d' = dd_epoch d + 4096 \<and> lock_edges d' = {} \<and> unused d' = {..<4096} - {i}
       else dd_epoch d' = dd_epoch d \<and> lock_edges d' \<subseteq> lock_edges d \<and> (\<forall>m j. in_use d m j \<longrightarrow> in_use d' m j \<and> j \<noteq> i \<and> dd_data d' ! j = dd_data d ! j))"
proof -
  have "dd_epoch d + 2 * 4096 \<le> 2 ^ 64" "0 < (4096::nat)" using assms(2) by simp_all
  then obtain node d' i where n: "newNode (TwoLevel 1) data d = Inr (node, d')"
    "dd_ok 4096 (tl_shape 1) (tl_ok 1) (tl_set 1) d'" "dd_clean (tl_set 1) d'" "in_use d' node i" "dd_data d' = (dd_data d)[i := data]"
    "i \<notin> Field (lock_edges d')" "unused d = {} \<longrightarrow> dd_epoch d' = dd_epoch d + 4096 \<and> lock_edges d' = {} \<and> unused d' = {..<4096} - {i}"
    "unused d \<noteq> {} \<longrightarrow>
       dd_epoch d' = dd_epoch d \<and> lock_edges d' = {(x, y) \<in> lock_edges d. tl_set 1 (dd_available d) = {} \<longrightarrow> y \<notin> tl_set 1 (dd_recycled d)}
       \<and> unused d' = unused d - {i} \<and> i \<in> unused d"
    by (rule DDBV_events(2) [OF conjunct1 [OF assms(1)] conjunct2 [OF assms(1)], of data])
  have "i < length (dd_data d)" using n(4) assms(1) by (simp add: node_of_def dd_ok_def)
  then have data: "dd_data d' ! i = data" "\<And>j. j \<noteq> i \<Longrightarrow> dd_data d' ! j = dd_data d ! j" using n(5) by simp_all
  have "in_use d' m j \<and> j \<noteq> i" if "unused d \<noteq> {}" "in_use d m j" for m j using that n(8) by (auto simp: node_of_def)
  then show ?thesis using n(1-4,6-8) data by - (rule exI [of _ node], rule exI [of _ i], rule exI [of _ d'], cases "unused d = {}", auto)
qed

text \<open>
  C28. The locks of a thread, kept in a bit vector, a list of locks and a list of recursive
  acquisitions, are a multiset: \<open>addLock\<close> adds one occurrence and answers whether it is the first,
  \<open>removeLock\<close> takes one away, and the bit vector always holds exactly the locks of the multiset.
\<close>

theorem held_locks_multiset:
  assumes "tls_good t" "i < 4096"
  shows "tl_set 1 (dt_bv t) = set_mset (held t)
    \<and> (size (held t) < 64 \<longrightarrow> (\<exists>t'. addLock (TwoLevel 1) i (dt_epoch t) stk t = Inr (i \<notin># held t, t') \<and> tls_good t' \<and> held t' = add_mset i (held t)))
    \<and> (\<exists>t'. removeLock (TwoLevel 1) i t = Inr t' \<and> tls_good t' \<and> held t' = held t - {#i#})"
  using two_level.held_set [OF assms(1)] DDBV_events(4) [OF assms, of "dt_epoch t" stk] DDBV_events(5) [OF assms] by (auto simp: size_held)

text \<open>
  C27. The fast paths of a lock event stand for the slow one. When \<open>onLockFast\<close>, or \<open>onFirstLock\<close> of a
  thread of the current epoch, takes the event, the slow path would have added no edge, recorded
  none and left the thread with the same locks.
\<close>

theorem fast_path_is_slow_path:
  assumes "dd_good d" "tls_good t" "in_use d node i" "locks_live (tl_set 1) d t"
    and "onLockFast (TwoLevel 1) node stk d t = Inr (True, t') \<or> dt_epoch t = dd_epoch d \<and> onFirstLock (TwoLevel 1) node stk t = Inr (True, t')"
  shows "\<exists>n d'. dd_addEdges (TwoLevel 1) node stk tid d t = Some (Inr (n, d', t)) \<and> onLockAfter (TwoLevel 1) node stk d' t = Inr t'
    \<and> lock_edges d' = lock_edges d \<and> dd_edges d' = dd_edges d"
  using DDBV_events(6) [OF conjunct1 [OF assms(1)] conjunct2 [OF assms(1)] assms(2-4) _ assms(5)] by simp

text \<open>A detector and a thread at the start.\<close>

definition fresh_detector :: "TwoLevelBitVector DeadlockDetector" where
  "fresh_detector = dd_clear (TwoLevel 1)
     \<lparr>dd_epoch = 0, dd_available = no_bits, dd_recycled = no_bits, dd_tmp = no_bits, dd_g = no_edges, dd_data = replicate 4096 0, dd_edges = []\<rparr>"

definition fresh_tls :: "TwoLevelBitVector DeadlockDetectorTLS" where
  "fresh_tls = dt_clear (TwoLevel 1) \<lparr>dt_bv = no_bits, dt_epoch = 0, dt_recursive = [], dt_locks = []\<rparr>"

lemma fresh_good: "dd_good fresh_detector" "dd_epoch fresh_detector = 0" "unused fresh_detector = {}" "lock_edges fresh_detector = {}"
  "tls_good fresh_tls" "held fresh_tls = {#}" "dt_epoch fresh_tls = 0"
proof -
  note sh = tl_okD(1) [OF no_bits_ok(1)]
  have g: "two_level_graph 1 (g_clear (TwoLevel 1) no_edges)" "edges (tl_set 1) (g_clear (TwoLevel 1) no_edges) = {}"
    using two_level.g_clear_edges [of no_edges 1, unfolded DDBV_size] no_edges_ok(1) tl_okD(1) by (simp_all add: graph_ok_def)
  then show "dd_good fresh_detector" "dd_epoch fresh_detector = 0" "unused fresh_detector = {}" "lock_edges fresh_detector = {}"
    using two_level.clear [OF sh] sh by (simp_all add: fresh_detector_def dd_clear_def dd_ok_def dd_clean_def)
  show "tls_good fresh_tls" "held fresh_tls = {#}" "dt_epoch fresh_tls = 0" using two_level.dt_clear_held [of 1] sh by (simp_all add: fresh_tls_def)
qed

lemma first_node:
  obtains a d1 i where "newNode (TwoLevel 1) 7 fresh_detector = Inr (a, d1)" "dd_good d1" "in_use d1 a i" "dd_epoch d1 = 4096" "lock_edges d1 = {}"
    "unused d1 = {..<4096} - {i}"
proof -
  have "dd_epoch fresh_detector + 2 * 4096 \<le> 2 ^ 64" "0 < (4096::nat)" using fresh_good(2) by simp_all
  then show ?thesis by (rule DDBV_events(2) [OF conjunct1 [OF fresh_good(1)] conjunct2 [OF fresh_good(1)], of 7]) (use that fresh_good(2,3) in simp)
qed

lemma two_nodes:
  obtains a b i j d1 d where "newNode (TwoLevel 1) 7 fresh_detector = Inr (a, d1)" "newNode (TwoLevel 1) 8 d1 = Inr (b, d)" "dd_good d"
    "in_use d a i" "in_use d b j" "i \<noteq> j" "lock_edges d = {}" "dd_epoch d \<noteq> 0"
proof -
  obtain a d1 i where a: "newNode (TwoLevel 1) 7 fresh_detector = Inr (a, d1)" "dd_good d1" "in_use d1 a i" "dd_epoch d1 = 4096" "lock_edges d1 = {}"
    "unused d1 = {..<4096} - {i}" by (rule first_node)
  have "(if i = 0 then 1 else 0) \<in> unused d1" unfolding a(6) by simp
  then have ne: "unused d1 \<noteq> {}" by blast
  have "dd_epoch d1 + 2 * 4096 \<le> 2 ^ 64" "0 < (4096::nat)" using a(4) by simp_all
  then obtain b d j where b: "newNode (TwoLevel 1) 8 d1 = Inr (b, d)" "dd_good d" "in_use d b j" "dd_epoch d = 4096" "lock_edges d = {}"
    "unused d = unused d1 - {j}" "j \<in> unused d1"
    by (rule DDBV_events(2) [OF conjunct1 [OF a(2)] conjunct2 [OF a(2)], of 8]) (use ne a(4,5) in simp)
  then have "in_use d a i" "i \<noteq> j" using a(3,4) by (auto simp: node_of_def)
  then show ?thesis using a(1) b by (intro that [of a d1 b d i j]) simp_all
qed

text \<open>
  Two threads take two locks in opposite orders: the fourth acquisition closes the cycle. Taking the
  first lock twice is not reported.
\<close>

theorem onLock_reports_cycle_witness:
  "\<exists>a b d1 d d2 t2 d3 t3 d4 t4 d5 t5. newNode (TwoLevel 1) 7 fresh_detector = Inr (a, d1) \<and> newNode (TwoLevel 1) 8 d1 = Inr (b, d)
    \<and> onLock (TwoLevel 1) a 0 d fresh_tls = Some (Inr (False, d2, t2)) \<and> onLock (TwoLevel 1) b 0 d2 t2 = Some (Inr (False, d3, t3))
    \<and> onLock (TwoLevel 1) b 0 d3 fresh_tls = Some (Inr (False, d4, t4)) \<and> onLock (TwoLevel 1) a 0 d4 t4 = Some (Inr (True, d5, t5))
    \<and> (\<exists>d6 t6. onLock (TwoLevel 1) a 0 d2 t2 = Some (Inr (False, d6, t6)) \<and> \<not> acyclic (lock_edges d6))"
proof -
  obtain a b i j d1 d where n: "newNode (TwoLevel 1) 7 fresh_detector = Inr (a, d1)" "newNode (TwoLevel 1) 8 d1 = Inr (b, d)"
    and d: "dd_good d" "in_use d a i" "in_use d b j" "i \<noteq> j" "lock_edges d = {}" "dd_epoch d \<noteq> 0" by (rule two_nodes)
  have f: "locks_in (tl_set 1) d' fresh_tls = {} \<and> locks_live (tl_set 1) d' fresh_tls" if "dd_epoch d' = dd_epoch d" for d' :: "TwoLevelBitVector DeadlockDetector"
    using that d(6) fresh_good(7) by (simp add: locks_live_def locks_in_def)
  have ac0: "acyclic ({}::(nat \<times> nat) set)" by (simp add: acyclic_def)
  then have ac: "acyclic ({}::(nat \<times> nat) set)" "acyclic {(i, j)}" "\<not> acyclic {(i, j), (j, i)}" using d(4) by (auto simp: acyclic_insert)
  obtain d2 t2 where 2: "onLock (TwoLevel 1) a 0 d fresh_tls = Some (Inr (False, d2, t2))" "lock_edges d2 = {}" "dd_good d2" "tls_good t2"
    "locks_live (tl_set 1) d2 t2" "locks_in (tl_set 1) d2 t2 = {i}" "size (held t2) \<le> 1" "in_use d2 a i" "in_use d2 b j" "dd_epoch d2 = dd_epoch d"
    using onLock_reports_cycle [OF d(1) fresh_good(5) d(2), of 0] f [of d] d ac fresh_good(6,7) by auto
  obtain d3 t3 where 3: "onLock (TwoLevel 1) b 0 d2 t2 = Some (Inr (False, d3, t3))" "lock_edges d3 = {(i, j)}" "dd_good d3"
    "in_use d3 a i" "in_use d3 b j" "dd_epoch d3 = dd_epoch d"
    using onLock_reports_cycle [OF 2(3,4,9,5), of 0] 2 d(4) ac by auto
  obtain d4 t4 where 4: "onLock (TwoLevel 1) b 0 d3 fresh_tls = Some (Inr (False, d4, t4))" "lock_edges d4 = {(i, j)}" "dd_good d4" "tls_good t4"
    "locks_live (tl_set 1) d4 t4" "locks_in (tl_set 1) d4 t4 = {j}" "size (held t4) \<le> 1" "in_use d4 a i" "dd_epoch d4 = dd_epoch d"
    using onLock_reports_cycle [OF 3(3) fresh_good(5) 3(5), of 0] f [of d3] 3 d(4,6) ac fresh_good(6,7) by auto
  obtain d5 t5 where "onLock (TwoLevel 1) a 0 d4 t4 = Some (Inr (True, d5, t5))"
    using onLock_reports_cycle [OF 4(3,4,8,5), of 0] 4 d(4) ac by (auto simp: insert_commute)
  moreover obtain d6 t6 where "onLock (TwoLevel 1) a 0 d2 t2 = Some (Inr (False, d6, t6))" "lock_edges d6 = {(i, i)}"
    using onLock_reports_cycle [OF 2(3,4,8,5), of 0] 2 by auto
  moreover have "\<not> acyclic {(i, i)}" by (auto simp: acyclic_def)
  ultimately show ?thesis using n 2(1) 3(1) 4(1) by metis
qed

theorem newNode_well_formed_witness:
  "\<exists>node d'. newNode (TwoLevel 1) 7 fresh_detector = Inr (node, d') \<and> dd_epoch d' = 4096 \<and> lock_edges d' = {}"
  using newNode_well_formed [OF fresh_good(1), of 7] fresh_good(2,3) by auto

theorem held_locks_multiset_witness:
  "\<exists>t. addLock (TwoLevel 1) 5 0 0 fresh_tls = Inr (True, t) \<and> held t = {#5#}"
  using held_locks_multiset [OF fresh_good(5), of 5 0] fresh_good(6,7) by auto

theorem fast_path_is_slow_path_witness:
  "\<exists>a d1 t n d2. newNode (TwoLevel 1) 7 fresh_detector = Inr (a, d1) \<and> onFirstLock (TwoLevel 1) a 3 (ensureCurrentEpoch (TwoLevel 1) d1 fresh_tls) = Inr (True, t)
    \<and> dd_addEdges (TwoLevel 1) a 3 1 d1 (ensureCurrentEpoch (TwoLevel 1) d1 fresh_tls) = Some (Inr (n, d2, ensureCurrentEpoch (TwoLevel 1) d1 fresh_tls))
    \<and> onLockAfter (TwoLevel 1) a 3 d2 (ensureCurrentEpoch (TwoLevel 1) d1 fresh_tls) = Inr t"
proof -
  obtain a d1 i where a: "newNode (TwoLevel 1) 7 fresh_detector = Inr (a, d1)" "dd_good d1" "in_use d1 a i" by (rule first_node)
  let ?t = "ensureCurrentEpoch (TwoLevel 1) d1 fresh_tls"
  note t = two_level.ensure_locks [OF fresh_good(5), of d1]
  have e: "dd_epoch d1 \<noteq> 0" "nodeToEpoch (TwoLevel 1) a = dd_epoch d1" "nodeToIndexUnchecked (TwoLevel 1) a = i" "i < 4096"
    using a(3) two_level.node_epoch [of 1 d1, unfolded DDBV_size, OF conjunct1 [OF a(2)] a(3)] by (simp_all add: node_of_def)
  have l: "locks_in (tl_set 1) d1 fresh_tls = {}" "locks_in (tl_set 1) d1 ?t = {}" "locks_live (tl_set 1) d1 ?t"
    using e(1) t(2,3) fresh_good(7) by (simp_all add: locks_in_def locks_live_def)
  have "held ?t = {#}" using two_level.held_set [OF t(1)] t(3) l(1) by simp
  then obtain b t' where "addLock (TwoLevel 1) i (dd_epoch d1) 3 ?t = Inr (b, t')"
    using DDBV_events(4) [OF t(1) e(4), of "dd_epoch d1" 3] t(2) size_held [of ?t] by auto
  then have o: "onFirstLock (TwoLevel 1) a 3 ?t = Inr (True, t')"
    using t(1,2,3) l(1) e two_level.empty [of 1 "dt_bv ?t"] by (simp add: onFirstLock_def dt_empty_def tls_ok_def)
  then show ?thesis using fast_path_is_slow_path [OF a(2) t(1) a(3) l(3), of 3 t' 1] a(1) t(2) by blast
qed

end
