(* ===== verification/Spec2Isabelle.thy ===== *)
theory Spec2Isabelle
  imports Ufo_Session Ufo_QueueThreads San_Report San_Deadlock
begin

text \<open>
  A verification development of the UFO tracing runtime and of the trace loader of its predictor.

  \<^bold>\<open>The program.\<close> UFO is a ThreadSanitizer derivative. Instrumented programs call hooks
  (\<^verbatim>\<open>ufo_interface.cc\<close>) on memory accesses, locks, thread and allocation events; the hooks dispatch
  through a table of function pointers to event handlers (\<^verbatim>\<open>rtl_impl.h\<close>, \<^verbatim>\<open>impl_mem_acc.h\<close>). A handler
  appends a packed event record to the buffer of its thread (\<^verbatim>\<open>tlbuffer.h\<close>, \<^verbatim>\<open>tlbuffer.cc\<close>). A full
  buffer is flushed to the thread's trace file, either directly or through a ring of write tasks that
  a writer thread empties (\<^verbatim>\<open>io_queue.h\<close>, \<^verbatim>\<open>io_queue.cc\<close>), plain or compressed by snappy. The context
  (\<^verbatim>\<open>ufo.h\<close>, \<^verbatim>\<open>ufo.cc\<close>) reads the configuration, starts and stops tracing, writes the table of loaded
  modules and the statistics, and completes all files when the program ends. The predictor
  (\<^verbatim>\<open>src/ufo-predict\<close>) loads the trace files back. Below all of it are the sanitizer's own string,
  memory, formatting and sorting functions. Paths in the theories are relative to
  \<^verbatim>\<open>src/ufo-rt/lib/tsan/rtl/ufo\<close> and \<^verbatim>\<open>src/ufo-rt/lib/sanitizer_common\<close>.

  \<^bold>\<open>Style.\<close> Code is translated to functions that pass the state explicitly. What the code can do
  wrong is a value: \<^verbatim>\<open>fault\<close> of \<^verbatim>\<open>Ufo_Prelude\<close> has a constructor for an access outside a heap block,
  a null dereference, a failed assertion (\<^verbatim>\<open>Die\<close>), a wait that cannot end by itself and so on, and
  an operation returns \<^verbatim>\<open>fault + result\<close>. Every store into a heap block is checked against the
  length of the block. Machine integers are words where they wrap or are taken apart, and naturals
  where the code keeps them in range, with the wrap-around written out (\<^verbatim>\<open>wrap32\<close>) where it matters.
  Loops whose end is not evident are runs in \<^verbatim>\<open>Ufo_Loop\<close> (\<open>None\<close> if they do not come back), with
  one rule that proves end and result together. The drain of the ring counts down from the length of
  the ring, which bounds what it holds, and is shown to finish; no statement assumes fuel.

  \<^bold>\<open>Theories.\<close>
  \<^item> \<^verbatim>\<open>Ufo_Prelude\<close>, \<^verbatim>\<open>Ufo_Loop\<close>: results and faults, heap blocks, little-endian bytes, loops.
  \<^item> \<^verbatim>\<open>San_Printf\<close>, \<^verbatim>\<open>San_Libc\<close>, \<^verbatim>\<open>San_Sort\<close>: \<^verbatim>\<open>sanitizer_printf.cc\<close>, \<^verbatim>\<open>sanitizer_libc.cc\<close> and the
    algorithms of \<^verbatim>\<open>sanitizer_common.h\<close>. Formatting into a buffer cuts the rendered text and returns
    its whole length; numbers survive printing and reading; moves respect overlap; the heap sort
    sorts under every strict weak order (locale \<^verbatim>\<open>weak_order\<close>, interpreted on the order of modules).
  \<^item> \<^verbatim>\<open>Snappy_Format\<close>, \<^verbatim>\<open>Snappy_Emit\<close>, \<^verbatim>\<open>Snappy_Compress\<close>: the format with its reference decoder, the
    parts of the compressor and the compressor. Sources are a locale (\<^verbatim>\<open>byte_source\<close>), interpreted
    on the array source the runtime uses.
  \<^item> \<^verbatim>\<open>Snappy_Copy\<close>, \<^verbatim>\<open>Snappy_Writer\<close>, \<^verbatim>\<open>Snappy_Uncompress\<close>, \<^verbatim>\<open>Snappy_C\<close>: the overlapping copies by blocks
    against the copy by bytes, the outputs (locale \<^verbatim>\<open>writer_contract\<close>), the decompressor over any
    source and output (locale \<^verbatim>\<open>decompression\<close>) and the entry points. The decompressor comes back on
    every input without leaving its buffers and accepts exactly what the reference decoder accepts;
    what the compressor writes fits and decompresses to the input.
  \<^item> \<^verbatim>\<open>Ufo_Events\<close>, \<^verbatim>\<open>Ufo_Platform\<close>, \<^verbatim>\<open>Ufo_Stat\<close>, \<^verbatim>\<open>Ufo_State\<close>, \<^verbatim>\<open>Ufo_Demo\<close>: the event records, the
    operating system's files and clock, the statistics, the records of the runtime's state and a
    concrete state for examples.
  \<^item> \<^verbatim>\<open>Ufo_IoQueue\<close>: the ring as it is, refined to a bounded queue (locale \<^verbatim>\<open>bounded_fifo\<close>), and its
    sequential operations.
  \<^item> \<^verbatim>\<open>Ufo_QueueThreads\<close>: the same ring with its threads as a step relation over all interleavings:
    mutual exclusion, nothing lost or reordered, progress, and the lost wake-up of \<^verbatim>\<open>stop\<close>. Between
    two pushes a thread may put any contents into its buffer.
  \<^item> \<^verbatim>\<open>Ufo_TLBuffer\<close>: the buffers. The log of a thread is the content of its file, then what is queued
    for it, then its buffer; every operation is described by what it appends to the log.
  \<^item> \<^verbatim>\<open>Ufo_Modules\<close>, \<^verbatim>\<open>Ufo_Rtl\<close>, \<^verbatim>\<open>Ufo_Context\<close>, \<^verbatim>\<open>Ufo_Interface\<close>: the module table, the handlers, the
    context and the hooks, each described by its effect on the logs. While tracing is stopped the
    hooks do nothing until a thread is created.
  \<^item> \<^verbatim>\<open>Ufo_Loader\<close>: \<^verbatim>\<open>LoadingTask2.java\<close> and \<^verbatim>\<open>Bytes.java\<close>, a round trip with the event encoding. The decoder
    inverts the encoding of every event; the loaded sequence counts all nodes but leaves out the
    synchronisation nodes, as the code does, and \<open>kept_events\<close> says what it holds.
  \<^item> \<^verbatim>\<open>Ufo_Session\<close>: whole executions, from the first hook over \<^verbatim>\<open>destroy\<close> to the file the loader reads.
  \<^item> \<^verbatim>\<open>San_Report\<close>: \<^verbatim>\<open>Printf\<close>, \<^verbatim>\<open>Report\<close> and the growing strings of \<^verbatim>\<open>sanitizer_printf.cc\<close>: a message is printed
    whole, first tried in a small buffer and then in a large one, and logged without escape sequences.
  \<^item> \<^verbatim>\<open>San_BitVector\<close>, \<^verbatim>\<open>San_BVGraph\<close>, \<^verbatim>\<open>San_Deadlock\<close>: \<^verbatim>\<open>sanitizer_bitvector.h\<close>, \<^verbatim>\<open>sanitizer_bvgraph.h\<close>
    and \<^verbatim>\<open>sanitizer_deadlock_detector.h\<close>. These are templates, so the graph and the detector take the
    operations of a bit vector as an argument (\<^verbatim>\<open>bv_ops\<close>), and what they rely on is the locale
    \<^verbatim>\<open>bitvector\<close>, interpreted on the one-word vector and on the two-level vector of every size. The
    two-level vector implements a set, the graph a relation, and the locks of a thread a multiset;
    the search ends on every graph; a lock event is answered by whether it closes a cycle, a lock
    held already never being reported; the fast paths agree with the slow one; a new node is fresh.

  \<^bold>\<open>Assumptions.\<close> Statements about files assume that the system takes writes in full
  (\<^verbatim>\<open>full_writes\<close>); the model itself also has short writes and failing opens. \<^verbatim>\<open>internal_alloc\<close>
  does not fail: the source has it abort. The logs of running threads are described for compression
  off; with compression, \<^verbatim>\<open>Ufo_TLBuffer\<close> describes a flush without the queue and how the writer thread
  dies. Threads interleave at the granularity of hooks in
  \<^verbatim>\<open>Ufo_Session\<close> and at the granularity of the operations on mutex and condition variables in
  \<^verbatim>\<open>Ufo_QueueThreads\<close>; the relaxed atomic flag is read and written in one step.

  \<^bold>\<open>Not modelled.\<close>
  \<^item> The debugging dumps of \<^verbatim>\<open>report.cc\<close>: stack and module dumps, pure output through the symbolizer.
  \<^item> The writers of \<^verbatim>\<open>snappy.cc\<close> for iovec and scattered outputs, which the runtime does not use.
  \<^item> The interface of the deadlock detector for the ThreadSanitizer runtime
    (\<^verbatim>\<open>sanitizer_deadlock_detector1.cc\<close>) and the second detector, which is not built.
  \<^item> The rest of \<^verbatim>\<open>sanitizer_common\<close>: allocators, symbolizer, stack depot, flags, memory mapping, atomics
    and system calls, which are platform code.
  \<^item> The ThreadSanitizer runtime that calls the hooks (shadow memory, interceptors, thread contexts,
    system calls, inline assembly) and the other compiler-rt libraries, which UFO does not use.
  \<^item> The predictor beyond its trace loader: it generates constraints for an external solver.
  \<^item> Debug printing (\<^verbatim>\<open>DPrintf\<close>), which this build compiles to nothing, public headers and tests.
\<close>

end
